(* ===== verification/Prelude.thy ===== *)
theory Prelude
  imports Main "HOL-Library.Word"
begin

text \<open>
  Prelude of the development: the fault values and result type every fallible operation
  returns, sequencing of fallible operations, the C integer types at their width with the
  casts the code makes between them, and generic list facts shared by the components.
\<close>

section \<open>Faults and results\<close>

text \<open>
  A computation either reaches a value (\<open>Inr\<close>) or does something the C++ program has no
  defined meaning for, or leaves the process (\<open>Inl\<close>). The faults are kept apart so that a
  theorem says which one happens.
\<close>

datatype fault =
    NullDeref        \<comment> \<open>member access through a null pointer\<close>
  | Dangling         \<comment> \<open>access to a block that is not live\<close>
  | OutOfBounds      \<comment> \<open>access beyond the end (or before the start) of a block\<close>
  | Overlap          \<comment> \<open>memcpy between overlapping regions\<close>
  | Uninit           \<comment> \<open>an indeterminate byte decides a value\<close>
  | SignedOverflow   \<comment> \<open>arithmetic on int leaves its range\<close>
  | EmptyFront       \<comment> \<open>front() of an empty list\<close>
  | BadIterator      \<comment> \<open>an iterator moved before the beginning of its list, or \<open>end()\<close> dereferenced\<close>
  | SemInUse         \<comment> \<open>a semaphore is overwritten while a thread waits on it\<close>
  | BadAlloc         \<comment> \<open>new[] with a negative length throws\<close>
  | ExitProcess int  \<comment> \<open>exit(n)\<close>

type_synonym 'a res = "fault + 'a"

fun rbind :: "'a res \<Rightarrow> ('a \<Rightarrow> 'b res) \<Rightarrow> 'b res" where
  "rbind (Inl e) f = Inl e"
| "rbind (Inr a) f = f a"

named_theorems res_simps "inversion rules for results of sequenced operations"

lemma rbind_eq_Inr [res_simps]: "rbind x f = Inr b \<longleftrightarrow> (\<exists>a. x = Inr a \<and> f a = Inr b)"
  by (cases x) auto

lemma rbind_eq_Inl [res_simps]:
  "rbind x f = Inl e \<longleftrightarrow> x = Inl e \<or> (\<exists>a. x = Inr a \<and> f a = Inl e)"
  by (cases x) auto

lemma rbind_assoc: "rbind (rbind x f) g = rbind x (\<lambda>a. rbind (f a) g)"
  by (cases x) auto

lemma rbind_cong_right: "(\<And>a. x = Inr a \<Longrightarrow> f a = g a) \<Longrightarrow> rbind x f = rbind x g"
  by (cases x) auto

lemma rbind_Inr_right [simp]: "rbind x Inr = x"
  by (cases x) auto

section \<open>The C integer types\<close>

text \<open>
  \<open>size_t\<close> is a 64 bit word. A parameter or field of type \<open>int\<close> is a 32 bit word read with
  \<open>sint\<close>; a local \<open>int\<close> is its signed value, and arithmetic on it is checked, because signed
  overflow is undefined.
\<close>

type_synonym u8 = "8 word"
type_synonym u16 = "16 word"
type_synonym i32 = "32 word"
type_synonym size_t = "64 word"

definition chk_int :: "int \<Rightarrow> int res" where
  "chk_int i = (if - (2 ^ 31) \<le> i \<and> i < 2 ^ 31 then Inr i else Inl SignedOverflow)"

text \<open>\<open>static_cast<int>\<close> of a \<open>size_t\<close> keeps the low 32 bits, and an \<open>int\<close> used where a
  \<open>size_t\<close> is expected is sign extended.\<close>

definition int_of_size :: "size_t \<Rightarrow> int" where
  "int_of_size w = sint (ucast w :: i32)"

definition size_of_int :: "int \<Rightarrow> size_t" where
  "size_of_int i = word_of_int i"

lemma chk_int_ok [simp]: "- (2 ^ 31) \<le> i \<Longrightarrow> i < 2 ^ 31 \<Longrightarrow> chk_int i = Inr i"
  by (simp add: chk_int_def)

lemma sint_small_word: "n < 2 ^ 31 \<Longrightarrow> sint (word_of_nat n :: i32) = int n"
  by (simp add: signed_of_nat signed_take_bit_int_eq_self)

lemma ucast_word_of_nat_unat: "(ucast w :: i32) = word_of_nat (unat w)"
  by simp

lemma int_of_size_small:
  assumes "unat w < 2 ^ 31"
  shows "int_of_size w = int (unat w)"
  using assms unfolding int_of_size_def ucast_word_of_nat_unat by (rule sint_small_word)

lemma unat_size_of_int:
  assumes "0 \<le> i" "i < 2 ^ 64"
  shows "unat (size_of_int i) = nat i"
  using assms by (simp add: size_of_int_def unat_eq_nat_uint uint_word_of_int_eq take_bit_int_eq_self)

lemma size_of_int_nat: "size_of_int (int n) = word_of_nat n"
  by (simp add: size_of_int_def)

lemma unat_word_of_nat_small [simp]: "n < 2 ^ 64 \<Longrightarrow> unat (word_of_nat n :: size_t) = n"
  by (simp add: unsigned_of_nat take_bit_nat_eq_self)

lemma int_of_size_nat:
  assumes "n < 2 ^ 31"
  shows "int_of_size (word_of_nat n) = int n"
proof -
  have "unat (word_of_nat n :: size_t) = n"
    by (rule unat_word_of_nat_small) (use assms in simp)
  with assms show ?thesis using int_of_size_small [of "word_of_nat n"] by simp
qed

lemma scast_eq_size_of_int: "(scast (w :: i32) :: size_t) = size_of_int (sint w)"
  by (simp add: size_of_int_def)

lemma scast_int: "sint (w :: i32) = int n \<Longrightarrow> (scast w :: size_t) = word_of_nat n"
  unfolding scast_eq_size_of_int by (simp add: size_of_int_nat)

lemma sint_i32_bounds: "- (2 ^ 31) \<le> sint (w :: i32)" "sint (w :: i32) < 2 ^ 31"
  using sint_greater_eq [of w] sint_less [of w] by simp_all

lemma unat_scast_neg:
  assumes "sint (w :: i32) < 0"
  shows "2 ^ 63 \<le> unat (scast w :: size_t)"
proof -
  have lo: "- (2 ^ 31) \<le> sint w" using sint_greater_eq [of w] by simp
  have "uint (scast w :: size_t) = sint w mod 2 ^ 64"
    unfolding scast_eq_size_of_int size_of_int_def uint_word_of_int_eq take_bit_eq_mod by simp
  also have "\<dots> = (sint w + 2 ^ 64) mod 2 ^ 64"
    by (simp only: mod_add_self2)
  also have "\<dots> = sint w + 2 ^ 64"
    using assms lo by (intro mod_pos_pos_trivial) auto
  finally have "uint (scast w :: size_t) = sint w + 2 ^ 64" .
  moreover have "(2 :: int) ^ 63 \<le> sint w + 2 ^ 64" using lo by simp
  ultimately have "2 ^ 63 \<le> uint (scast w :: size_t)" by (simp only:)
  then have "nat (2 ^ 63) \<le> nat (uint (scast w :: size_t))" by (rule nat_mono)
  then show ?thesis by simp
qed

lemma word_of_nat_less_iff:
  "n < 2 ^ 64 \<Longrightarrow> (word_of_nat n :: size_t) < w \<longleftrightarrow> n < unat w"
  "n < 2 ^ 64 \<Longrightarrow> w \<le> (word_of_nat n :: size_t) \<longleftrightarrow> unat w \<le> n"
  by (simp_all add: word_less_nat_alt word_le_nat_alt)

section \<open>Lists\<close>

lemma take_append_drop_split:
  "n \<le> length xs \<Longrightarrow> take n (xs @ ys) = take n xs \<and> drop n (xs @ ys) = drop n xs @ ys"
  by simp

lemma those_map_Some [simp]: "those (map Some xs) = Some xs"
  by (induction xs) auto

lemma those_eq_Some: "those cs = Some bs \<longleftrightarrow> cs = map Some bs"
  by (induction cs arbitrary: bs) (auto split: option.splits)

section \<open>Sums over threads\<close>

lemma sum_fun_upd:
  fixes g :: "'a \<Rightarrow> 'b :: comm_monoid_add" and n :: nat
  assumes "t < n"
  shows "(\<Sum>i<n. g ((f(t := l)) i)) + g (f t) = (\<Sum>i<n. g (f i)) + g l"
proof -
  have "(\<Sum>i<n. g (k i)) = g (k t) + (\<Sum>i\<in>{..<n} - {t}. g (k i))" for k
    using assms by (subst sum.remove [of _ t]) auto
  from this [of "f(t := l)"] this [of f] show ?thesis by (simp add: ac_simps)
qed

end
