(* ===== verification/Memory.thy ===== *)
theory Memory
  imports Prelude
begin

unbundle bit_operations_syntax

text \<open>
  The part of C memory the program uses: numbered blocks of byte cells, pointers into them,
  \<open>new char[n]\<close> / \<open>malloc\<close> / a local variable of a function (all of them a fresh block),
  \<open>delete\<close> and the end of a local's lifetime, \<open>memcpy\<close>, \<open>memset\<close>, and the
  little-endian four byte representation of \<open>int\<close>. A cell is \<open>None\<close> until it is written.
\<close>

type_synonym cell = "u8 option"
type_synonym ptr = "nat \<times> nat"   \<comment> \<open>block number and offset in bytes\<close>

record mem =
  blk :: "nat \<Rightarrow> cell list option"
  brk :: nat

definition empty_mem :: mem where
  "empty_mem = \<lparr>blk = (\<lambda>_. None), brk = 0\<rparr>"

section \<open>Operations\<close>

definition alloc :: "nat \<Rightarrow> mem \<Rightarrow> ptr \<times> mem" where
  "alloc n h = ((brk h, 0), h\<lparr>blk := (blk h)(brk h \<mapsto> replicate n None), brk := Suc (brk h)\<rparr>)"

definition free :: "ptr \<Rightarrow> mem \<Rightarrow> mem res" where
  "free p h = (if snd p = 0 \<and> blk h (fst p) \<noteq> None
     then Inr (h\<lparr>blk := (blk h)(fst p := None)\<rparr>) else Inl Dangling)"

definition load :: "mem \<Rightarrow> ptr \<Rightarrow> nat \<Rightarrow> cell list res" where
  "load h p n = (case blk h (fst p) of
       None \<Rightarrow> Inl Dangling
     | Some cs \<Rightarrow> if snd p + n \<le> length cs then Inr (take n (drop (snd p) cs)) else Inl OutOfBounds)"

definition store :: "mem \<Rightarrow> ptr \<Rightarrow> cell list \<Rightarrow> mem res" where
  "store h p bs = (case blk h (fst p) of
       None \<Rightarrow> Inl Dangling
     | Some cs \<Rightarrow>
         if snd p + length bs \<le> length cs
         then Inr (h\<lparr>blk := (blk h)(fst p \<mapsto>
                take (snd p) cs @ bs @ drop (snd p + length bs) cs)\<rparr>)
         else Inl OutOfBounds)"

definition ptr_off :: "ptr \<Rightarrow> int \<Rightarrow> ptr res" where
  "ptr_off p i = (if 0 \<le> int (snd p) + i then Inr (fst p, nat (int (snd p) + i)) else Inl OutOfBounds)"

definition overlaps :: "ptr \<Rightarrow> ptr \<Rightarrow> nat \<Rightarrow> bool" where
  "overlaps p q n \<longleftrightarrow> fst p = fst q \<and> snd p < snd q + n \<and> snd q < snd p + n"

definition memcpy :: "mem \<Rightarrow> ptr \<Rightarrow> ptr \<Rightarrow> size_t \<Rightarrow> mem res" where
  "memcpy h dst src n =
     rbind (load h src (unat n)) (\<lambda>bs.
       if overlaps dst src (unat n) then Inl Overlap else store h dst bs)"

definition memset :: "mem \<Rightarrow> ptr \<Rightarrow> u8 \<Rightarrow> nat \<Rightarrow> mem res" where
  "memset h p c n = store h p (replicate n (Some c))"

text \<open>The loop \<open>for (...) buf[i] = c\<close>, for the \<open>n\<close> bytes from \<open>i\<close> on.\<close>

fun fill_chars :: "u8 \<Rightarrow> nat \<Rightarrow> mem \<Rightarrow> ptr \<Rightarrow> nat \<Rightarrow> mem res" where
  "fill_chars c 0 h buf i = Inr h"
| "fill_chars c (Suc n) h buf i =
     rbind (store h (fst buf, snd buf + i) [Some c]) (\<lambda>h. fill_chars c n h buf (i + 1))"

section \<open>The representation of int\<close>

definition enc_i32 :: "i32 \<Rightarrow> u8 list" where
  "enc_i32 w = map (\<lambda>i. ucast (drop_bit (8 * i) w)) [0..<4]"

definition dec_i32 :: "u8 list \<Rightarrow> i32" where
  "dec_i32 bs = foldr (\<lambda>b acc. ucast b OR push_bit 8 acc) bs 0"

definition read_cells_i32 :: "cell list \<Rightarrow> i32 res" where
  "read_cells_i32 cs = (case those cs of None \<Rightarrow> Inl Uninit | Some bs \<Rightarrow> Inr (dec_i32 bs))"

definition read_i32 :: "mem \<Rightarrow> ptr \<Rightarrow> i32 res" where
  "read_i32 h p = rbind (load h p 4) read_cells_i32"

definition write_i32 :: "mem \<Rightarrow> ptr \<Rightarrow> i32 \<Rightarrow> mem res" where
  "write_i32 h p w = store h p (map Some (enc_i32 w))"

lemma length_enc_i32 [simp]: "length (enc_i32 w) = 4"
  by (simp add: enc_i32_def)

lemma dec_enc_i32 [simp]: "dec_i32 (enc_i32 w) = w"
proof (rule bit_word_eqI)
  fix n assume "n < LENGTH(32)"
  then have n: "n < 8 \<or> 8 \<le> n \<and> n < 16 \<or> 16 \<le> n \<and> n < 24 \<or> 24 \<le> n \<and> n < 32" by auto
  have enc: "enc_i32 w = [ucast w, ucast (drop_bit 8 w), ucast (drop_bit 16 w), ucast (drop_bit 24 w)]"
    by (simp add: enc_i32_def upt_rec)
  from n show "bit (dec_i32 (enc_i32 w)) n = bit w n"
    by (elim disjE) (auto simp: enc dec_i32_def bit_simps)
qed

lemma read_cells_enc [simp]: "read_cells_i32 (map Some (enc_i32 w)) = Inr w"
  by (simp add: read_cells_i32_def)

section \<open>Readable ranges and frame conditions\<close>

text \<open>
  \<open>readable h p n\<close>: the \<open>n\<close> bytes at \<open>p\<close> lie in a live block; \<open>cells h p n\<close> are those bytes.
  \<open>wf_mem h\<close>: no block number from \<open>brk h\<close> on is in use, so \<open>alloc\<close> is fresh.
  \<open>mem_ext B h h'\<close>: every live block of \<open>h\<close> outside \<open>B\<close> is live and unchanged in \<open>h'\<close>.
\<close>

definition readable :: "mem \<Rightarrow> ptr \<Rightarrow> nat \<Rightarrow> bool" where
  "readable h p n \<longleftrightarrow> (case blk h (fst p) of None \<Rightarrow> False | Some cs \<Rightarrow> snd p + n \<le> length cs)"

definition cells :: "mem \<Rightarrow> ptr \<Rightarrow> nat \<Rightarrow> cell list" where
  "cells h p n = (case blk h (fst p) of None \<Rightarrow> [] | Some cs \<Rightarrow> take n (drop (snd p) cs))"

definition wf_mem :: "mem \<Rightarrow> bool" where
  "wf_mem h \<longleftrightarrow> (\<forall>b. brk h \<le> b \<longrightarrow> blk h b = None)"

definition mem_ext :: "nat set \<Rightarrow> mem \<Rightarrow> mem \<Rightarrow> bool" where
  "mem_ext B h h' \<longleftrightarrow> brk h \<le> brk h' \<and>
     (\<forall>b cs. b \<notin> B \<longrightarrow> blk h b = Some cs \<longrightarrow> blk h' b = Some cs)"

lemma load_readable: "readable h p n \<Longrightarrow> load h p n = Inr (cells h p n)"
  by (auto simp: readable_def cells_def load_def split: option.splits)

lemma load_eq_Inr: "load h p n = Inr bs \<longleftrightarrow> readable h p n \<and> bs = cells h p n"
  by (auto simp: readable_def cells_def load_def split: option.splits if_splits)

lemma length_cells [simp]: "readable h p n \<Longrightarrow> length (cells h p n) = n"
  by (auto simp: readable_def cells_def split: option.splits)

lemma readable_le: "readable h p n \<Longrightarrow> k \<le> n \<Longrightarrow> readable h p k"
  by (auto simp: readable_def split: option.splits)

lemma readable_off: "readable h (b, k) n \<Longrightarrow> i \<le> n \<Longrightarrow> readable h (b, k + i) (n - i)"
  by (auto simp: readable_def split: option.splits)

lemma cells_take: "cells h p (min k n) = take k (cells h p n)"
  by (auto simp: cells_def split: option.splits)

lemma cells_take_le: "k \<le> n \<Longrightarrow> cells h p k = take k (cells h p n)"
  using cells_take [of h p k n] by (simp add: min_def)

lemma cells_drop: "cells h (b, k + i) (n - i) = drop i (cells h (b, k) n)"
  by (auto simp: cells_def drop_take add.commute split: option.splits)

lemma readable_blk: "blk h b = Some cs \<Longrightarrow> readable h (b, 0) n \<longleftrightarrow> n \<le> length cs"
  by (simp add: readable_def)

lemma cells_blk: "blk h b = Some cs \<Longrightarrow> cells h (b, k) n = take n (drop k cs)"
  by (simp add: cells_def)

subsection \<open>Extension of memory\<close>

lemma mem_ext_refl [simp]: "mem_ext B h h"
  by (simp add: mem_ext_def)

lemma mem_ext_trans: "mem_ext A h h1 \<Longrightarrow> mem_ext A h1 h2 \<Longrightarrow> mem_ext A h h2"
  by (auto simp: mem_ext_def)

lemma mem_ext_mono: "mem_ext A h h' \<Longrightarrow> A \<subseteq> B \<Longrightarrow> mem_ext B h h'"
  by (auto simp: mem_ext_def)

lemma mem_ext_drop_fresh:
  "mem_ext B h h' \<Longrightarrow> (\<And>b. b \<in> B \<Longrightarrow> b \<notin> A \<Longrightarrow> blk h b = None) \<Longrightarrow> mem_ext A h h'"
  unfolding mem_ext_def by (metis option.distinct(1))

lemma mem_ext_readable:
  "mem_ext B h h' \<Longrightarrow> fst p \<notin> B \<Longrightarrow> readable h p n \<Longrightarrow> readable h' p n"
  by (auto simp: mem_ext_def readable_def split: option.splits)

lemma mem_ext_cells:
  "mem_ext B h h' \<Longrightarrow> fst p \<notin> B \<Longrightarrow> readable h p n \<Longrightarrow> cells h' p n = cells h p n"
  by (auto simp: mem_ext_def readable_def cells_def split: option.splits)

subsection \<open>The operations\<close>

lemma wf_mem_empty [simp]: "wf_mem empty_mem"
  by (simp add: wf_mem_def empty_mem_def)

lemma wf_mem_live: "wf_mem h \<Longrightarrow> blk h b = Some cs \<Longrightarrow> b < brk h"
  unfolding wf_mem_def by (metis linorder_not_less option.distinct(1))

lemma wf_mem_readable: "wf_mem h \<Longrightarrow> readable h p n \<Longrightarrow> fst p < brk h"
  by (auto simp: readable_def split: option.splits dest: wf_mem_live)

lemma alloc_spec:
  assumes "alloc n h = (p, h')"
  shows "p = (brk h, 0)" "blk h' (brk h) = Some (replicate n None)" "brk h' = Suc (brk h)"
    and "wf_mem h \<Longrightarrow> wf_mem h'" "wf_mem h \<Longrightarrow> mem_ext {} h h'"
    and "b \<noteq> brk h \<Longrightarrow> blk h' b = blk h b"
  using assms by (auto simp: alloc_def wf_mem_def mem_ext_def)

lemma store_eq_Inr:
  "store h p bs = Inr h' \<longleftrightarrow> readable h p (length bs) \<and>
     h' = h\<lparr>blk := (blk h)(fst p \<mapsto> take (snd p) (the (blk h (fst p))) @ bs
                                  @ drop (snd p + length bs) (the (blk h (fst p))))\<rparr>"
  by (auto simp: store_def readable_def split: option.splits)

lemma store_append:
  "store h p (bs @ cs) = rbind (store h p bs) (\<lambda>h'. store h' (fst p, snd p + length bs) cs)"
  by (auto simp: store_def add.assoc add.commute add.left_commute split: option.splits)

lemma store_spec:
  assumes "store h p bs = Inr h'"
  shows "brk h' = brk h" "wf_mem h \<Longrightarrow> wf_mem h'" "mem_ext {fst p} h h'"
    and "b \<noteq> fst p \<Longrightarrow> blk h' b = blk h b"
  using assms
  by (auto simp: store_eq_Inr wf_mem_def mem_ext_def readable_def split: option.splits)

lemma store_blk:
  assumes "blk h b = Some cs" "k + length bs \<le> length cs"
  shows "store h (b, k) bs = Inr (h\<lparr>blk := (blk h)(b \<mapsto> take k cs @ bs @ drop (k + length bs) cs)\<rparr>)"
  using assms by (simp add: store_def)

lemma memcpy_store:
  assumes "readable h src (unat n)" "fst src \<noteq> fst dst"
  shows "memcpy h dst src n = store h dst (cells h src (unat n))"
  using assms by (simp add: memcpy_def load_readable overlaps_def)

lemma free_spec:
  assumes "free p h = Inr h'"
  shows "brk h' = brk h" "wf_mem h \<Longrightarrow> wf_mem h'" "mem_ext {fst p} h h'"
    and "b \<noteq> fst p \<Longrightarrow> blk h' b = blk h b"
  using assms by (auto simp: free_def wf_mem_def mem_ext_def split: if_splits)

section \<open>Filling a fresh block\<close>

abbreviation int_cells :: "i32 \<Rightarrow> cell list" where
  "int_cells w \<equiv> map Some (enc_i32 w)"

abbreviation undef_cells :: "nat \<Rightarrow> cell list" where
  "undef_cells n \<equiv> replicate n None"

text \<open>\<open>put cs h\<close> is \<open>h\<close> with one more block, which holds \<open>cs\<close>. Allocation is \<open>put\<close> of
  indeterminate cells, and a field write into the newest block changes what was \<open>put\<close>.\<close>

definition put :: "cell list \<Rightarrow> mem \<Rightarrow> mem" where
  "put cs h = h\<lparr>blk := (blk h)(brk h \<mapsto> cs), brk := Suc (brk h)\<rparr>"

lemma alloc_put: "alloc n h = ((brk h, 0), put (undef_cells n) h)"
  by (simp add: alloc_def put_def)

lemma put_simps [simp]:
  "brk (put cs h) = Suc (brk h)" "blk (put cs h) (brk h) = Some cs"
  by (simp_all add: put_def)

lemma blk_put: "blk (put cs h) b = (if b = brk h then Some cs else blk h b)"
  by (simp add: put_def)

lemma wf_mem_put [simp]: "wf_mem h \<Longrightarrow> wf_mem (put cs h)"
  by (simp add: put_def wf_mem_def)

lemma mem_ext_put [simp]: "wf_mem h \<Longrightarrow> mem_ext {} h (put cs h)"
  by (auto simp: put_def wf_mem_def mem_ext_def)

lemma store_put:
  "k + length bs \<le> length cs \<Longrightarrow>
     store (put cs h) (brk h, k) bs = Inr (put (take k cs @ bs @ drop (k + length bs) cs) h)"
  by (simp add: store_def put_def)

lemma memset_put: "memset (put (undef_cells k) h) (brk h, 0) c k = Inr (put (replicate k (Some c)) h)"
  by (simp add: memset_def store_put)

lemma fill_chars_put:
  "i + n \<le> length cs \<Longrightarrow>
     fill_chars c n (put cs h) (brk h, 0) i = Inr (put (take i cs @ replicate n (Some c) @ drop (i + n) cs) h)"
proof (induction n arbitrary: i cs)
  case (Suc n)
  let ?cs = "take i cs @ [Some c] @ drop (i + 1) cs"
  have st: "store (put cs h) (brk h, i) [Some c] = Inr (put ?cs h)"
    using Suc.prems by (simp add: store_put)
  have eq: "take (i + 1) ?cs @ replicate n (Some c) @ drop (i + 1 + n) ?cs
      = take i cs @ replicate (Suc n) (Some c) @ drop (i + Suc n) cs"
    using Suc.prems by (simp add: min_def add.commute [of n i])
  have "fill_chars c n (put ?cs h) (brk h, 0) (i + 1)
      = Inr (put (take (i + 1) ?cs @ replicate n (Some c) @ drop (i + 1 + n) ?cs) h)"
    by (rule Suc.IH) (use Suc.prems in simp)
  then show ?case unfolding eq by (simp add: st)
qed simp

lemma load_put: "load (put (bs @ cs) h) (brk h, 0) (length bs) = Inr bs"
  by (simp add: load_def)

lemma free_put:
  assumes "wf_mem h"
  obtains h' where "free (brk h, 0) (put cs h) = Inr h'" "wf_mem h'" "mem_ext {} h h'"
proof -
  obtain h' where h': "free (brk h, 0) (put cs h) = Inr h'" by (simp add: free_def)
  have "mem_ext {brk h} h h'"
    using mem_ext_mono [OF mem_ext_put [OF assms], of "{brk h}"] free_spec(3) [OF h']
    by (auto intro: mem_ext_trans)
  then have "mem_ext {} h h'"
    using assms by (rule_tac mem_ext_drop_fresh) (auto simp: wf_mem_def)
  with that h' free_spec(2) [OF h'] assms show thesis by simp
qed

end
