(* ===== verification/Headers.thy ===== *)
theory Headers
  imports Memory
begin

text \<open>
  The protocol identifiers and the eight header structs of \<open>Headers.h\<close>. Each struct is
  \<open>int hlp; char otherInfo[k]; int length\<close>; a header in memory is its bytes, and the code reads
  and writes it through its fields, so the model has the field offsets of the C layout rule and
  one accessor per field.
\<close>

section \<open>Protocol identifiers\<close>

definition ETHERNET_ID :: i32 where [simp]: "ETHERNET_ID = 1"
definition IP_ID :: i32 where [simp]: "IP_ID = 2"
definition TCP_ID :: i32 where [simp]: "TCP_ID = 3"
definition UDP_ID :: i32 where [simp]: "UDP_ID = 4"
definition FTP_ID :: i32 where [simp]: "FTP_ID = 5"
definition TELNET_ID :: i32 where [simp]: "TELNET_ID = 6"
definition RDP_ID :: i32 where [simp]: "RDP_ID = 7"
definition DNS_ID :: i32 where [simp]: "DNS_ID = 8"

section \<open>The header structs\<close>

datatype header = IPHeader | ethHeader | TCPHeader | UDPHeader | RDPHeader | DNSHeader
  | FTPHeader | telnetHeader

text \<open>The length of \<open>otherInfo\<close> in each struct.\<close>

fun otherInfo_len :: "header \<Rightarrow> nat" where
  "otherInfo_len IPHeader = 12"
| "otherInfo_len ethHeader = 8"
| "otherInfo_len TCPHeader = 4"
| "otherInfo_len UDPHeader = 4"
| "otherInfo_len RDPHeader = 12"
| "otherInfo_len DNSHeader = 8"
| "otherInfo_len FTPHeader = 8"
| "otherInfo_len telnetHeader = 8"

text \<open>C struct layout: each field at the next multiple of its alignment, the size rounded up
  to the alignment of the struct (4, the alignment of \<open>int\<close>).\<close>

definition align_up :: "nat \<Rightarrow> nat \<Rightarrow> nat" where
  "align_up a n = (n + (a - 1)) div a * a"

definition off_hlp :: nat where "off_hlp = 0"

definition off_otherInfo :: nat where "off_otherInfo = off_hlp + 4"

definition off_length :: "header \<Rightarrow> nat" where
  "off_length k = align_up 4 (off_otherInfo + otherInfo_len k)"

definition sizeof_hdr :: "header \<Rightarrow> nat" where
  "sizeof_hdr k = align_up 4 (off_length k + 4)"

section \<open>Field access through a pointer\<close>

definition set_hlp :: "mem \<Rightarrow> ptr \<Rightarrow> i32 \<Rightarrow> mem res" where
  "set_hlp h p v = write_i32 h (fst p, snd p + off_hlp) v"

definition get_hlp :: "mem \<Rightarrow> ptr \<Rightarrow> i32 res" where
  "get_hlp h p = read_i32 h (fst p, snd p + off_hlp)"

definition set_length :: "header \<Rightarrow> mem \<Rightarrow> ptr \<Rightarrow> i32 \<Rightarrow> mem res" where
  "set_length k h p v = write_i32 h (fst p, snd p + off_length k) v"

definition get_length :: "header \<Rightarrow> mem \<Rightarrow> ptr \<Rightarrow> i32 res" where
  "get_length k h p = read_i32 h (fst p, snd p + off_length k)"

text \<open>\<open>p->otherInfo[i] = c\<close>\<close>

definition set_otherInfo :: "mem \<Rightarrow> ptr \<Rightarrow> nat \<Rightarrow> u8 \<Rightarrow> mem res" where
  "set_otherInfo h p i c = store h (fst p, snd p + off_otherInfo + i) [Some c]"

text \<open>A field of a header through the pointer \<open>msgStripHdr\<close> returned, which may be null.\<close>

definition deref_hlp :: "mem \<Rightarrow> ptr option \<Rightarrow> i32 res" where
  "deref_hlp h p = (case p of None \<Rightarrow> Inl NullDeref | Some q \<Rightarrow> get_hlp h q)"

section \<open>The layout\<close>

lemma sizeof_hdr_simps [simp]:
  "sizeof_hdr ethHeader = 16" "sizeof_hdr IPHeader = 20" "sizeof_hdr TCPHeader = 12"
  "sizeof_hdr UDPHeader = 12" "sizeof_hdr FTPHeader = 16" "sizeof_hdr telnetHeader = 16"
  "sizeof_hdr RDPHeader = 20" "sizeof_hdr DNSHeader = 16"
  by (simp_all add: sizeof_hdr_def off_length_def off_otherInfo_def off_hlp_def align_up_def)

lemma off_length_eq: "off_length k = 4 + otherInfo_len k"
  by (cases k) (simp_all add: off_length_def off_otherInfo_def off_hlp_def align_up_def)

lemma sizeof_hdr_eq: "sizeof_hdr k = 4 + otherInfo_len k + 4"
  by (cases k) (simp_all add: off_length_eq)

lemma sint_sizeof [simp]: "sint (word_of_nat (sizeof_hdr k) :: i32) = int (sizeof_hdr k)"
  by (rule sint_small_word) (simp add: sizeof_hdr_eq, cases k, simp_all)

lemma sizeof_hdr_pos [simp]: "0 < sizeof_hdr k"
  by (simp add: sizeof_hdr_eq)

lemma sizeof_hdr_ge [simp]: "4 \<le> sizeof_hdr k"
  by (simp add: sizeof_hdr_eq)

text \<open>The bytes of a header: \<open>hlp\<close> and \<open>length\<close> in their representation, \<open>otherInfo\<close> between.\<close>

definition hdr_image :: "cell list \<Rightarrow> cell list \<Rightarrow> i32 \<Rightarrow> cell list" where
  "hdr_image hlp other len = hlp @ other @ map Some (enc_i32 len)"

lemma length_hdr_image [simp]:
  "length (hdr_image hlp other len) = length hlp + length other + 4"
  by (simp add: hdr_image_def)

subsection \<open>Writing a header into a fresh block\<close>

lemma alloc_header:
  "alloc (sizeof_hdr k) h =
     ((brk h, 0), put (undef_cells 4 @ undef_cells (otherInfo_len k) @ undef_cells 4) h)"
  by (simp only: alloc_put sizeof_hdr_eq replicate_add append_assoc)

lemma set_hlp_put [simp]:
  "length a = 4 \<Longrightarrow> set_hlp (put (a @ r) h) (brk h, 0) v = Inr (put (int_cells v @ r) h)"
  by (simp add: set_hlp_def off_hlp_def write_i32_def store_put)

lemma set_length_put [simp]:
  "length a = 4 \<Longrightarrow> length b = otherInfo_len k \<Longrightarrow> length c = 4 \<Longrightarrow>
     set_length k (put (a @ b @ c) h) (brk h, 0) v = Inr (put (hdr_image a b v) h)"
  by (simp add: set_length_def off_length_eq write_i32_def store_put hdr_image_def)

lemma set_otherInfo_put:
  "length a = 4 \<Longrightarrow> i < length b \<Longrightarrow>
     set_otherInfo (put (a @ b @ c) h) (brk h, 0) i x = Inr (put (a @ b[i := Some x] @ c) h)"
  by (simp add: set_otherInfo_def off_otherInfo_def off_hlp_def store_put upd_conv_take_nth_drop)

subsection \<open>Reading a header back\<close>

lemma get_hlp_readable:
  assumes "readable h p n" "4 \<le> n"
  shows "get_hlp h p = read_cells_i32 (take 4 (cells h p n))"
  using readable_le [OF assms] cells_take_le [OF assms(2), of h p]
  by (simp add: get_hlp_def off_hlp_def read_i32_def load_readable)

lemma get_length_readable:
  assumes "readable h p (sizeof_hdr k)"
  shows "get_length k h p = read_cells_i32 (drop (4 + otherInfo_len k) (cells h p (sizeof_hdr k)))"
proof -
  let ?i = "4 + otherInfo_len k"
  have "readable h (fst p, snd p + ?i) (sizeof_hdr k - ?i)"
    using readable_off [of h "fst p" "snd p" "sizeof_hdr k" ?i] assms by (simp add: sizeof_hdr_eq)
  then show ?thesis
    using cells_drop [of h "fst p" "snd p" ?i "sizeof_hdr k"]
    by (simp add: get_length_def off_length_eq read_i32_def load_readable sizeof_hdr_eq)
qed

end
