(* ===== verification/Message_Spec.thy ===== *)
theory Message_Spec
  imports Headers
begin

text \<open>
  The contract of a message library towards the protocol code: \<open>bytes\<close> is the byte string a
  message stands for, \<open>owns\<close> the blocks it points into, and each operation is described by its
  effect on \<open>bytes\<close>. What the protocol handlers need of it (pushing and popping a header,
  flattening into a new buffer) is derived here once, from the laws alone.
\<close>

locale message_store =
  fixes wf :: "mem \<Rightarrow> 'm \<Rightarrow> bool"
    and bytes :: "mem \<Rightarrow> 'm \<Rightarrow> cell list"
    and owns :: "'m \<Rightarrow> nat set"
    and create :: "ptr \<Rightarrow> size_t \<Rightarrow> 'm"
    and add :: "'m \<Rightarrow> ptr \<Rightarrow> size_t \<Rightarrow> 'm"
    and flat :: "mem \<Rightarrow> 'm \<Rightarrow> ptr \<Rightarrow> mem res"
    and len :: "'m \<Rightarrow> size_t"
  assumes len: "wf h m \<Longrightarrow> len m = word_of_nat (length (bytes h m))"
    and small: "wf h m \<Longrightarrow> length (bytes h m) < 2 ^ 31"
    and live: "wf_mem h \<Longrightarrow> wf h m \<Longrightarrow> b \<in> owns m \<Longrightarrow> b < brk h"
    and frame: "mem_ext B h h' \<Longrightarrow> wf h m \<Longrightarrow> owns m \<inter> B = {} \<Longrightarrow>
        wf h' m \<and> bytes h' m = bytes h m"
    and create: "readable h p n \<Longrightarrow> n < 2 ^ 31 \<Longrightarrow>
        wf h (create p (word_of_nat n)) \<and> bytes h (create p (word_of_nat n)) = cells h p n
        \<and> owns (create p (word_of_nat n)) = {fst p}"
    and add: "wf h m \<Longrightarrow> readable h p n \<Longrightarrow> n + length (bytes h m) < 2 ^ 31 \<Longrightarrow>
        wf h (add m p (word_of_nat n)) \<and> bytes h (add m p (word_of_nat n)) = cells h p n @ bytes h m
        \<and> owns (add m p (word_of_nat n)) = insert (fst p) (owns m)"
    and flat: "wf h m \<Longrightarrow> fst buf \<notin> owns m \<Longrightarrow> readable h buf 0 \<Longrightarrow>
        flat h m buf = store h buf (bytes h m)"
begin

lemma keep: "mem_ext {} h h' \<Longrightarrow> wf h m \<Longrightarrow> wf h' m" "mem_ext {} h h' \<Longrightarrow> wf h m \<Longrightarrow> bytes h' m = bytes h m"
  using frame [of "{}" h h' m] by auto

text \<open>A header written into a fresh block and pushed.\<close>

lemma push:
  assumes "wf_mem h" "wf h m" "length cs + length (bytes h m) < 2 ^ 31"
  defines "m' \<equiv> add m (brk h, 0) (word_of_nat (length cs))"
  shows "wf (put cs h) m'" "bytes (put cs h) m' = cs @ bytes h m" "owns m' = insert (brk h) (owns m)"
proof -
  have k: "wf (put cs h) m" "bytes (put cs h) m = bytes h m"
    using keep [OF mem_ext_put [OF assms(1)] assms(2)] by auto
  have "readable (put cs h) (brk h, 0) (length cs)" "cells (put cs h) (brk h, 0) (length cs) = cs"
    by (simp_all add: readable_def cells_def)
  then show "wf (put cs h) m'" "bytes (put cs h) m' = cs @ bytes h m" "owns m' = insert (brk h) (owns m)"
    using add [OF k(1)] k(2) assms(3) by (auto simp: m'_def)
qed

text \<open>Flattening into a new array: fills its beginning, or runs over its end.\<close>

lemma flat_block:
  assumes "wf_mem h" "wf h m"
  shows "flat (put cs h) m (brk h, 0) =
    (if length (bytes h m) \<le> length cs then Inr (put (bytes h m @ drop (length (bytes h m)) cs) h)
     else Inl OutOfBounds)"
proof -
  let ?h = "put cs h"
  have k: "wf ?h m" "bytes ?h m = bytes h m"
    using keep [OF mem_ext_put [OF assms(1)] assms(2)] by auto
  have "brk h \<notin> owns m"
    using live [OF assms] by blast
  then have "flat ?h m (brk h, 0) = store ?h (brk h, 0) (bytes h m)"
    using flat [OF k(1), of "(brk h, 0)"] k(2) by (simp add: readable_def)
  then show ?thesis
    by (auto simp: store_put) (simp add: store_def)
qed

lemma flat_new:
  assumes "wf_mem h" "wf h m"
  shows "flat (put (undef_cells k) h) m (brk h, 0) =
    (if length (bytes h m) \<le> k then Inr (put (bytes h m @ undef_cells (k - length (bytes h m))) h)
     else Inl OutOfBounds)"
  using flat_block [OF assms, of "undef_cells k"] by simp

end

text \<open>A library in which headers can also be taken off again.\<close>

locale message_lib = message_store +
  fixes strip :: "mem \<Rightarrow> 'm \<Rightarrow> i32 \<Rightarrow> (ptr option \<times> mem \<times> 'm) res"
  assumes strip_none: "wf h m \<Longrightarrow> sint k \<le> 0 \<or> int (length (bytes h m)) < sint k \<Longrightarrow>
        strip h m k = Inr (None, h, m)"
    and strip_some: "wf_mem h \<Longrightarrow> wf h m \<Longrightarrow> 0 < sint k \<Longrightarrow> sint k \<le> int (length (bytes h m)) \<Longrightarrow>
        \<exists>p h' m'. strip h m k = Inr (Some p, h', m') \<and> readable h' p (nat (sint k))
          \<and> cells h' p (nat (sint k)) = take (nat (sint k)) (bytes h m)
          \<and> wf h' m' \<and> bytes h' m' = drop (nat (sint k)) (bytes h m) \<and> owns m' \<subseteq> owns m
          \<and> wf_mem h' \<and> mem_ext {} h h'"
begin

text \<open>Popping what was pushed gives the pushed bytes and the message as it was.\<close>

lemma push_pop:
  assumes "wf_mem h" "wf h m" "length cs + length (bytes h m) < 2 ^ 31" "cs \<noteq> []"
    and n: "sint n = int (length cs)"
  obtains p h' m' where
    "strip (put cs h) (add m (brk h, 0) (word_of_nat (length cs))) n = Inr (Some p, h', m')"
    "cells h' p (length cs) = cs" "wf h' m'" "bytes h' m' = bytes h m"
proof -
  note p = push [OF assms(1-3)]
  show thesis
    using strip_some [OF wf_mem_put [OF assms(1)] p(1), of n] p(2) n assms(4) that by fastforce
qed

end

text \<open>
  A reference machine on byte strings for sequences of pushes and pops, and its
  implementation by a message library.
\<close>

datatype msg_op = Push "cell list" | Pop i32

fun spec_op :: "msg_op \<Rightarrow> cell list \<Rightarrow> cell list" where
  "spec_op (Push cs) bs = cs @ bs"
| "spec_op (Pop n) bs = (if sint n \<le> 0 \<or> int (length bs) < sint n then bs else drop (nat (sint n)) bs)"

fun spec_run :: "msg_op list \<Rightarrow> cell list \<Rightarrow> cell list" where
  "spec_run [] bs = bs"
| "spec_run (a # as) bs = spec_run as (spec_op a bs)"

fun pushed :: "msg_op list \<Rightarrow> nat" where
  "pushed [] = 0"
| "pushed (Push cs # as) = length cs + pushed as"
| "pushed (Pop n # as) = pushed as"

text \<open>The same sequence run with a library's operations: a push writes the bytes into a new
  block and adds it as a header.\<close>

fun lib_run :: "('m \<Rightarrow> ptr \<Rightarrow> size_t \<Rightarrow> 'm) \<Rightarrow> (mem \<Rightarrow> 'm \<Rightarrow> i32 \<Rightarrow> (ptr option \<times> mem \<times> 'm) res)
    \<Rightarrow> msg_op list \<Rightarrow> mem \<Rightarrow> 'm \<Rightarrow> (mem \<times> 'm) res" where
  "lib_run add strip [] h m = Inr (h, m)"
| "lib_run add strip (Push cs # as) h m =
     lib_run add strip as (put cs h) (add m (brk h, 0) (word_of_nat (length cs)))"
| "lib_run add strip (Pop n # as) h m =
     rbind (strip h m n) (\<lambda>(p, h, m). lib_run add strip as h m)"

context message_lib
begin

lemma strip_spec_op:
  assumes "wf_mem h" "wf h m"
  obtains p h' m' where "strip h m n = Inr (p, h', m')" "wf_mem h'" "wf h' m'"
    "bytes h' m' = spec_op (Pop n) (bytes h m)"
proof (cases "sint n \<le> 0 \<or> int (length (bytes h m)) < sint n")
  case True
  then show thesis using strip_none [OF assms(2) True] assms that by auto
next
  case False
  then have "0 < sint n" "sint n \<le> int (length (bytes h m))" by auto
  then show thesis using strip_some [OF assms] False that by fastforce
qed

lemma lib_run_refines:
  assumes "wf_mem h" "wf h m" "pushed as + length (bytes h m) < 2 ^ 31"
  shows "\<exists>h' m'. lib_run add strip as h m = Inr (h', m') \<and> wf_mem h' \<and> wf h' m'
    \<and> bytes h' m' = spec_run as (bytes h m)"
  using assms
proof (induction as arbitrary: h m)
  case Nil
  then show ?case by simp
next
  case (Cons a as)
  show ?case
  proof (cases a)
    case (Push cs)
    then have "length cs + length (bytes h m) < 2 ^ 31" using Cons.prems(3) by simp
    note p = push [OF Cons.prems(1,2) this]
    show ?thesis
      using Push Cons.prems(3) Cons.IH [OF wf_mem_put [OF Cons.prems(1)] p(1)] p(2) by simp
  next
    case (Pop n)
    obtain p h' m' where s: "strip h m n = Inr (p, h', m')" "wf_mem h'" "wf h' m'"
      "bytes h' m' = spec_op (Pop n) (bytes h m)"
      by (rule strip_spec_op [OF Cons.prems(1,2)])
    have "length (spec_op (Pop n) (bytes h m)) \<le> length (bytes h m)" by simp
    then show ?thesis
      using Pop Cons.prems(3) Cons.IH [OF s(2,3)] s(1,4) by (simp del: spec_op.simps add: spec_op.simps(2)) 
  qed
qed

end

end
