(* ===== verification/Message.thy ===== *)
theory Message
  imports Message_Spec
begin

text \<open>
  The class \<open>Message\<close> of \<open>ourLibs/Message.h\<close>: a message is a list of fragments (pointer and
  length) that are never copied into it, and a total length. First the operations as the code
  has them, then their effect on the bytes the message stands for.
\<close>

section \<open>The class\<close>

type_synonym MsgPair = "ptr \<times> size_t"

record Message =
  m_MsgLen :: size_t
  m_MsgContent :: "MsgPair list"

definition Message_default :: Message where
  "Message_default = \<lparr>m_MsgLen = 0, m_MsgContent = []\<rparr>"

definition Message_new :: "ptr \<Rightarrow> size_t \<Rightarrow> Message" where
  "Message_new msg len = \<lparr>m_MsgLen = len, m_MsgContent = [(msg, len)]\<rparr>"

definition msgAddHdr :: "Message \<Rightarrow> ptr \<Rightarrow> size_t \<Rightarrow> Message" where
  "msgAddHdr m hdr len =
     m\<lparr>m_MsgLen := m_MsgLen m + len, m_MsgContent := (hdr, len) # m_MsgContent m\<rparr>"

text \<open>The loop \<open>front().first++; front().second--\<close>.\<close>

fun advance :: "nat \<Rightarrow> MsgPair \<Rightarrow> MsgPair" where
  "advance 0 f = f"
| "advance (Suc i) ((b, off), n) = advance i ((b, Suc off), n - 1)"

text \<open>\<open>new char[n]\<close> for an \<open>int n\<close>.\<close>

definition new_chars :: "int \<Rightarrow> mem \<Rightarrow> (ptr \<times> mem) res" where
  "new_chars n h = (if n < 0 then Inl BadAlloc else Inr (alloc (nat n) h))"

text \<open>The while loop of \<open>msgStripHdr\<close> (the caller wants more than the first fragment). Its
  recursion consumes the list; \<open>front()\<close> of the empty list is a fault.\<close>

fun strip_loop :: "int \<Rightarrow> ptr \<Rightarrow> int \<Rightarrow> mem \<Rightarrow> MsgPair list \<Rightarrow> (mem \<times> MsgPair list) res" where
  "strip_loop len stripped cumm h [] = (if cumm < len then Inl EmptyFront else Inr (h, []))"
| "strip_loop len stripped cumm h (f # rest) =
     (if cumm < len then
        let currLen = int_of_size (snd f) in
        rbind (chk_int (cumm + currLen)) (\<lambda>cumm.
        rbind (chk_int (cumm - currLen)) (\<lambda>start.
        if len \<le> cumm then
          rbind (chk_int (len - start)) (\<lambda>spliceLen.
          rbind (ptr_off stripped start) (\<lambda>dst.
          rbind (memcpy h dst (fst f) (size_of_int spliceLen)) (\<lambda>h.
          Inr (h, advance (nat spliceLen) f # rest))))
        else
          rbind (ptr_off stripped start) (\<lambda>dst.
          rbind (memcpy h dst (fst f) (snd f)) (\<lambda>h.
          strip_loop len stripped cumm h rest))))
      else Inr (h, f # rest))"

definition msgStripHdr :: "mem \<Rightarrow> Message \<Rightarrow> i32 \<Rightarrow> (ptr option \<times> mem \<times> Message) res" where
  "msgStripHdr h m len =
     (if m_MsgLen m < scast len \<or> len = 0 then Inr (None, h, m)
      else case m_MsgContent m of
        [] \<Rightarrow> Inl EmptyFront
      | f # rest \<Rightarrow>
          if sint len = int_of_size (snd f) then
            Inr (Some (fst f), h, \<lparr>m_MsgLen = m_MsgLen m - scast len, m_MsgContent = rest\<rparr>)
          else if sint len < int_of_size (snd f) then
            rbind (new_chars (sint len) h) (\<lambda>(stripped, h).
            rbind (memcpy h stripped (fst f) (scast len)) (\<lambda>h.
            Inr (Some stripped, h,
                 \<lparr>m_MsgLen = m_MsgLen m - scast len,
                  m_MsgContent = advance (nat (sint len)) f # rest\<rparr>)))
          else
            rbind (new_chars (sint len) h) (\<lambda>(stripped, h).
            rbind (strip_loop (sint len) stripped 0 h (f # rest)) (\<lambda>(h, content).
            Inr (Some stripped, h,
                 \<lparr>m_MsgLen = m_MsgLen m - scast len, m_MsgContent = content\<rparr>))))"

text \<open>The while loop of \<open>msgSplit\<close>: \<open>mlen\<close> is \<open>m_MsgLen\<close>, which the loop lowers by every
  fragment it moves, \<open>temp\<close> is \<open>tempContent\<close>. \<open>len\<close> is a \<open>size_t\<close> here.\<close>

fun split_loop :: "size_t \<Rightarrow> int \<Rightarrow> mem \<Rightarrow> size_t \<Rightarrow> MsgPair list \<Rightarrow> MsgPair list
    \<Rightarrow> (mem \<times> size_t \<times> MsgPair list \<times> MsgPair list) res" where
  "split_loop len cumm h mlen temp [] =
     (if size_of_int cumm < len then Inl EmptyFront else Inr (h, mlen, temp, []))"
| "split_loop len cumm h mlen temp (f # rest) =
     (if size_of_int cumm < len then
        let currLen = int_of_size (snd f) in
        rbind (chk_int (cumm + currLen)) (\<lambda>cumm.
        if len \<le> size_of_int cumm then
          rbind (chk_int (cumm - currLen)) (\<lambda>start.
          let spliceLen = int_of_size (len - size_of_int start) in
          rbind (new_chars spliceLen h) (\<lambda>(newChunk, h).
          rbind (memcpy h newChunk (fst f) (size_of_int spliceLen)) (\<lambda>h.
          Inr (h, mlen, temp @ [(newChunk, size_of_int spliceLen)],
               advance (nat spliceLen) f # rest))))
        else
          split_loop len cumm h (mlen - size_of_int currLen) (temp @ [f]) rest)
      else Inr (h, mlen, temp, f # rest))"

text \<open>\<open>msgSplit\<close> returns the \<open>int\<close> of the code, the memory, this message and \<open>secondMsg\<close>. The
  test \<open>len < 0\<close> of the code is on an unsigned value and never holds.\<close>

definition msgSplit ::
    "mem \<Rightarrow> Message \<Rightarrow> Message \<Rightarrow> size_t \<Rightarrow> (int \<times> mem \<times> Message \<times> Message) res" where
  "msgSplit h m secondMsg len =
     (if len < 0 \<or> m_MsgLen m < len then Inr (0, h, m, secondMsg)
      else case m_MsgContent m of
        [] \<Rightarrow> Inl EmptyFront
      | f # rest \<Rightarrow>
          if len = size_of_int (int_of_size (snd f)) then
            Inr (1, h, \<lparr>m_MsgLen = len, m_MsgContent = [f]\<rparr>,
                 \<lparr>m_MsgLen = m_MsgLen m - len, m_MsgContent = rest\<rparr>)
          else
            rbind (split_loop len 0 h (m_MsgLen m) [] (f # rest)) (\<lambda>(h, mlen, temp, content).
            Inr (1, h, \<lparr>m_MsgLen = len, m_MsgContent = temp\<rparr>,
                 \<lparr>m_MsgLen = mlen - len, m_MsgContent = content\<rparr>)))"

fun join_loop :: "MsgPair list \<Rightarrow> MsgPair list \<Rightarrow> MsgPair list" where
  "join_loop content [] = content"
| "join_loop content (f # temp) = join_loop (content @ [f]) temp"

definition msgJoin :: "Message \<Rightarrow> Message \<Rightarrow> Message \<times> Message" where
  "msgJoin m secondMsg =
     (\<lparr>m_MsgLen = m_MsgLen m + m_MsgLen secondMsg,
       m_MsgContent = join_loop (m_MsgContent m) (m_MsgContent secondMsg)\<rparr>,
      \<lparr>m_MsgLen = 0, m_MsgContent = []\<rparr>)"

definition msgLen :: "Message \<Rightarrow> size_t" where
  "msgLen m = m_MsgLen m"

fun flat_loop :: "ptr \<Rightarrow> int \<Rightarrow> mem \<Rightarrow> MsgPair list \<Rightarrow> mem res" where
  "flat_loop buffer cumm h [] = Inr h"
| "flat_loop buffer cumm h (f # rest) =
     rbind (ptr_off buffer cumm) (\<lambda>dst.
     rbind (memcpy h dst (fst f) (snd f)) (\<lambda>h.
     flat_loop buffer (int_of_size (size_of_int cumm + snd f)) h rest))"

definition msgFlat :: "mem \<Rightarrow> Message \<Rightarrow> ptr \<Rightarrow> mem res" where
  "msgFlat h m buffer = flat_loop buffer 0 h (m_MsgContent m)"

section \<open>Fragments as bytes\<close>

abbreviation frag_len :: "MsgPair \<Rightarrow> nat" where
  "frag_len f \<equiv> unat (snd f)"

definition frag_cells :: "mem \<Rightarrow> MsgPair \<Rightarrow> cell list" where
  "frag_cells h f = cells h (fst f) (frag_len f)"

definition content :: "mem \<Rightarrow> MsgPair list \<Rightarrow> cell list" where
  "content h frags = concat (map (frag_cells h) frags)"

definition total :: "MsgPair list \<Rightarrow> nat" where
  "total frags = sum_list (map frag_len frags)"

definition blocks :: "MsgPair list \<Rightarrow> nat set" where
  "blocks frags = (\<lambda>f. fst (fst f)) ` set frags"

definition wf_frags :: "mem \<Rightarrow> MsgPair list \<Rightarrow> bool" where
  "wf_frags h frags \<longleftrightarrow> (\<forall>f \<in> set frags. readable h (fst f) (frag_len f))"

lemma frags_simps [simp]:
  "content h [] = []" "content h (f # fs) = frag_cells h f @ content h fs"
  "content h (fs @ gs) = content h fs @ content h gs"
  "total [] = 0" "total (f # fs) = frag_len f + total fs" "total (fs @ gs) = total fs + total gs"
  "blocks [] = {}" "blocks (f # fs) = insert (fst (fst f)) (blocks fs)"
  "blocks (fs @ gs) = blocks fs \<union> blocks gs"
  "wf_frags h []" "wf_frags h (f # fs) \<longleftrightarrow> readable h (fst f) (frag_len f) \<and> wf_frags h fs"
  "wf_frags h (fs @ gs) \<longleftrightarrow> wf_frags h fs \<and> wf_frags h gs"
  by (auto simp: content_def total_def blocks_def wf_frags_def)

lemma length_frag_cells [simp]:
  "readable h (fst f) (frag_len f) \<Longrightarrow> length (frag_cells h f) = frag_len f"
  by (simp add: frag_cells_def)

lemma length_content: "wf_frags h fs \<Longrightarrow> length (content h fs) = total fs"
  by (induction fs) auto

lemma wf_frags_blocks: "wf_mem h \<Longrightarrow> wf_frags h fs \<Longrightarrow> b \<in> blocks fs \<Longrightarrow> b < brk h"
  by (auto simp: wf_frags_def blocks_def dest: wf_mem_readable)

lemma frag_cells_ext:
  "mem_ext B h h' \<Longrightarrow> fst (fst f) \<notin> B \<Longrightarrow> readable h (fst f) (frag_len f) \<Longrightarrow>
     frag_cells h' f = frag_cells h f"
  by (simp add: frag_cells_def mem_ext_cells)

lemma frags_ext:
  assumes "mem_ext B h h'" "wf_frags h fs" "blocks fs \<inter> B = {}"
  shows "wf_frags h' fs" "content h' fs = content h fs"
  using assms by (induction fs) (auto simp: frag_cells_ext intro: mem_ext_readable)

subsection \<open>Cutting a list of fragments\<close>

text \<open>
  What the loops of \<open>msgStripHdr\<close> and \<open>msgSplit\<close> do to the list, without memory: \<open>whole n\<close>
  are the fragments moved as they are, \<open>cut n\<close> is the list left behind. A fragment that ends
  exactly at \<open>n\<close> is left in place with length 0.
\<close>

fun whole :: "nat \<Rightarrow> MsgPair list \<Rightarrow> MsgPair list" where
  "whole n [] = []"
| "whole n (f # fs) = (if n \<le> frag_len f then [] else f # whole (n - frag_len f) fs)"

fun cut :: "nat \<Rightarrow> MsgPair list \<Rightarrow> MsgPair list" where
  "cut n [] = []"
| "cut n (f # fs) = (if n \<le> frag_len f then advance n f # fs else cut (n - frag_len f) fs)"

lemma advance_eq: "advance i ((b, off), n) = ((b, off + i), n - word_of_nat i)"
  by (induction i "((b, off), n)" arbitrary: off n rule: advance.induct) (auto simp: algebra_simps)

lemma frag_len_64: "frag_len f < 2 ^ 64"
proof -
  have "frag_len f < 2 ^ LENGTH(64)" by (rule unsigned_less)
  then show ?thesis by simp
qed

lemma frag_len_advance: "n \<le> frag_len f \<Longrightarrow> frag_len (advance n f) = frag_len f - n"
proof -
  assume n: "n \<le> frag_len f"
  with frag_len_64 [of f] have "word_of_nat n \<le> snd f" "unat (word_of_nat n :: size_t) = n"
    by (simp_all add: word_of_nat_less_iff word_le_nat_alt)
  then show ?thesis
    by (cases f; cases "fst f") (simp add: advance_eq unat_sub)
qed

lemma fst_advance [simp]: "fst (advance n f) = (fst (fst f), snd (fst f) + n)"
  by (cases f; cases "fst f") (simp add: advance_eq)

lemma readable_advance:
  "readable h (b, off) (frag_len f) \<Longrightarrow> n \<le> frag_len f \<Longrightarrow> readable h (b, off + n) (frag_len f - n)"
  by (rule readable_off)

lemma frag_cells_advance:
  "n \<le> frag_len f \<Longrightarrow> frag_cells h (advance n f) = drop n (frag_cells h f)"
  by (cases f; cases "fst f") (simp add: frag_cells_def frag_len_advance cells_drop)

lemma blocks_cut: "blocks (cut n fs) \<subseteq> blocks fs"
  by (induction fs arbitrary: n) (simp_all add: subset_insertI2)

lemma blocks_whole: "blocks (whole n fs) \<subseteq> blocks fs"
  by (induction fs arbitrary: n) (simp_all add: subset_insertI2)

lemma total_whole: "total (whole n fs) \<le> n"
proof (induction fs arbitrary: n)
  case (Cons f fs)
  have "total (whole (n - frag_len f) fs) \<le> n - frag_len f" by (rule Cons.IH)
  then show ?case by auto
qed simp

lemma total_cut: "total (cut n fs) = total fs - n"
  by (induction fs arbitrary: n) (auto simp: frag_len_advance)

lemma wf_frags_cut: "wf_frags h fs \<Longrightarrow> wf_frags h (cut n fs)"
  by (induction fs arbitrary: n) (auto simp: frag_len_advance readable_advance)

lemma wf_frags_whole: "wf_frags h fs \<Longrightarrow> wf_frags h (whole n fs)"
  by (induction fs arbitrary: n) auto

lemma content_cut: "wf_frags h fs \<Longrightarrow> content h (cut n fs) = drop n (content h fs)"
  by (induction fs arbitrary: n) (auto simp: frag_cells_advance)

lemma content_whole:
  "wf_frags h fs \<Longrightarrow> content h (whole n fs) = take (total (whole n fs)) (content h fs)"
  by (induction fs arbitrary: n) auto

subsection \<open>The loops\<close>

text \<open>Under these conditions the checked \<open>int\<close> arithmetic of the loops stays in range.\<close>

lemma int_of_size_frag: "total (f # fs) < 2 ^ 31 \<Longrightarrow> int_of_size (snd f) = int (frag_len f)"
  by (rule int_of_size_small) simp

lemma memcpy_frag:
  assumes "readable h (fst f) (frag_len f)" "k \<le> frag_len f" "fst (fst f) \<noteq> fst dst"
  shows "memcpy h dst (fst f) (size_of_int (int k)) = store h dst (take k (frag_cells h f))"
proof -
  have "k < 2 ^ 64"
    using assms(2) frag_len_64 [of f] by simp
  then have "unat (word_of_nat k :: size_t) = k" by (rule unat_word_of_nat_small)
  then show ?thesis
    using memcpy_store [of h "fst f" "word_of_nat k" dst] readable_le [OF assms(1,2)] assms
    by (simp add: size_of_int_nat frag_cells_def cells_take_le)
qed

text \<open>The strip loop writes the wanted prefix of the content behind what is already written.\<close>

lemma strip_loop_spec:
  assumes "wf_frags h fs" "b \<notin> blocks fs" "c < len" "len \<le> c + total fs" "c + total fs < 2 ^ 31"
  shows "strip_loop (int len) (b, 0) (int c) h fs =
    rbind (store h (b, c) (take (len - c) (content h fs))) (\<lambda>h'. Inr (h', cut (len - c) fs))"
  using assms
proof (induction fs arbitrary: c h)
  case Nil
  then show ?case by simp
next
  case (Cons f fs)
  obtain n where n: "frag_len f = n" by blast
  have cur: "int_of_size (snd f) = int n"
    using int_of_size_small [of "snd f"] Cons.prems by (simp add: n del: of_nat_unat flip: n)
  have off: "ptr_off (b, 0) (int c) = Inr (b, c)"
    by (simp add: ptr_off_def)
  have rd: "readable h (fst f) (frag_len f)" and ne: "fst (fst f) \<noteq> b"
    using Cons.prems by auto
  show ?case
  proof (cases "len \<le> c + n")
    case True
    have "memcpy h (b, c) (fst f) (size_of_int (int (len - c))) =
        store h (b, c) (take (len - c) (frag_cells h f))"
      using rd ne True n by (intro memcpy_frag) auto
    moreover have "int len - int c = int (len - c)"
      using Cons.prems by simp
    ultimately show ?thesis
      using True Cons.prems rd cur off n by (simp del: of_nat_diff)
  next
    case False
    have "memcpy h (b, c) (fst f) (snd f) = store h (b, c) (frag_cells h f)"
      using memcpy_store [OF rd, of "(b, c)"] ne by (simp add: frag_cells_def)
    moreover have "strip_loop (int len) (b, 0) (int (c + n)) h' fs =
        rbind (store h' (b, c + n) (take (len - (c + n)) (content h fs)))
          (\<lambda>h'. Inr (h', cut (len - (c + n)) fs))"
      if h': "store h (b, c) (frag_cells h f) = Inr h'" for h'
    proof -
      have "wf_frags h' fs" "content h' fs = content h fs"
        using frags_ext [OF store_spec(3) [OF h']] Cons.prems by auto
      with Cons.IH [of h' "c + n"] False Cons.prems n show ?thesis by simp
    qed
    ultimately show ?thesis
      using False Cons.prems rd cur off n
      by (cases "store h (b, c) (frag_cells h f)") (auto simp: store_append)
  qed
qed

text \<open>A copy of the first \<open>k\<close> bytes of a fragment into a new array.\<close>

lemma copy_new:
  assumes "wf_mem h" "readable h (fst f) (frag_len f)" "k \<le> frag_len f"
  shows "rbind (new_chars (int k) h) (\<lambda>(p, h). rbind (memcpy h p (fst f) (size_of_int (int k))) (F p))
    = F (brk h, 0) (put (take k (frag_cells h f)) h)"
proof -
  let ?h = "put (undef_cells k) h"
  have ext: "mem_ext {} h ?h" using assms by simp
  have "readable ?h (fst f) (frag_len f)" "frag_cells ?h f = frag_cells h f"
    using assms mem_ext_readable [OF ext] frag_cells_ext [OF ext] by auto
  moreover have "fst (fst f) \<noteq> brk h"
    using wf_mem_readable [OF assms(1,2)] by simp
  ultimately have "memcpy ?h (brk h, 0) (fst f) (size_of_int (int k)) =
      store ?h (brk h, 0) (take k (frag_cells h f))"
    using memcpy_frag [of ?h f k "(brk h, 0)"] assms by simp
  also have "\<dots> = Inr (put (take k (frag_cells h f)) h)"
    using assms by (simp add: store_put)
  finally show ?thesis
    by (simp add: new_chars_def alloc_put)
qed

text \<open>The split loop moves the fragments that fit and copies the head of the one that does not;
  the length it keeps for the rest is lowered by the fragments it moved.\<close>

lemma split_loop_spec:
  assumes "wf_mem h" "wf_frags h fs" "c < len" "len \<le> c + total fs" "c + total fs < 2 ^ 31"
  defines "W \<equiv> whole (len - c) fs"
  shows "split_loop (word_of_nat len) (int c) h mlen temp fs =
    Inr (put (take (len - c - total W) (drop (total W) (content h fs))) h,
         mlen - word_of_nat (total W),
         temp @ W @ [((brk h, 0), word_of_nat (len - c - total W))],
         cut (len - c) fs)"
  using assms(1-5) unfolding W_def
proof (induction fs arbitrary: c mlen temp)
  case Nil
  then show ?case by simp
next
  case (Cons f fs)
  obtain n where n: "frag_len f = n" by blast
  have cur: "int_of_size (snd f) = int n"
    using int_of_size_small [of "snd f"] Cons.prems by (simp add: n del: of_nat_unat flip: n)
  have rd: "readable h (fst f) (frag_len f)"
    using Cons.prems by auto
  have cmp: "size_of_int (int c) < word_of_nat len"
    using Cons.prems by (simp add: size_of_int_nat word_of_nat_less_iff)
  have stop: "word_of_nat len \<le> size_of_int (int c + int n) \<longleftrightarrow> len \<le> c + n"
    using Cons.prems n size_of_int_nat [of "c + n"] word_of_nat_less_iff(2) [of "c + n" "word_of_nat len"]
    by simp
  show ?case
  proof (cases "len \<le> c + n")
    case True
    have "(word_of_nat len :: size_t) - size_of_int (int c) = word_of_nat (len - c)"
      using Cons.prems by (simp add: size_of_int_nat)
    then have "int_of_size (word_of_nat len - size_of_int (int c)) = int (len - c)"
      using int_of_size_nat [of "len - c"] Cons.prems by (simp del: of_nat_diff)
    moreover have le: "len - c \<le> n" using True by simp
    ultimately show ?thesis
      using copy_new [OF Cons.prems(1) rd, of "len - c" "\<lambda>p h. Inr (h, mlen,
          temp @ [(p, word_of_nat (len - c))], advance (len - c) f # fs)"] True Cons.prems cur cmp stop n
      by (simp add: Let_def size_of_int_nat del: of_nat_diff)
  next
    case False
    then have "n < len - c" by simp
    with False show ?thesis
      using Cons.prems Cons.IH [of "c + n" "mlen - word_of_nat n" "temp @ [f]"] rd cur cmp stop n
      by (simp add: Let_def size_of_int_nat add.assoc)
  qed
qed

lemma flat_loop_spec:
  assumes "wf_frags h fs" "b \<notin> blocks fs" "c + total fs < 2 ^ 31"
  shows "flat_loop (b, off) (int c) h fs =
    (if fs = [] then Inr h else store h (b, off + c) (content h fs))"
  using assms
proof (induction fs arbitrary: c h)
  case Nil
  then show ?case by simp
next
  case (Cons f fs)
  obtain n where n: "frag_len f = n" by blast
  have nw: "snd f = word_of_nat n" using n by auto
  have off: "ptr_off (b, off) (int c) = Inr (b, off + c)"
    by (simp add: ptr_off_def nat_add_distrib)
  have cumm: "int_of_size (size_of_int (int c) + snd f) = int (c + n)"
    using int_of_size_nat [of "c + n"] Cons.prems n by (simp add: size_of_int_nat nw)
  have "memcpy h (b, off + c) (fst f) (snd f) = store h (b, off + c) (frag_cells h f)"
    using memcpy_store [of h "fst f" "snd f" "(b, off + c)"] Cons.prems by (simp add: frag_cells_def)
  moreover have "flat_loop (b, off) (int (c + n)) h' fs =
      (if fs = [] then Inr h' else store h' (b, off + c + n) (content h fs))"
    if h': "store h (b, off + c) (frag_cells h f) = Inr h'" for h'
  proof -
    have "wf_frags h' fs" "content h' fs = content h fs"
      using frags_ext [OF store_spec(3) [OF h']] Cons.prems by auto
    with Cons.IH [of h' "c + n"] Cons.prems n show ?thesis by (simp add: add.assoc)
  qed
  ultimately show ?case
    using Cons.prems off cumm n
    by (cases fs; cases "store h (b, off + c) (frag_cells h f)") (auto simp: store_append)
qed

section \<open>The operations on the bytes of a message\<close>

text \<open>
  \<open>msg_bytes h m\<close> is the byte string the message stands for. \<open>wf_msg h m\<close>: every fragment is
  readable, \<open>m_MsgLen\<close> is the sum of the fragment lengths, and it fits an \<open>int\<close>.
\<close>

definition msg_bytes :: "mem \<Rightarrow> Message \<Rightarrow> cell list" where
  "msg_bytes h m = content h (m_MsgContent m)"

definition msg_blocks :: "Message \<Rightarrow> nat set" where
  "msg_blocks m = blocks (m_MsgContent m)"

definition wf_msg :: "mem \<Rightarrow> Message \<Rightarrow> bool" where
  "wf_msg h m \<longleftrightarrow> wf_frags h (m_MsgContent m) \<and> total (m_MsgContent m) < 2 ^ 31
     \<and> m_MsgLen m = word_of_nat (total (m_MsgContent m))"

lemma wf_msg_len: "wf_msg h m \<Longrightarrow> length (msg_bytes h m) = unat (m_MsgLen m)"
  by (simp add: wf_msg_def msg_bytes_def length_content)

lemma wf_msg_small: "wf_msg h m \<Longrightarrow> length (msg_bytes h m) < 2 ^ 31"
  by (simp add: wf_msg_def msg_bytes_def length_content)

lemma wf_msg_MsgLen: "wf_msg h m \<Longrightarrow> m_MsgLen m = word_of_nat (length (msg_bytes h m))"
  by (simp add: wf_msg_def msg_bytes_def length_content)

lemma ucast_msgLen: "wf_msg h m \<Longrightarrow> (ucast (msgLen m) :: i32) = word_of_nat (length (msg_bytes h m))"
  unfolding msgLen_def ucast_word_of_nat_unat wf_msg_len ..

lemma msg_ext:
  assumes "mem_ext B h h'" "wf_msg h m" "msg_blocks m \<inter> B = {}"
  shows "wf_msg h' m" "msg_bytes h' m = msg_bytes h m"
  using assms frags_ext by (auto simp: wf_msg_def msg_bytes_def msg_blocks_def)

lemma msg_blocks_live: "wf_mem h \<Longrightarrow> wf_msg h m \<Longrightarrow> b \<in> msg_blocks m \<Longrightarrow> b < brk h"
  by (auto simp: wf_msg_def msg_blocks_def dest: wf_frags_blocks)

lemma msg_new_spec:
  assumes "readable h p n" "n < 2 ^ 31"
  shows "wf_msg h (Message_new p (word_of_nat n))"
    and "msg_bytes h (Message_new p (word_of_nat n)) = cells h p n"
  using assms by (auto simp: wf_msg_def msg_bytes_def Message_new_def frag_cells_def)

lemma msg_default_spec: "wf_msg h Message_default" "msg_bytes h Message_default = []"
  by (simp_all add: wf_msg_def msg_bytes_def Message_default_def)

lemma msgAddHdr_spec:
  assumes "wf_msg h m" "readable h p n" "n + length (msg_bytes h m) < 2 ^ 31"
  shows "wf_msg h (msgAddHdr m p (word_of_nat n))"
    and "msg_bytes h (msgAddHdr m p (word_of_nat n)) = cells h p n @ msg_bytes h m"
    and "msg_blocks (msgAddHdr m p (word_of_nat n)) = insert (fst p) (msg_blocks m)"
  using assms
  by (auto simp: wf_msg_def msg_bytes_def msg_blocks_def msgAddHdr_def frag_cells_def length_content
      algebra_simps)

subsection \<open>Stripping a header\<close>

lemma msgStripHdr_null:
  assumes "wf_msg h m" "sint len \<le> 0 \<or> int (length (msg_bytes h m)) < sint len"
  shows "msgStripHdr h m len = Inr (None, h, m)"
proof (cases "0 < sint len")
  case True
  then obtain n where n: "sint len = int n" by (metis nonneg_int_cases less_imp_le)
  then have "length (msg_bytes h m) < n" "n < 2 ^ 31"
    using True assms(2) sint_i32_bounds [of len] by simp_all
  then have "m_MsgLen m < scast len"
    unfolding wf_msg_MsgLen [OF assms(1)] scast_int [OF n] by (simp add: word_of_nat_less_iff)
  then show ?thesis by (simp add: msgStripHdr_def)
next
  case False
  show ?thesis
  proof (cases "len = 0")
    case False
    then have "sint len < 0" using \<open>\<not> 0 < sint len\<close> by (auto simp: not_less le_less signed_eq_0_iff)
    then have "m_MsgLen m < scast len"
      using unat_scast_neg [of len] assms(1)
      by (simp add: wf_msg_def word_less_nat_alt)
    then show ?thesis by (simp add: msgStripHdr_def)
  qed (simp add: msgStripHdr_def)
qed

text \<open>The cases of the code in which a header comes off, in one equation: either the first
  fragment itself, or a new array with a copy of the prefix.\<close>

lemma msgStripHdr_eq:
  assumes "wf_mem h" "wf_msg h m" "m_MsgContent m = f # fs"
    and "0 < sint len" "sint len \<le> int (length (msg_bytes h m))"
    and n: "sint len = int n"
  shows "msgStripHdr h m len = (if n = frag_len f
      then Inr (Some (fst f), h, \<lparr>m_MsgLen = m_MsgLen m - word_of_nat n, m_MsgContent = fs\<rparr>)
      else Inr (Some (brk h, 0), put (take n (msg_bytes h m)) h,
             \<lparr>m_MsgLen = m_MsgLen m - word_of_nat n, m_MsgContent = cut n (f # fs)\<rparr>))"
proof -
  have wf: "wf_frags h (f # fs)" "total (f # fs) < 2 ^ 31"
    and len: "m_MsgLen m = word_of_nat (total (f # fs))" "length (msg_bytes h m) = total (f # fs)"
    using assms(2,3) length_content [of h "f # fs"] by (auto simp: wf_msg_def msg_bytes_def)
  have n0: "0 < n" "n \<le> total (f # fs)" "(scast len :: size_t) = word_of_nat n"
    using assms(4) assms(5) scast_int [OF n] unfolding n len(2) of_nat_le_iff by simp_all
  have guard: "\<not> m_MsgLen m < scast len" "len \<noteq> 0"
    using n n0 wf(2) unfolding len(1) n0(3) by (auto simp: word_of_nat_less_iff simp del: frags_simps)
  obtain k where k: "frag_len f = k" by blast
  have cur: "int_of_size (snd f) = int k"
    using int_of_size_small [of "snd f"] wf by (simp add: k del: of_nat_unat flip: k)
  consider "n = k" | "n < k" | "k < n" by linarith
  then show ?thesis
  proof cases
    case 1
    then show ?thesis
      using guard assms(3) n n0 cur k by (simp add: msgStripHdr_def)
  next
    case 2
    then show ?thesis
      using guard assms(3) n n0 cur k wf
        copy_new [OF assms(1), of f n "\<lambda>p h. Inr (Some p, h, \<lparr>m_MsgLen = m_MsgLen m - word_of_nat n,
            m_MsgContent = advance n f # fs\<rparr>)"]
      by (simp add: msgStripHdr_def size_of_int_nat msg_bytes_def)
  next
    case 3
    let ?h = "put (undef_cells n) h"
    have fr: "wf_frags ?h (f # fs)" "content ?h (f # fs) = content h (f # fs)"
      using frags_ext [of "{}" h ?h "f # fs"] wf assms(1) by auto
    have "brk h \<notin> blocks (f # fs)"
      using wf_frags_blocks [OF assms(1) wf(1)] by blast
    from strip_loop_spec [OF fr(1) this, of 0 n] n0 wf fr
    have "strip_loop (int n) (brk h, 0) 0 ?h (f # fs) =
        Inr (put (take n (content h (f # fs))) h, cut n (f # fs))"
      using store_put [of 0 "take n (content h (f # fs))" "undef_cells n" h] length_content [OF wf(1)]
      by (simp del: strip_loop.simps)
    then show ?thesis
      using 3 guard assms(3) n n0 cur k
      by (simp add: msgStripHdr_def new_chars_def alloc_put msg_bytes_def del: strip_loop.simps)
  qed
qed

lemma word_of_nat_minus:
  "n \<le> k \<Longrightarrow> (word_of_nat k :: size_t) - word_of_nat n = word_of_nat (k - n)"
  by simp

lemma wf_msg_cut:
  assumes "wf_msg h m" "n \<le> total (m_MsgContent m)"
  shows "wf_msg h \<lparr>m_MsgLen = m_MsgLen m - word_of_nat n, m_MsgContent = cut n (m_MsgContent m)\<rparr>"
    and "msg_bytes h \<lparr>m_MsgLen = l, m_MsgContent = cut n (m_MsgContent m)\<rparr> = drop n (msg_bytes h m)"
  using assms by (auto simp: wf_msg_def msg_bytes_def wf_frags_cut content_cut total_cut)

lemma msgStripHdr_spec:
  assumes "wf_mem h" "wf_msg h m" "0 < sint len" "sint len \<le> int (length (msg_bytes h m))"
  defines "n \<equiv> nat (sint len)"
  obtains p h' m' where "msgStripHdr h m len = Inr (Some p, h', m')"
    and "readable h' p n" "cells h' p n = take n (msg_bytes h m)"
    and "wf_msg h' m'" "msg_bytes h' m' = drop n (msg_bytes h m)" "msg_blocks m' \<subseteq> msg_blocks m"
    and "wf_mem h'" "mem_ext {} h h'"
proof -
  obtain f fs where fs: "m_MsgContent m = f # fs"
    using assms(3,4) by (cases "m_MsgContent m") (auto simp: msg_bytes_def)
  have n: "sint len = int n" using assms(3) by (simp add: n_def)
  note eq = msgStripHdr_eq [OF assms(1,2) fs assms(3,4) n]
  have wf: "wf_frags h (f # fs)" and total: "n \<le> total (f # fs)"
    using assms(2,4) length_content [of h "f # fs"] unfolding n of_nat_le_iff
    by (simp_all add: wf_msg_def fs msg_bytes_def)
  note cut = wf_msg_cut [OF assms(2), of n] blocks_cut [of n "f # fs"]
  show thesis
  proof (cases "n = frag_len f")
    case True
    let ?m' = "\<lparr>m_MsgLen = m_MsgLen m - word_of_nat n, m_MsgContent = fs\<rparr>"
    show thesis
    proof (rule that)
      show "msgStripHdr h m len = Inr (Some (fst f), h, ?m')" using eq True by simp
      show "wf_msg h ?m'" "msg_bytes h ?m' = drop n (msg_bytes h m)"
        "cells h (fst f) n = take n (msg_bytes h m)" "readable h (fst f) n"
        using assms(2) wf True by (simp_all add: wf_msg_def fs msg_bytes_def frag_cells_def)
    qed (use assms(1) in \<open>auto simp: msg_blocks_def fs\<close>)
  next
    case False
    let ?h' = "put (take n (msg_bytes h m)) h"
    let ?m' = "\<lparr>m_MsgLen = m_MsgLen m - word_of_nat n, m_MsgContent = cut n (f # fs)\<rparr>"
    have ext: "mem_ext {} h ?h'" using assms(1) by simp
    have len: "length (take n (msg_bytes h m)) = n"
      using total length_content [OF wf] by (simp add: msg_bytes_def fs)
    have m': "wf_msg h ?m'" "msg_bytes h ?m' = drop n (msg_bytes h m)"
      using cut total by (simp_all add: fs)
    show thesis
    proof (rule that)
      show "msgStripHdr h m len = Inr (Some (brk h, 0), ?h', ?m')" using eq False by simp
      show "readable ?h' (brk h, 0) n" "cells ?h' (brk h, 0) n = take n (msg_bytes h m)"
        using len by (simp_all add: readable_def cells_def)
      show "wf_msg ?h' ?m'" "msg_bytes ?h' ?m' = drop n (msg_bytes h m)"
        using msg_ext [OF ext m'(1)] m' by simp_all
      show "msg_blocks ?m' \<subseteq> msg_blocks m" using cut by (simp add: msg_blocks_def fs)
    qed (use assms(1) ext in simp_all)
  qed
qed

text \<open>A message whose length is the \<open>size_t\<close> of -1 (what \<open>recvfrom\<close> returns on an error): the
  first \<open>memcpy\<close> of a strip asks for all of memory.\<close>

lemma msgStripHdr_minus_one:
  assumes "wf_mem h" "blk h b = Some cs" "length cs < 2 ^ 63" "0 < sint len"
  shows "msgStripHdr h (Message_new (b, 0) (size_of_int (-1))) len = Inl OutOfBounds"
proof -
  obtain n where n: "sint len = int n" using assms(4) by (metis nonneg_int_cases less_imp_le)
  have n0: "0 < n" "n < 2 ^ 31" using assms(4) sint_i32_bounds(2) [of len] by (simp_all add: n)
  have m1: "size_of_int (-1) = -1" by (simp add: size_of_int_def)
  have guard: "\<not> (-1 :: size_t) < scast len" "len \<noteq> 0"
    using n n0 by (auto simp: word_order.not_eq_extremum)
  have "(ucast (-1 :: size_t) :: i32) = -1" by (rule bit_word_eqI) (simp add: bit_simps)
  then have cur: "int_of_size (-1) = -1" by (simp add: int_of_size_def)
  let ?h = "put (undef_cells n) h"
  have "blk ?h b = Some cs"
    using wf_mem_live [OF assms(1,2)] assms(2) by (simp add: blk_put)
  moreover have "unat (-1 :: size_t) = 2 ^ 64 - 1"
    by (simp add: unsigned_minus_1_eq_mask mask_eq_exp_minus_1)
  ultimately have "memcpy ?h (brk h, 0) (b, 0) (-1) = Inl OutOfBounds"
    using assms(3) by (simp add: memcpy_def load_def)
  then show ?thesis
    using n n0 guard cur
    by (simp add: msgStripHdr_def Message_new_def m1 new_chars_def alloc_put ptr_off_def)
qed

subsection \<open>Flattening, joining and splitting\<close>

lemma msgFlat_spec:
  assumes "wf_msg h m" "fst buf \<notin> msg_blocks m" "m_MsgContent m \<noteq> []"
  shows "msgFlat h m buf = store h buf (msg_bytes h m)"
  using assms flat_loop_spec [of h "m_MsgContent m" "fst buf" 0 "snd buf"]
  by (cases buf) (simp add: msgFlat_def wf_msg_def msg_bytes_def msg_blocks_def)

lemma join_loop_eq: "join_loop xs ys = xs @ ys"
  by (induction ys arbitrary: xs) auto

lemma msgJoin_spec:
  assumes "wf_msg h m" "wf_msg h m2" "length (msg_bytes h m) + length (msg_bytes h m2) < 2 ^ 31"
  shows "msg_bytes h (fst (msgJoin m m2)) = msg_bytes h m @ msg_bytes h m2"
    and "wf_msg h (fst (msgJoin m m2))" "snd (msgJoin m m2) = Message_default"
  using assms
  by (auto simp: msgJoin_def join_loop_eq wf_msg_def msg_bytes_def length_content Message_default_def)

text \<open>\<open>moved n m\<close>: the bytes in the fragments \<open>msgSplit\<close> at \<open>n\<close> moves without cutting them.\<close>

definition moved :: "nat \<Rightarrow> Message \<Rightarrow> nat" where
  "moved n m = total (whole n (m_MsgContent m))"

lemma msgSplit_eq:
  assumes "wf_mem h" "wf_msg h m" "m_MsgContent m = f # fs" "n \<le> length (msg_bytes h m)"
  shows "msgSplit h m m2 (word_of_nat n) = (if n = frag_len f
      then Inr (1, h, \<lparr>m_MsgLen = word_of_nat n, m_MsgContent = [f]\<rparr>,
                \<lparr>m_MsgLen = m_MsgLen m - word_of_nat n, m_MsgContent = fs\<rparr>)
      else if n = 0
      then Inr (1, h, \<lparr>m_MsgLen = 0, m_MsgContent = []\<rparr>, \<lparr>m_MsgLen = m_MsgLen m, m_MsgContent = f # fs\<rparr>)
      else Inr (1, put (drop (moved n m) (take n (msg_bytes h m))) h,
                \<lparr>m_MsgLen = word_of_nat n, m_MsgContent =
                   whole n (f # fs) @ [((brk h, 0), word_of_nat (n - moved n m))]\<rparr>,
                \<lparr>m_MsgLen = m_MsgLen m - word_of_nat (moved n m) - word_of_nat n,
                 m_MsgContent = cut n (f # fs)\<rparr>))"
proof -
  have wf: "wf_frags h (f # fs)" "total (f # fs) < 2 ^ 31" "n \<le> total (f # fs)"
    and len: "m_MsgLen m = word_of_nat (total (f # fs))"
    using assms(2-4) length_content [of h "f # fs"] by (auto simp: wf_msg_def msg_bytes_def)
  have guard: "\<not> m_MsgLen m < word_of_nat n"
    using wf unfolding len by (auto simp: word_of_nat_less_iff simp del: frags_simps)
  obtain k where k: "frag_len f = k" by blast
  have "int_of_size (snd f) = int k"
    using int_of_size_small [of "snd f"] wf by (simp add: k del: of_nat_unat flip: k)
  moreover have "n < 2 ^ 64" "k < 2 ^ 64" using wf k by auto
  then have "(word_of_nat n :: size_t) = word_of_nat k \<longleftrightarrow> n = k"
    by (metis unat_word_of_nat_small)
  ultimately have first: "word_of_nat n = size_of_int (int_of_size (snd f)) \<longleftrightarrow> n = k"
    by (simp add: size_of_int_nat)
  consider "n = k" | "n \<noteq> k" "n = 0" | "n \<noteq> k" "0 < n" by linarith
  then show ?thesis
  proof cases
    case 3
    have "split_loop (word_of_nat n) 0 h (m_MsgLen m) [] (f # fs) =
        Inr (put (drop (moved n m) (take n (msg_bytes h m))) h,
             m_MsgLen m - word_of_nat (moved n m),
             whole n (f # fs) @ [((brk h, 0), word_of_nat (n - moved n m))], cut n (f # fs))"
      using split_loop_spec [OF assms(1) wf(1), of 0 n "m_MsgLen m" "[]"] 3 wf(2,3) assms(3)
      by (simp add: moved_def msg_bytes_def drop_take del: frags_simps split_loop.simps whole.simps cut.simps of_nat_diff)
    with 3 guard first k assms(3) show ?thesis
      by (simp add: msgSplit_def del: split_loop.simps whole.simps cut.simps of_nat_diff)
  qed (use guard first k assms(3) in \<open>simp_all add: msgSplit_def size_of_int_def\<close>)
qed

section \<open>The library keeps the contract\<close>

interpretation msg: message_lib wf_msg msg_bytes msg_blocks Message_new msgAddHdr msgFlat msgLen msgStripHdr
proof unfold_locales
  show "\<And>h m. wf_msg h m \<Longrightarrow> msgLen m = word_of_nat (length (msg_bytes h m))"
    by (simp add: msgLen_def wf_msg_MsgLen)
  show "\<And>h m. wf_msg h m \<Longrightarrow> length (msg_bytes h m) < 2 ^ 31"
    by (rule wf_msg_small)
  show "\<And>h m b. wf_mem h \<Longrightarrow> wf_msg h m \<Longrightarrow> b \<in> msg_blocks m \<Longrightarrow> b < brk h"
    by (rule msg_blocks_live)
  show "\<And>B h h' m. mem_ext B h h' \<Longrightarrow> wf_msg h m \<Longrightarrow> msg_blocks m \<inter> B = {} \<Longrightarrow>
      wf_msg h' m \<and> msg_bytes h' m = msg_bytes h m"
    by (simp add: msg_ext)
  show "\<And>h p n. readable h p n \<Longrightarrow> n < 2 ^ 31 \<Longrightarrow>
      wf_msg h (Message_new p (word_of_nat n)) \<and> msg_bytes h (Message_new p (word_of_nat n)) = cells h p n
      \<and> msg_blocks (Message_new p (word_of_nat n)) = {fst p}"
    using msg_new_spec by (auto simp: msg_blocks_def Message_new_def)
  show "\<And>h m p n. wf_msg h m \<Longrightarrow> readable h p n \<Longrightarrow> n + length (msg_bytes h m) < 2 ^ 31 \<Longrightarrow>
      wf_msg h (msgAddHdr m p (word_of_nat n))
      \<and> msg_bytes h (msgAddHdr m p (word_of_nat n)) = cells h p n @ msg_bytes h m
      \<and> msg_blocks (msgAddHdr m p (word_of_nat n)) = insert (fst p) (msg_blocks m)"
    using msgAddHdr_spec by auto
  show "\<And>h m k. wf_msg h m \<Longrightarrow> sint k \<le> 0 \<or> int (length (msg_bytes h m)) < sint k \<Longrightarrow>
      msgStripHdr h m k = Inr (None, h, m)"
    by (rule msgStripHdr_null)
  show "\<And>h m k. wf_mem h \<Longrightarrow> wf_msg h m \<Longrightarrow> 0 < sint k \<Longrightarrow> sint k \<le> int (length (msg_bytes h m)) \<Longrightarrow>
      \<exists>p h' m'. msgStripHdr h m k = Inr (Some p, h', m') \<and> readable h' p (nat (sint k))
        \<and> cells h' p (nat (sint k)) = take (nat (sint k)) (msg_bytes h m)
        \<and> wf_msg h' m' \<and> msg_bytes h' m' = drop (nat (sint k)) (msg_bytes h m)
        \<and> msg_blocks m' \<subseteq> msg_blocks m \<and> wf_mem h' \<and> mem_ext {} h h'"
    by (rule msgStripHdr_spec) auto
  show "\<And>h m buf. wf_msg h m \<Longrightarrow> fst buf \<notin> msg_blocks m \<Longrightarrow> readable h buf 0 \<Longrightarrow>
      msgFlat h m buf = store h buf (msg_bytes h m)"
  proof -
    fix h m buf assume a: "wf_msg h m" "fst buf \<notin> msg_blocks m" "readable h buf 0"
    have "store h buf [] = Inr h"
      using a(3) by (auto simp: store_def readable_def fun_upd_idem split: option.splits)
    with a show "msgFlat h m buf = store h buf (msg_bytes h m)"
      by (cases "m_MsgContent m = []") (auto simp: msgFlat_spec, simp add: msgFlat_def msg_bytes_def)
  qed
qed

section \<open>Splitting\<close>

lemma moved_le: "moved n m \<le> n"
  by (simp add: moved_def total_whole)

lemma content_cong: "wf_frags h fs \<Longrightarrow> mem_ext {} h h' \<Longrightarrow> wf_frags h' fs \<and> content h' fs = content h fs"
  using frags_ext [of "{}" h h' fs] by simp

text \<open>The two parts, and the length recorded for the second.\<close>

lemma msgSplit_parts:
  assumes "wf_mem h" "wf_msg h m" "m_MsgContent m \<noteq> []" "n \<le> length (msg_bytes h m)"
  obtains h' m1 m2 where "msgSplit h m m0 (word_of_nat n) = Inr (1, h', m1, m2)"
    "wf_mem h'" "mem_ext {} h h'" "wf_msg h' m1" "msg_bytes h' m1 = take n (msg_bytes h m)"
    "wf_frags h' (m_MsgContent m2)" "msg_bytes h' m2 = drop n (msg_bytes h m)"
    "m_MsgLen m2 = word_of_nat (length (msg_bytes h m) - n) - word_of_nat (moved n m)"
proof -
  obtain f fs where fs: "m_MsgContent m = f # fs" using assms(3) by (cases "m_MsgContent m") auto
  let ?bs = "msg_bytes h m" and ?k = "moved n m"
  have wf: "wf_frags h (f # fs)" and len: "total (f # fs) = length ?bs" "length ?bs < 2 ^ 31"
    "m_MsgLen m = word_of_nat (length ?bs)"
    using assms(2) fs length_content [of h "f # fs"] by (auto simp: wf_msg_def msg_bytes_def)
  note eq = msgSplit_eq [OF assms(1,2) fs assms(4), of m0]
  have mlen: "m_MsgLen m - word_of_nat n = word_of_nat (length ?bs - n)"
    using assms(4) by (simp add: len(3))
  consider "n = frag_len f" | "n \<noteq> frag_len f" "n = 0" | "n \<noteq> frag_len f" "0 < n" by blast
  then show thesis
  proof cases
    case 1
    then have "?k = 0" by (simp add: moved_def fs)
    then show thesis
      using 1 eq wf len mlen
      by (intro that [of h "\<lparr>m_MsgLen = word_of_nat n, m_MsgContent = [f]\<rparr>"
            "\<lparr>m_MsgLen = m_MsgLen m - word_of_nat n, m_MsgContent = fs\<rparr>"])
        (simp_all add: assms(1) wf_msg_def msg_bytes_def fs)
  next
    case 2
    then have "?k = 0" by (simp add: moved_def fs)
    then show thesis
      using 2 eq wf len mlen
      by (intro that [of h "\<lparr>m_MsgLen = 0, m_MsgContent = []\<rparr>" "\<lparr>m_MsgLen = m_MsgLen m, m_MsgContent = f # fs\<rparr>"])
        (simp_all add: assms(1) wf_msg_def msg_bytes_def fs)
  next
    case 3
    let ?cs = "drop ?k (take n ?bs)" and ?W = "whole n (f # fs)" and ?C = "cut n (f # fs)"
    let ?h = "put ?cs h"
    let ?m1 = "\<lparr>m_MsgLen = word_of_nat n, m_MsgContent = ?W @ [((brk h, 0), word_of_nat (n - ?k))]\<rparr>"
    have ext: "mem_ext {} h ?h" using assms(1) by simp
    note W = content_cong [OF wf_frags_whole [OF wf, of n] ext] content_whole [OF wf, of n]
    note C = content_cong [OF wf_frags_cut [OF wf, of n] ext] content_cut [OF wf, of n]
    have k: "total ?W = ?k" "length ?cs = n - ?k" "?k \<le> n"
      using assms(4) moved_le [of n m] by (simp_all add: moved_def fs del: whole.simps)
    have last: "readable ?h (brk h, 0) (n - ?k)" "cells ?h (brk h, 0) (n - ?k) = ?cs" "n - ?k < 2 ^ 64"
      using k(2) len(2) assms(4) by (simp_all add: readable_def cells_def)
    have "take ?k ?bs @ ?cs = take n ?bs"
      using k(3) by (metis append_take_drop_id min.absorb1 take_take)
    moreover have "content ?h ?W = take ?k ?bs"
      using W k(1) by (simp only: msg_bytes_def fs)
    moreover have len1: "unat (word_of_nat (n - ?k) :: size_t) = n - ?k"
      by (rule unat_word_of_nat_small [OF last(3)])
    moreover have "frag_cells ?h ((brk h, 0), word_of_nat (n - ?k)) = ?cs"
      using last(2) by (simp only: frag_cells_def fst_conv snd_conv len1)
    ultimately have m1: "msg_bytes ?h ?m1 = take n ?bs"
      by (simp only: msg_bytes_def Message.select_convs frags_simps append_Nil2)
    have "total (?W @ [((brk h, 0), word_of_nat (n - ?k))]) = n"
      using k(1,3) by (simp only: frags_simps snd_conv len1)
    moreover have "n < 2 ^ 31" using len(2) assms(4) by linarith
    ultimately have "wf_msg ?h ?m1"
      using W last(1) by (simp only: wf_msg_def Message.select_convs frags_simps fst_conv snd_conv len1)
    with m1 show thesis
      using 3 eq C assms(1) mlen
      by (intro that [of ?h ?m1 "\<lparr>m_MsgLen = m_MsgLen m - word_of_nat ?k - word_of_nat n, m_MsgContent = ?C\<rparr>"])
        (simp_all add: msg_bytes_def fs algebra_simps del: whole.simps cut.simps)
  qed
qed

section \<open>Sample message\<close>

text \<open>Seven bytes in two fragments.\<close>

definition sample_mem :: mem where
  "sample_mem = put (map Some [4, 5, 6, 7]) (put (map Some [1, 2, 3]) empty_mem)"

definition sample_msg :: Message where
  "sample_msg = \<lparr>m_MsgLen = 7, m_MsgContent = [((0, 0), 3), ((1, 0), 4)]\<rparr>"

lemma sample_msg:
  "wf_mem sample_mem" "wf_msg sample_mem sample_msg"
  "msg_bytes sample_mem sample_msg = map Some [1, 2, 3, 4, 5, 6, 7]"
  by (simp_all add: sample_mem_def sample_msg_def wf_msg_def msg_bytes_def frag_cells_def
      readable_def cells_def blk_put empty_mem_def)
    (simp add: wf_mem_def put_def)

section \<open>Properties\<close>

text \<open>C7: \<open>msgStripHdr\<close>, on every branch: it returns null and changes nothing for a length that
  is not positive or more than the message has; otherwise it returns a pointer to exactly the first
  \<open>len\<close> bytes, the message keeps exactly the rest, with the right length, and nothing else that
  is live in memory changes.\<close>

theorem msgStripHdr_correct:
  assumes "wf_mem h" "wf_msg h m"
  defines "bs \<equiv> msg_bytes h m"
  shows "if sint len \<le> 0 \<or> int (length bs) < sint len then msgStripHdr h m len = Inr (None, h, m)
    else \<exists>p h' m'. msgStripHdr h m len = Inr (Some p, h', m')
      \<and> cells h' p (nat (sint len)) = take (nat (sint len)) bs
      \<and> msg_bytes h' m' = drop (nat (sint len)) bs \<and> wf_msg h' m'
      \<and> wf_mem h' \<and> mem_ext {} h h'"
  using msgStripHdr_null [OF assms(2), of len] msgStripHdr_spec [OF assms(1,2), of len]
  unfolding bs_def by (metis not_le)

theorem msgStripHdr_correct_witness:
  "\<exists>p h' m'. msgStripHdr sample_mem sample_msg 5 = Inr (Some p, h', m')
     \<and> cells h' p 5 = map Some [1, 2, 3, 4, 5] \<and> msg_bytes h' m' = map Some [6, 7]"
  using msgStripHdr_correct [OF sample_msg(1,2), of 5] by (fastforce simp: sample_msg(3))

text \<open>C11: Any sequence of headers pushed and popped behaves as on a byte string, whatever the sizes
  and wherever the pops fall with respect to the fragments, and never fails.\<close>

theorem msg_sequence:
  assumes "wf_mem h" "wf_msg h m" "pushed as + length (msg_bytes h m) < 2 ^ 31"
  shows "\<exists>h' m'. lib_run msgAddHdr msgStripHdr as h m = Inr (h', m') \<and> wf_msg h' m'
    \<and> msg_bytes h' m' = spec_run as (msg_bytes h m)"
  using msg.lib_run_refines [OF assms] by blast

theorem msg_sequence_witness:
  "\<exists>h' m'. lib_run msgAddHdr msgStripHdr [Push [Some 9, Some 8], Pop 4, Pop 9, Push [Some 0], Pop 2]
       sample_mem sample_msg = Inr (h', m') \<and> msg_bytes h' m' = map Some [4, 5, 6, 7]"
  using msg_sequence [OF sample_msg(1,2), of "[Push [Some 9, Some 8], Pop 4, Pop 9, Push [Some 0], Pop 2]"]
  by (auto simp: sample_msg(3))

text \<open>\<open>msgFlat\<close> writes exactly the message's bytes at the buffer, in order, and nothing else; it
  does not look at the size of the buffer, and writes past its end when the message is longer.\<close>

theorem msgFlat_exact:
  assumes "wf_msg h m" "b \<notin> msg_blocks m" "blk h b = Some cs" "off \<le> length cs"
  shows "msgFlat h m (b, off) = (if off + length (msg_bytes h m) \<le> length cs
    then Inr (h\<lparr>blk := (blk h)(b \<mapsto> take off cs @ msg_bytes h m @ drop (off + length (msg_bytes h m)) cs)\<rparr>)
    else Inl OutOfBounds)"
  using msg.flat [OF assms(1), of "(b, off)"] assms(2-4) by (simp add: readable_def store_def)

theorem msgFlat_exact_witness:
  "\<exists>h. msgFlat (put (undef_cells 9) sample_mem) sample_msg (2, 1) = Inr h
     \<and> blk h 2 = Some (None # map Some [1, 2, 3, 4, 5, 6, 7] @ [None])"
proof -
  let ?h = "put (undef_cells 9) sample_mem"
  have ext: "mem_ext {} sample_mem ?h" using sample_msg(1) by simp
  have b: "brk sample_mem = 2" by (simp add: sample_mem_def empty_mem_def)
  then have "blk ?h 2 = Some (undef_cells 9)" by (simp add: blk_put)
  moreover have "2 \<notin> msg_blocks sample_msg" by (simp add: msg_blocks_def sample_msg_def)
  ultimately show ?thesis
    using msgFlat_exact [OF msg.keep(1) [OF ext sample_msg(2)], of 2 "undef_cells 9" 1]
      msg.keep(2) [OF ext sample_msg(2)] by (simp add: sample_msg(3) numeral_eq_Suc)
qed

text \<open>\<open>msgSplit\<close> divides the bytes: it returns 0 and changes nothing when the message is too
  short; otherwise it returns 1, this message is well formed with the first \<open>n\<close> bytes, and the
  second message's fragments hold the rest.\<close>

theorem msgSplit_contents:
  assumes "wf_mem h" "wf_msg h m" "m_MsgContent m \<noteq> []" "n < 2 ^ 64"
  defines "bs \<equiv> msg_bytes h m"
  shows "if length bs < n then msgSplit h m m0 (word_of_nat n) = Inr (0, h, m, m0)
    else \<exists>h' m1 m2. msgSplit h m m0 (word_of_nat n) = Inr (1, h', m1, m2)
      \<and> wf_msg h' m1 \<and> msg_bytes h' m1 = take n bs \<and> msg_bytes h' m2 = drop n bs \<and> mem_ext {} h h'"
proof (cases "length bs < n")
  case True
  then have "m_MsgLen m < word_of_nat n"
    using assms(4) wf_msg_len [OF assms(2)] by (simp add: word_less_nat_alt bs_def)
  with True show ?thesis by (simp add: msgSplit_def)
next
  case False
  then have "n \<le> length (msg_bytes h m)" by (simp add: bs_def)
  from msgSplit_parts [OF assms(1-3) this, of m0] False show ?thesis
    unfolding bs_def by (metis (no_types, lifting))
qed

theorem msgSplit_contents_witness:
  "\<exists>h' m1 m2. msgSplit sample_mem sample_msg Message_default (word_of_nat 5) = Inr (1, h', m1, m2)
     \<and> msg_bytes h' m1 = map Some [1, 2, 3, 4, 5] \<and> msg_bytes h' m2 = map Some [6, 7]"
proof -
  have "m_MsgContent sample_msg \<noteq> []" by (simp add: sample_msg_def)
  then show ?thesis
    using msgSplit_contents [OF sample_msg(1,2), of 5 Message_default] by (fastforce simp: sample_msg(3))
qed

text \<open>The length \<open>msgSplit\<close> records for the second message is too small by the bytes it moved in
  whole fragments, which are subtracted twice (modulo 2^64): the second message is well formed exactly
  when no fragment was moved whole, so a cut beyond the first fragment always breaks it.\<close>

theorem msgSplit_length:
  assumes "wf_mem h" "wf_msg h m" "m_MsgContent m \<noteq> []" "n \<le> length (msg_bytes h m)"
    and "msgSplit h m m0 (word_of_nat n) = Inr (r, h', m1, m2)"
  shows "msgLen m2 = word_of_nat (length (msg_bytes h' m2)) - word_of_nat (moved n m)
    \<and> (wf_msg h' m2 \<longleftrightarrow> moved n m = 0)"
proof
  have small: "length (msg_bytes h m) < 2 ^ 31" by (rule wf_msg_small [OF assms(2)])
  obtain wf: "wf_frags h' (m_MsgContent m2)" and bs: "msg_bytes h' m2 = drop n (msg_bytes h m)"
    and len: "m_MsgLen m2 = word_of_nat (length (msg_bytes h m) - n) - word_of_nat (moved n m)"
    by (rule msgSplit_parts [OF assms(1-4), of m0]) (use assms(5) in auto)
  show len': "msgLen m2 = word_of_nat (length (msg_bytes h' m2)) - word_of_nat (moved n m)"
    using len by (simp add: msgLen_def bs)
  have "moved n m < 2 ^ 64" using moved_le [of n m] assms(4) small by simp
  then have "unat (word_of_nat (moved n m) :: size_t) = moved n m" by (rule unat_word_of_nat_small)
  moreover have "unat (word_of_nat (moved n m) :: size_t) = 0 \<longleftrightarrow> (word_of_nat (moved n m) :: size_t) = 0"
    by (rule unsigned_eq_0_iff)
  ultimately have "(word_of_nat (moved n m) :: size_t) = 0 \<longleftrightarrow> moved n m = 0" by (simp only:)
  moreover have tot: "total (m_MsgContent m2) = length (msg_bytes h' m2)"
    using length_content [OF wf] by (simp add: msg_bytes_def)
  moreover have "length (msg_bytes h' m2) < 2 ^ 31" using small unfolding bs by simp
  ultimately show "wf_msg h' m2 \<longleftrightarrow> moved n m = 0"
    unfolding wf_msg_def tot len' [unfolded msgLen_def] using wf by simp
qed

theorem msgSplit_length_witness:
  "\<exists>h' m1 m2. msgSplit sample_mem sample_msg Message_default 5 = Inr (1, h', m1, m2)
     \<and> msg_bytes h' m2 = map Some [6, 7] \<and> msgLen m2 = -1 \<and> \<not> wf_msg h' m2"
proof -
  have n: "m_MsgContent sample_msg \<noteq> []" "5 \<le> length (msg_bytes sample_mem sample_msg)"
    using sample_msg(3) by (simp_all add: sample_msg_def)
  have k: "moved 5 sample_msg = 3" by (simp add: moved_def sample_msg_def)
  obtain h' m1 m2 where s: "msgSplit sample_mem sample_msg Message_default (word_of_nat 5) = Inr (1, h', m1, m2)"
    "msg_bytes h' m2 = drop 5 (msg_bytes sample_mem sample_msg)"
    by (rule msgSplit_parts [OF sample_msg(1,2) n, of Message_default]) blast
  have "\<not> wf_msg h' m2" "msgLen m2 = -1"
    using msgSplit_length [OF sample_msg(1,2) n s(1)] by (simp_all add: k s(2) sample_msg(3))
  with s show ?thesis by (simp add: sample_msg(3))
qed

text \<open>Splitting and joining again gives back the bytes, but not the length: the joined message
  believes to be shorter by the bytes the split moved in whole fragments.\<close>

theorem msgSplit_msgJoin:
  assumes "wf_mem h" "wf_msg h m" "m_MsgContent m \<noteq> []" "n \<le> length (msg_bytes h m)"
    and "msgSplit h m m0 (word_of_nat n) = Inr (r, h', m1, m2)"
  shows "msg_bytes h' (fst (msgJoin m1 m2)) = msg_bytes h m
    \<and> msgLen (fst (msgJoin m1 m2)) = msgLen m - word_of_nat (moved n m)
    \<and> snd (msgJoin m1 m2) = Message_default"
proof (intro conjI)
  obtain h2 m3 m4 where s: "msgSplit h m m0 (word_of_nat n) = Inr (1, h2, m3, m4)"
    "wf_msg h2 m3" "msg_bytes h2 m3 = take n (msg_bytes h m)" "msg_bytes h2 m4 = drop n (msg_bytes h m)"
    "m_MsgLen m4 = word_of_nat (length (msg_bytes h m) - n) - word_of_nat (moved n m)"
    by (rule msgSplit_parts [OF assms(1-4), of m0]) blast
  then have eq: "h2 = h'" "m3 = m1" "m4 = m2" using assms(5) by auto
  show "msg_bytes h' (fst (msgJoin m1 m2)) = msg_bytes h m"
    using s(3,4) by (simp add: eq msgJoin_def join_loop_eq msg_bytes_def)
  have "m_MsgLen m1 = word_of_nat n"
    using wf_msg_MsgLen [OF s(2)] s(3) assms(4) by (simp add: eq)
  then show "msgLen (fst (msgJoin m1 m2)) = msgLen m - word_of_nat (moved n m)"
    using s(5) assms(4) by (simp add: eq msgJoin_def msgLen_def wf_msg_MsgLen [OF assms(2)])
  show "snd (msgJoin m1 m2) = Message_default" by (simp add: msgJoin_def Message_default_def)
qed

theorem msgSplit_msgJoin_witness:
  "\<exists>h' m1 m2. msgSplit sample_mem sample_msg Message_default 5 = Inr (1, h', m1, m2)
     \<and> msg_bytes h' (fst (msgJoin m1 m2)) = map Some [1, 2, 3, 4, 5, 6, 7]
     \<and> msgLen (fst (msgJoin m1 m2)) = 4"
proof -
  have n: "m_MsgContent sample_msg \<noteq> []" "5 \<le> length (msg_bytes sample_mem sample_msg)"
    using sample_msg(3) by (simp_all add: sample_msg_def)
  have k: "moved 5 sample_msg = 3" by (simp add: moved_def sample_msg_def)
  obtain h' m1 m2 where s: "msgSplit sample_mem sample_msg Message_default (word_of_nat 5) = Inr (1, h', m1, m2)"
    by (rule msgSplit_parts [OF sample_msg(1,2) n, of Message_default]) blast
  from msgSplit_msgJoin [OF sample_msg(1,2) n s] s show ?thesis
    by (simp add: k sample_msg(3)) (simp add: sample_msg_def msgLen_def)
qed

text \<open>\<open>msgSplit\<close> looks at the first fragment before anything else, so splitting an empty message
  at 0, which its length test allows, takes \<open>front()\<close> of an empty list.\<close>

lemma msgSplit_empty: "msgSplit h Message_default m0 0 = Inl EmptyFront"
  by (simp add: msgSplit_def Message_default_def)

text \<open>A header pushed and popped: a struct whose \<open>hlp\<close> and \<open>length\<close> were written, added in front
  of a message and stripped again, reads back as it was written, and the message has its bytes
  back.\<close>

theorem header_roundtrip:
  assumes "wf_mem h" "wf_msg h m" "length (msg_bytes h m) + 20 < 2 ^ 31"
    and "alloc (sizeof_hdr k) h = (p, h1)" "set_hlp h1 p v = Inr h2" "set_length k h2 p n = Inr h3"
  shows "\<exists>q h4 m'. msgStripHdr h3 (msgAddHdr m p (word_of_nat (sizeof_hdr k))) (word_of_nat (sizeof_hdr k))
      = Inr (Some q, h4, m')
    \<and> get_hlp h4 q = Inr v \<and> get_length k h4 q = Inr n \<and> msg_bytes h4 m' = msg_bytes h m \<and> wf_msg h4 m'"
proof -
  let ?img = "hdr_image (int_cells v) (undef_cells (otherInfo_len k)) n"
  have h3: "p = (brk h, 0)" "h3 = put ?img h"
    using assms(4-6) by (auto simp: alloc_header)
  have size: "length ?img = sizeof_hdr k" by (simp add: sizeof_hdr_eq)
  have fits: "length ?img + length (msg_bytes h m) < 2 ^ 31"
    using assms(3) unfolding size by (cases k) simp_all
  note pu = msg.push [OF assms(1,2) fits, unfolded size]
  have "wf_mem (put ?img h)" using assms(1) by simp
  then obtain q h4 m' where s: "msgStripHdr (put ?img h) (msgAddHdr m (brk h, 0) (word_of_nat (sizeof_hdr k)))
      (word_of_nat (sizeof_hdr k)) = Inr (Some q, h4, m')" "readable h4 q (sizeof_hdr k)"
    "cells h4 q (sizeof_hdr k) = ?img" "wf_msg h4 m'" "msg_bytes h4 m' = msg_bytes h m"
    using msgStripHdr_spec [OF _ pu(1), of "word_of_nat (sizeof_hdr k)"] size unfolding pu(2)
    by (metis (no_types, lifting) append_eq_conv_conj length_append nat_int of_nat_0_less_iff of_nat_le_iff
        le_add1 sint_sizeof sizeof_hdr_pos)
  have "get_hlp h4 q = Inr v"
    using get_hlp_readable [OF s(2) sizeof_hdr_ge] by (simp add: s(3) hdr_image_def)
  moreover have "get_length k h4 q = Inr n"
    using get_length_readable [OF s(2)] by (simp add: s(3) hdr_image_def)
  ultimately show ?thesis using s(1,4,5) unfolding h3 by blast
qed

theorem header_roundtrip_witness:
  "\<exists>p h1 h2 h3 q h4 m'. alloc (sizeof_hdr IPHeader) sample_mem = (p, h1) \<and> set_hlp h1 p 4 = Inr h2
    \<and> set_length IPHeader h2 p 7 = Inr h3
    \<and> msgStripHdr h3 (msgAddHdr sample_msg p 20) 20 = Inr (Some q, h4, m') \<and> get_length IPHeader h4 q = Inr 7"
proof -
  obtain p h1 h2 h3 where h: "alloc (sizeof_hdr IPHeader) sample_mem = (p, h1)"
    "set_hlp h1 p 4 = Inr h2" "set_length IPHeader h2 p 7 = Inr h3"
    by (rule that [OF alloc_header set_hlp_put set_length_put]) simp_all
  have "length (msg_bytes sample_mem sample_msg) + 20 < 2 ^ 31" by (simp add: sample_msg(3))
  from header_roundtrip [OF sample_msg(1,2) this h] h show ?thesis by auto
qed

end
