(* ===== verification/UdpUtils.thy ===== *)
theory UdpUtils
  imports Message
begin

text \<open>
  \<open>udpUtils.h\<close>: opening the receiving socket, receiving and sending datagrams. The system
  calls are parameters, collected in the record \<open>os\<close>; a datagram that arrives is an argument
  of the receiving call. What the program sends and prints is the state \<open>net\<close>.
\<close>

unbundle bit_operations_syntax

section \<open>The system and the network as the program sees them\<close>

record sockaddr_in =
  sin_port :: u16   \<comment> \<open>network byte order\<close>
  sin_addr :: i32

record os =
  os_socket :: int                                \<comment> \<open>result of \<open>socket(AF_INET, SOCK_DGRAM, 0)\<close>\<close>
  os_bind :: "int \<Rightarrow> sockaddr_in \<Rightarrow> int"
  os_gethostbyname :: "string \<Rightarrow> i32 option"     \<comment> \<open>the first address, \<open>None\<close> for NULL\<close>
  os_inet_addr :: "string \<Rightarrow> i32"
  os_sendto :: "int \<Rightarrow> sockaddr_in \<Rightarrow> cell list \<Rightarrow> int"

datatype diag =
    HostUnknown string          \<comment> \<open>could not obtain address of\<close>
  | SendFailed                  \<comment> \<open>Failed to send UDP message\<close>
  | EthInvalid i32              \<comment> \<open>Ethernet encountered Invalid protocol\<close>
  | IPInvalid i32
  | TCPInvalid i32
  | UDPInvalid i32
  | InvalidProtocolId           \<comment> \<open>Invalid protocol_id\<close>
  | UpInvalid header            \<comment> \<open>Error invalid protocol going up from\<close>
  | SendtoError                 \<comment> \<open>Error with sendto\<close>

record net =
  sent :: "(sockaddr_in \<times> cell list) list"   \<comment> \<open>datagrams handed to the network, oldest first\<close>
  diags :: "diag list"                        \<comment> \<open>lines printed, oldest first\<close>

definition htons :: "u16 \<Rightarrow> u16" where
  "htons w = push_bit 8 w OR drop_bit 8 w"

section \<open>The functions\<close>

text \<open>\<open>INADDR_ANY\<close> is 0.\<close>

definition udpSocket :: "os \<Rightarrow> i32 \<Rightarrow> int res" where
  "udpSocket e port =
     (let sock = os_socket e in
      if sock < 0 then Inl (ExitProcess 1)
      else if os_bind e sock \<lparr>sin_port = htons (ucast port), sin_addr = 0\<rparr> \<noteq> 0
      then Inl (ExitProcess 1)
      else Inr sock)"

text \<open>\<open>recvfrom\<close> on a datagram socket: a datagram longer than the buffer is truncated; an
  error (\<open>None\<close>) returns -1 and leaves the buffer alone.\<close>

definition recvfrom :: "mem \<Rightarrow> ptr \<Rightarrow> nat \<Rightarrow> cell list option \<Rightarrow> (int \<times> mem) res" where
  "recvfrom h buffer bufferlen dg = (case dg of
       None \<Rightarrow> Inr (-1, h)
     | Some bs \<Rightarrow> rbind (store h buffer (take bufferlen bs)) (\<lambda>h.
         Inr (int (min bufferlen (length bs)), h)))"

definition getUdpMesg :: "mem \<Rightarrow> ptr \<Rightarrow> nat \<Rightarrow> cell list option \<Rightarrow> (int \<times> mem) res" where
  "getUdpMesg h buffer bufferlen dg = recvfrom h buffer bufferlen dg"

definition sendUdp :: "os \<Rightarrow> mem \<Rightarrow> int \<Rightarrow> ptr \<Rightarrow> int \<Rightarrow> string \<Rightarrow> i32
    \<Rightarrow> 'a net_scheme \<Rightarrow> 'a net_scheme res" where
  "sendUdp e h sock message mesgLen host port n = (case os_gethostbyname e host of
       None \<Rightarrow> Inr (n\<lparr>diags := diags n @ [HostUnknown host]\<rparr>)
     | Some addr \<Rightarrow>
         let destAddr = \<lparr>sin_port = htons (ucast port), sin_addr = addr\<rparr> in
         rbind (load h message (unat (size_of_int mesgLen))) (\<lambda>bs.
         if os_sendto e sock destAddr bs < 0
         then Inr (n\<lparr>diags := diags n @ [SendFailed]\<rparr>)
         else Inr (n\<lparr>sent := sent n @ [(destAddr, bs)]\<rparr>)))"

section \<open>Byte order and receiving\<close>

lemma htons_involutive: "htons (htons w) = w"
proof (rule bit_word_eqI)
  fix n assume "n < LENGTH(16)"
  then have "n < 8 \<or> 8 \<le> n \<and> n < 16" by auto
  then show "bit (htons (htons w)) n = bit w n"
    by (elim disjE) (auto simp: htons_def bit_simps)
qed

lemma recvfrom_put:
  "length cs = k \<Longrightarrow> recvfrom (put cs h) (brk h, 0) k (Some bs) =
     Inr (int (min k (length bs)), put (take k bs @ drop (length bs) cs) h)"
  by (auto simp: recvfrom_def store_put min_def)

section \<open>A system for examples\<close>

text \<open>Calls succeed; \<open>localhost\<close> is 127.0.0.1; \<open>sendto\<close> returns the number of bytes.\<close>

definition sample_os :: os where
  "sample_os = \<lparr>os_socket = 3, os_bind = (\<lambda>_ _. 0), os_gethostbyname = (\<lambda>_. Some 16777343),
     os_inet_addr = (\<lambda>_. -1), os_sendto = (\<lambda>_ _ bs. int (length bs))\<rparr>"

end
