(* ===== verification/Wire.thy ===== *)
theory Wire
  imports UdpUtils
begin

text \<open>
  The wire format of the protocol graph, independent of how messages are kept in memory: what
  a message of each application looks like on the network, and how a received header decides
  where a message goes. The two implementations are compared with this.
\<close>

section \<open>The protocol graph\<close>

datatype app = FTP | Telnet | RDP | DNS

fun app_header :: "app \<Rightarrow> header" where
  "app_header FTP = FTPHeader" | "app_header Telnet = telnetHeader"
| "app_header RDP = RDPHeader" | "app_header DNS = DNSHeader"

fun app_id :: "app \<Rightarrow> i32" where
  "app_id FTP = FTP_ID" | "app_id Telnet = TELNET_ID" | "app_id RDP = RDP_ID" | "app_id DNS = DNS_ID"

fun transport_id :: "app \<Rightarrow> i32" where
  "transport_id FTP = TCP_ID" | "transport_id Telnet = TCP_ID"
| "transport_id RDP = UDP_ID" | "transport_id DNS = UDP_ID"

section \<open>Encapsulation\<close>

text \<open>One header in front of \<open>bs\<close>, with the length of \<open>bs\<close> in its \<open>length\<close> field.\<close>

definition encap :: "cell list \<Rightarrow> cell list \<Rightarrow> cell list \<Rightarrow> cell list" where
  "encap hlp other bs = hdr_image hlp other (word_of_nat (length bs)) @ bs"

text \<open>The datagram that carries a payload: the application header (with the given bytes for its
  \<open>hlp\<close>), then TCP or UDP, then IP, then Ethernet (with the given \<open>otherInfo\<close>). The
  \<open>otherInfo\<close> of the inner headers is never written.\<close>

definition wire :: "cell list \<Rightarrow> app \<Rightarrow> cell list \<Rightarrow> cell list \<Rightarrow> cell list" where
  "wire eth_other a app_hlp bs =
     encap (int_cells IP_ID) eth_other
      (encap (int_cells (transport_id a)) (undef_cells 12)
       (encap (int_cells (app_id a)) (undef_cells 4)
        (encap app_hlp (undef_cells (otherInfo_len (app_header a))) bs)))"

lemma length_encap [simp]: "length (encap hlp other bs) = length hlp + length other + 4 + length bs"
  by (simp add: encap_def)

lemma length_wire:
  "length app_hlp = 4 \<Longrightarrow> length eth_other = 8 \<Longrightarrow>
     length (wire eth_other a app_hlp bs) = 48 + sizeof_hdr (app_header a) + length bs"
  by (cases a) (simp_all add: wire_def)

section \<open>Popping a header\<close>

text \<open>
  \<open>pop_hdr k bs\<close>: strip a header and read its \<open>hlp\<close> through the returned pointer, which is null
  when \<open>bs\<close> is too short. \<open>pop_app\<close>: strip it and ignore the pointer; a message that is too
  short keeps its bytes.
\<close>

definition pop_hdr :: "header \<Rightarrow> cell list \<Rightarrow> (i32 \<times> cell list) res" where
  "pop_hdr k bs = (if length bs < sizeof_hdr k then Inl NullDeref
     else rbind (read_cells_i32 (take 4 bs)) (\<lambda>hlp. Inr (hlp, drop (sizeof_hdr k) bs)))"

definition pop_app :: "header \<Rightarrow> cell list \<Rightarrow> cell list" where
  "pop_app k bs = (if length bs < sizeof_hdr k then bs else drop (sizeof_hdr k) bs)"

lemma pop_hdr_encap:
  assumes "4 + length other + 4 = sizeof_hdr k"
  shows "pop_hdr k (encap (int_cells v) other bs) = Inr (v, bs)"
proof -
  have "sizeof_hdr k = length (hdr_image (int_cells v) other (word_of_nat (length bs)))"
    using assms by simp
  then have "drop (sizeof_hdr k) (encap (int_cells v) other bs) = bs"
    unfolding encap_def by simp
  moreover have "take 4 (encap (int_cells v) other bs) = int_cells v"
    by (simp add: encap_def hdr_image_def)
  ultimately show ?thesis using assms by (simp add: pop_hdr_def)
qed

lemma pop_app_encap:
  assumes "length hlp + length other + 4 = sizeof_hdr k"
  shows "pop_app k (encap hlp other bs) = bs"
proof -
  have "sizeof_hdr k = length (hdr_image hlp other (word_of_nat (length bs)))"
    using assms by simp
  then have "drop (sizeof_hdr k) (encap hlp other bs) = bs"
    unfolding encap_def by simp
  then show ?thesis using assms by (simp add: pop_app_def)
qed

section \<open>The header operations of a message library\<close>

context message_lib
begin

text \<open>Stripping a header and reading its \<open>hlp\<close> is \<open>pop_hdr\<close> on the bytes.\<close>

lemma strip_hdr:
  assumes "wf_mem h" "wf h m" "sint k = int (sizeof_hdr t)" "4 \<le> sizeof_hdr t"
  shows "\<exists>p h' m'. strip h m k = Inr (p, h', m') \<and> wf_mem h' \<and> wf h' m' \<and> mem_ext {} h h'
    \<and> bytes h' m' = pop_app t (bytes h m) \<and> owns m' \<subseteq> owns m
    \<and> (case p of None \<Rightarrow> Inl NullDeref | Some q \<Rightarrow> rbind (get_hlp h' q) (\<lambda>v. Inr (v, bytes h' m')))
       = pop_hdr t (bytes h m)"
proof (cases "length (bytes h m) < sizeof_hdr t")
  case True
  then show ?thesis
    using strip_none [OF assms(2), of k] assms by (auto simp: pop_app_def pop_hdr_def)
next
  case False
  then have "0 < sint k" "sint k \<le> int (length (bytes h m))" "nat (sint k) = sizeof_hdr t"
    using assms(3,4) by auto
  from strip_some [OF assms(1,2) this(1,2)] this(3) obtain p h' m' where
    s: "strip h m k = Inr (Some p, h', m')" "readable h' p (sizeof_hdr t)"
      "cells h' p (sizeof_hdr t) = take (sizeof_hdr t) (bytes h m)" "wf h' m'"
      "bytes h' m' = drop (sizeof_hdr t) (bytes h m)" "owns m' \<subseteq> owns m" "wf_mem h'" "mem_ext {} h h'"
    by auto
  have "get_hlp h' p = read_cells_i32 (take 4 (bytes h m))"
    using get_hlp_readable [OF s(2) assms(4)] assms(4) by (simp add: s(3) min_def)
  with s False show ?thesis by (auto simp: pop_app_def pop_hdr_def)
qed

end

end
