(* ===== verification/Pool_Spec.thy ===== *)
theory Pool_Spec
  imports Prelude "HOL-Library.Multiset"
begin

text \<open>
  The weaker contract every pool should keep, in whatever order it runs its jobs: a step moves jobs
  from dispatched to pending to started, and neither loses nor repeats one.
\<close>

locale job_account =
  fixes init :: 'p
    and step :: "'p \<Rightarrow> 'p \<Rightarrow> bool"
    and pending :: "'p \<Rightarrow> 'j multiset"
    and started posted :: "'p \<Rightarrow> 'j list"
  assumes at_start: "pending init = {#}" "started init = []" "posted init = []"
    and balance: "step\<^sup>*\<^sup>* init p \<Longrightarrow> step p p' \<Longrightarrow>
        mset (started p') + pending p' + mset (posted p) = mset (started p) + pending p + mset (posted p')"
begin

lemma exactly_once: "step\<^sup>*\<^sup>* init p \<Longrightarrow> mset (started p) + pending p = mset (posted p)"
proof (induction rule: rtranclp_induct)
  case base
  show ?case using at_start by simp
next
  case (step p p')
  with balance [OF step.hyps] show ?case by (simp add: add.commute)
qed

lemma no_repeat: "step\<^sup>*\<^sup>* init p \<Longrightarrow> distinct (posted p) \<Longrightarrow> distinct (started p)"
  using exactly_once [of p] by (metis distinct_append mset_append ex_mset mset_eq_imp_distinct_iff)

end

text \<open>
  What a client of a thread pool library with a queue relies on: every step of the pool leaves the queue
  alone, appends one dispatched job to it, or hands its first job to a worker. First-in
  first-out order and execution at most once follow for every run.
\<close>

locale job_pool =
  fixes init :: 'p
    and step :: "'p \<Rightarrow> 'p \<Rightarrow> bool"
    and queue started posted :: "'p \<Rightarrow> 'j list"
  assumes init: "queue init = []" "started init = []" "posted init = []"
    and law: "step p p' \<Longrightarrow>
        queue p' = queue p \<and> started p' = started p \<and> posted p' = posted p
      \<or> (\<exists>j. queue p' = queue p @ [j] \<and> started p' = started p \<and> posted p' = posted p @ [j])
      \<or> (\<exists>j. queue p = j # queue p' \<and> started p' = started p @ [j] \<and> posted p' = posted p)"
begin

text \<open>The jobs workers took, followed by those still queued, are the jobs dispatched.\<close>

lemma fifo: "step\<^sup>*\<^sup>* init p \<Longrightarrow> started p @ queue p = posted p"
proof (induction rule: rtranclp_induct)
  case base
  show ?case using init by simp
next
  case (step p p')
  from law [OF step.hyps(2)] step.IH show ?case by auto
qed

lemma started_mono: "step\<^sup>*\<^sup>* p p' \<Longrightarrow> \<exists>js. started p' = started p @ js"
proof (induction rule: rtranclp_induct)
  case (step p' p'')
  from law [OF step.hyps(2)] step.IH show ?case by auto
qed simp

text \<open>A job that was queued at some point is started before any job dispatched later.\<close>

lemma order:
  assumes "step\<^sup>*\<^sup>* init p" "step\<^sup>*\<^sup>* p p'" "i < length (posted p)" "i < length (started p')"
  shows "started p' ! i = posted p ! i"
proof -
  have "\<exists>js. posted p' = posted p @ js"
    using assms(2)
  proof (induction rule: rtranclp_induct)
    case (step q q')
    from law [OF step.hyps(2)] step.IH show ?case by auto
  qed simp
  then obtain js where js: "posted p' = posted p @ js" by blast
  have "started p' @ queue p' = posted p @ js"
    using fifo [OF rtranclp_trans [OF assms(1,2)]] js by simp
  then have "(started p' @ queue p') ! i = (posted p @ js) ! i" by simp
  then show ?thesis using assms(3,4) by (simp add: nth_append)
qed

end

sublocale job_pool \<subseteq> once: job_account init step "\<lambda>p. mset (queue p)" started posted
proof unfold_locales
  fix p p' assume "step p p'"
  from law [OF this]
  show "mset (started p') + mset (queue p') + mset (posted p) = mset (started p) + mset (queue p) + mset (posted p')"
    by (elim disjE exE conjE) simp_all
qed (simp_all add: init)

text \<open>
  What the users of a mutex rely on: a step leaves the mutex alone, or takes it when it is free, or
  is the release by a thread that holds it. \<open>holding s t\<close>: thread \<open>t\<close> is at a point of its program
  where it holds the mutex.
\<close>

locale lock_owner =
  fixes start :: 's
    and step :: "'s \<Rightarrow> 's \<Rightarrow> bool"
    and owner :: "'s \<Rightarrow> nat option"
    and holding :: "'s \<Rightarrow> nat \<Rightarrow> bool"
  assumes start: "owner start = None" "\<not> holding start t"
    and lock_law: "step s s' \<Longrightarrow>
        owner s' = owner s \<and> holding s' = holding s
      \<or> (\<exists>t. owner s = None \<and> owner s' = Some t \<and> holding s' = (holding s)(t := True))
      \<or> (\<exists>t. holding s t \<and> owner s' = None \<and> holding s' = (holding s)(t := False))"
begin

text \<open>The thread that holds it is the owner; so there is at most one.\<close>

lemma owner_iff: "step\<^sup>*\<^sup>* start s \<Longrightarrow> holding s t \<longleftrightarrow> owner s = Some t"
proof (induction arbitrary: t rule: rtranclp_induct)
  case base
  show ?case using start by simp
next
  case (step s s')
  have "holding s = (\<lambda>u. owner s = Some u)" using step.IH by auto
  with lock_law [OF step.hyps(2)] show ?case by (auto split: if_splits)
qed

lemma exclusive: "step\<^sup>*\<^sup>* start s \<Longrightarrow> holding s t \<Longrightarrow> holding s u \<Longrightarrow> t = u"
  by (simp add: owner_iff)

end

end
