(* ===== verification/ThreadPool.thy ===== *)
theory ThreadPool
  imports Pool_Spec "HOL-Library.Multiset"
begin

text \<open>
  The thread pool of \<open>newLibs/threadpool.cpp\<close>, the one \<open>PerMessage.h\<close> uses: a job queue, a
  mutex with a condition variable, and workers that loop in \<open>execute\<close>. A worker is modelled by
  its position in that loop; every access to the queue happens while it holds \<open>cvLock\<close>.
  \<open>started\<close> and \<open>posted\<close> are history variables: the jobs workers took and the jobs dispatched.
\<close>

section \<open>State\<close>

datatype 'j wpc =
    Check            \<comment> \<open>at the loop test, which reads \<open>terminate\<close> without the lock\<close>
  | WantLock         \<comment> \<open>constructing \<open>uLock\<close>\<close>
  | Locked           \<comment> \<open>holding \<open>cvLock\<close>, about to test the queue\<close>
  | Waiting          \<comment> \<open>inside \<open>cv.wait\<close>, lock released\<close>
  | Woken            \<comment> \<open>notified, re-acquiring the lock\<close>
  | WaitDone         \<comment> \<open>back from \<open>cv.wait\<close> with the lock, end of the loop body\<close>
  | GotJob 'j        \<comment> \<open>job popped, before \<open>uLock.unlock()\<close>\<close>
  | Running 'j       \<comment> \<open>calling the job's function\<close>
  | DoneWant         \<comment> \<open>job done, at \<open>cvLock.lock()\<close>\<close>
  | DoneHold         \<comment> \<open>holding the lock to count itself available\<close>
  | Exited

record 'j pool =
  jobs :: "'j list"
  threadCount :: nat
  availableThreads :: size_t
  terminate :: bool
  cvLock :: "nat option"         \<comment> \<open>the worker that holds the mutex\<close>
  pc :: "nat \<Rightarrow> 'j wpc"          \<comment> \<open>worker \<open>i\<close>, for \<open>i < threadCount\<close>\<close>
  posted :: "'j list"
  started :: "'j list"

definition ThreadPool_new :: "nat \<Rightarrow> 'j pool" where
  "ThreadPool_new n = \<lparr>jobs = [], threadCount = n, availableThreads = word_of_nat n,
     terminate = False, cvLock = None, pc = (\<lambda>_. Check), posted = [], started = []\<rparr>"

section \<open>The worker loop\<close>

text \<open>One atomic step of worker \<open>t\<close> in \<open>execute\<close>; \<open>None\<close> means it is blocked (or gone).\<close>

definition goto :: "nat \<Rightarrow> 'j wpc \<Rightarrow> 'j pool \<Rightarrow> 'j pool" where
  "goto t l p = p\<lparr>pc := (pc p)(t := l)\<rparr>"

definition lock_goto :: "nat \<Rightarrow> 'j wpc \<Rightarrow> 'j pool \<Rightarrow> 'j pool option" where
  "lock_goto t l p = (if cvLock p = None then Some (goto t l (p\<lparr>cvLock := Some t\<rparr>)) else None)"

definition unlock_goto :: "nat \<Rightarrow> 'j wpc \<Rightarrow> 'j pool \<Rightarrow> 'j pool option" where
  "unlock_goto t l p = Some (goto t l (p\<lparr>cvLock := None\<rparr>))"

definition worker_step :: "nat \<Rightarrow> 'j pool \<Rightarrow> 'j pool option" where
  "worker_step t p = (case pc p t of
       Check \<Rightarrow> Some (goto t (if terminate p then Exited else WantLock) p)
     | WantLock \<Rightarrow> lock_goto t Locked p
     | Locked \<Rightarrow> (case jobs p of
           [] \<Rightarrow> unlock_goto t Waiting p
         | j # js \<Rightarrow> Some (goto t (GotJob j) (p\<lparr>availableThreads := availableThreads p - 1,
                       jobs := js, started := started p @ [j]\<rparr>)))
     | Waiting \<Rightarrow> None
     | Woken \<Rightarrow> lock_goto t WaitDone p
     | WaitDone \<Rightarrow> unlock_goto t Check p
     | GotJob j \<Rightarrow> unlock_goto t (Running j) p
     | Running j \<Rightarrow> Some (goto t DoneWant p)
     | DoneWant \<Rightarrow> lock_goto t DoneHold p
     | DoneHold \<Rightarrow> unlock_goto t Check (p\<lparr>availableThreads := availableThreads p + 1\<rparr>)
     | Exited \<Rightarrow> None)"

section \<open>Operations of the other threads\<close>

text \<open>
  Each is one critical section, entered when no worker holds the lock. \<open>notify_one\<close> wakes the
  waiter \<open>w\<close> the system picks; with nobody waiting it does nothing.
\<close>

definition notify_one :: "nat option \<Rightarrow> 'j pool \<Rightarrow> 'j pool" where
  "notify_one w p = (case w of None \<Rightarrow> p | Some t \<Rightarrow> goto t Woken p)"

definition waiters :: "'j pool \<Rightarrow> nat list" where
  "waiters p = filter (\<lambda>t. case pc p t of Waiting \<Rightarrow> True | _ \<Rightarrow> False) [0..<threadCount p]"

definition valid_wake :: "nat option \<Rightarrow> 'j pool \<Rightarrow> bool" where
  "valid_wake w p = (case w of None \<Rightarrow> waiters p = [] | Some t \<Rightarrow> t \<in> set (waiters p))"

definition dispatch_thread :: "'j \<Rightarrow> nat option \<Rightarrow> 'j pool \<Rightarrow> 'j pool option" where
  "dispatch_thread j w p = (if cvLock p = None \<and> valid_wake w p
     then Some (notify_one w (p\<lparr>jobs := jobs p @ [j], posted := posted p @ [j]\<rparr>)) else None)"

definition thread_avail :: "'j pool \<Rightarrow> bool option" where
  "thread_avail p = (if cvLock p = None then Some (0 < availableThreads p) else None)"

text \<open>The destructor up to the joins: \<open>terminate = true; cv.notify_all()\<close> under the lock.\<close>

definition ThreadPool_destroy :: "'j pool \<Rightarrow> 'j pool option" where
  "ThreadPool_destroy p = (if cvLock p = None
     then Some (p\<lparr>terminate := True, pc := (\<lambda>t. case pc p t of Waiting \<Rightarrow> Woken | l \<Rightarrow> l)\<rparr>) else None)"

text \<open>The joins return when every worker is gone.\<close>

definition joinable :: "'j pool \<Rightarrow> bool" where
  "joinable p = list_all (\<lambda>t. case pc p t of Exited \<Rightarrow> True | _ \<Rightarrow> False) [0..<threadCount p]"

inductive pool_step :: "'j pool \<Rightarrow> 'j pool \<Rightarrow> bool" where
  worker: "t < threadCount p \<Longrightarrow> worker_step t p = Some p' \<Longrightarrow> pool_step p p'"
| dispatch: "dispatch_thread j w p = Some p' \<Longrightarrow> pool_step p p'"
| spurious: "t \<in> set (waiters p) \<Longrightarrow> pool_step p (goto t Woken p)"
| destroy: "ThreadPool_destroy p = Some p' \<Longrightarrow> pool_step p p'"

definition pool_reach :: "nat \<Rightarrow> 'j pool \<Rightarrow> bool" where
  "pool_reach n p \<longleftrightarrow> pool_step\<^sup>*\<^sup>* (ThreadPool_new n) p"

inductive_cases pool_stepE: "pool_step p p'"

lemmas worker_defs = worker_step_def goto_def lock_goto_def unlock_goto_def

section \<open>Jobs leave the queue in the order they were dispatched\<close>

lemma worker_step_queue:
  assumes "worker_step t p = Some p'"
  shows "jobs p' = jobs p \<and> started p' = started p \<and> posted p' = posted p
    \<or> (\<exists>j. jobs p = j # jobs p' \<and> started p' = started p @ [j] \<and> posted p' = posted p)"
  using assms by (auto simp: worker_defs split: wpc.splits list.splits if_splits)

interpretation newpool: job_pool "ThreadPool_new n" pool_step jobs started posted for n
proof unfold_locales
  fix p p' :: "'a pool" assume "pool_step p p'"
  then show "jobs p' = jobs p \<and> started p' = started p \<and> posted p' = posted p
    \<or> (\<exists>j. jobs p' = jobs p @ [j] \<and> started p' = started p \<and> posted p' = posted p @ [j])
    \<or> (\<exists>j. jobs p = j # jobs p' \<and> started p' = started p @ [j] \<and> posted p' = posted p)"
  proof (cases rule: pool_step.cases)
    case (worker t)
    then show ?thesis using worker_step_queue by blast
  qed (auto simp: dispatch_thread_def notify_one_def goto_def ThreadPool_destroy_def
      split: if_splits option.splits)
qed (simp_all add: ThreadPool_new_def)

section \<open>The invariant\<close>

text \<open>
  A worker holds the mutex exactly in the places where the code holds it; the counter
  \<open>availableThreads\<close> and the workers between taking a job and counting themselves back add up
  to \<open>threadCount\<close>; without \<open>terminate\<close> no worker has left, and while jobs are queued not
  every worker sleeps in \<open>cv.wait\<close>.
\<close>

fun holds :: "'j wpc \<Rightarrow> bool" where
  "holds Locked = True" | "holds WaitDone = True" | "holds (GotJob j) = True" | "holds DoneHold = True"
| "holds l = False"

fun busy :: "'j wpc \<Rightarrow> bool" where
  "busy (GotJob j) = True" | "busy (Running j) = True" | "busy DoneWant = True" | "busy DoneHold = True"
| "busy l = False"

definition busy_count :: "'j pool \<Rightarrow> nat" where
  "busy_count p = (\<Sum>t<threadCount p. if busy (pc p t) then 1 else 0)"

definition lock_inv :: "'j pool \<Rightarrow> bool" where
  "lock_inv p \<longleftrightarrow> (\<forall>t. cvLock p = Some t \<longrightarrow> t < threadCount p \<and> holds (pc p t))
     \<and> (\<forall>t<threadCount p. holds (pc p t) \<longrightarrow> cvLock p = Some t)"

definition count_inv :: "'j pool \<Rightarrow> bool" where
  "count_inv p \<longleftrightarrow> availableThreads p + word_of_nat (busy_count p) = word_of_nat (threadCount p)"

definition wake_inv :: "'j pool \<Rightarrow> bool" where
  "wake_inv p \<longleftrightarrow> terminate p \<or> (\<forall>t<threadCount p. pc p t \<noteq> Exited)
     \<and> (jobs p \<noteq> [] \<longrightarrow> 0 < threadCount p \<longrightarrow> (\<exists>t<threadCount p. pc p t \<noteq> Waiting))"

lemma waiters_iff [simp]: "t \<in> set (waiters p) \<longleftrightarrow> t < threadCount p \<and> pc p t = Waiting"
  by (auto simp: waiters_def split: wpc.splits)

lemma waiters_Nil: "waiters p = [] \<longleftrightarrow> (\<forall>t<threadCount p. pc p t \<noteq> Waiting)"
  using waiters_iff [of _ p] by (metis list.set_intros(1) neq_Nil_conv empty_iff empty_set)

lemma joinable_iff: "joinable (p :: 'j pool) \<longleftrightarrow> (\<forall>t<threadCount p. pc p t = Exited)"
proof -
  have "(case l of Exited \<Rightarrow> True | _ \<Rightarrow> False) \<longleftrightarrow> l = Exited" for l :: "'j wpc"
    by (cases l) simp_all
  then show ?thesis by (auto simp: joinable_def list_all_iff)
qed

lemma busy_count_goto:
  "t < threadCount p \<Longrightarrow> busy_count (goto t l p) + (if busy (pc p t) then 1 else 0)
     = busy_count p + (if busy l then 1 else 0)"
  unfolding busy_count_def goto_def
  using sum_fun_upd [of t "threadCount p" "\<lambda>l. if busy l then 1 else 0" "pc p" l] by simp

lemma busy_count_cong:
  "threadCount p = threadCount p' \<Longrightarrow> (\<And>t. busy (pc p t) = busy (pc p' t)) \<Longrightarrow>
     busy_count p = busy_count p'"
  by (simp add: busy_count_def)

text \<open>The steps of one worker, one case per program point.\<close>

lemma worker_avail:
  assumes "worker_step t p = Some p'"
  shows "pc p' = (pc p)(t := pc p' t)" "threadCount p' = threadCount p"
    "availableThreads p' + of_bool (busy (pc p' t)) = availableThreads p + of_bool (busy (pc p t))"
  using assms
  by (cases "pc p t"; auto simp: worker_defs split: list.splits if_splits)+

lemma worker_lock:
  assumes "worker_step t p = Some p'"
  shows "cvLock p' = cvLock p \<and> holds (pc p' t) = holds (pc p t)
    \<or> cvLock p = None \<and> cvLock p' = Some t \<and> holds (pc p' t)
    \<or> holds (pc p t) \<and> cvLock p' = None \<and> \<not> holds (pc p' t)"
  using assms
  by (cases "pc p t"; auto simp: worker_defs split: list.splits if_splits)

lemma worker_lock_inv:
  assumes "worker_step t p = Some p'" "t < threadCount p" "lock_inv p"
  shows "lock_inv p'"
proof -
  have "pc p' s = (if s = t then pc p' t else pc p s)" for s
    using worker_avail(1) [OF assms(1)] by (metis fun_upd_apply)
  then show ?thesis
    using worker_lock [OF assms(1)] worker_avail(2) [OF assms(1)] assms(2,3)
    unfolding lock_inv_def by (metis option.inject option.distinct(1))
qed

lemma worker_count_inv:
  assumes "worker_step t p = Some p'" "t < threadCount p" "count_inv p"
  shows "count_inv p'"
proof -
  define l where "l = pc p' t"
  then have l: "pc p' = (pc p)(t := l)" "threadCount p' = threadCount p"
    "availableThreads p' + of_bool (busy l) = availableThreads p + of_bool (busy (pc p t))"
    using worker_avail [OF assms(1)] by simp_all
  have "busy_count p' = busy_count (goto t l p)"
    using l by (intro busy_count_cong) (simp_all add: goto_def)
  with busy_count_goto [OF assms(2), of l]
  have "busy_count p' + of_bool (busy (pc p t)) = busy_count p + of_bool (busy l)"
    by (auto split: if_splits)
  then have w: "(word_of_nat (busy_count p') :: size_t) + of_bool (busy (pc p t))
      = word_of_nat (busy_count p) + of_bool (busy l)"
    by (metis of_nat_add of_nat_of_bool)
  have "availableThreads p' + of_bool (busy l) + (word_of_nat (busy_count p') + of_bool (busy (pc p t)))
      = availableThreads p + of_bool (busy (pc p t)) + (word_of_nat (busy_count p) + of_bool (busy l))"
    unfolding l(3) w ..
  then have "availableThreads p' + word_of_nat (busy_count p') = availableThreads p + word_of_nat (busy_count p)"
    by (simp add: algebra_simps)
  then show ?thesis using assms(3) l(2) by (simp add: count_inv_def)
qed

lemma worker_wake_inv:
  assumes "worker_step t p = Some p'" "t < threadCount p" "wake_inv p"
  shows "wake_inv p'"
  using assms unfolding wake_inv_def
  by (cases "pc p t") (auto simp: worker_defs split: list.splits if_splits)

subsection \<open>Every step of the pool\<close>

definition pool_inv :: "'j pool \<Rightarrow> bool" where
  "pool_inv p \<longleftrightarrow> lock_inv p \<and> count_inv p \<and> wake_inv p"

lemma pool_inv_init: "pool_inv (ThreadPool_new n)"
proof -
  have "lock_inv (ThreadPool_new n)"
    unfolding lock_inv_def ThreadPool_new_def by simp
  moreover have "count_inv (ThreadPool_new n)"
    unfolding count_inv_def busy_count_def ThreadPool_new_def by simp
  moreover have "wake_inv (ThreadPool_new n)"
    unfolding wake_inv_def ThreadPool_new_def by simp
  ultimately show ?thesis by (simp add: pool_inv_def)
qed

lemma lock_inv_cong:
  "lock_inv p \<Longrightarrow> cvLock q = cvLock p \<Longrightarrow> threadCount q = threadCount p \<Longrightarrow>
     (\<And>t. holds (pc q t) = holds (pc p t)) \<Longrightarrow> lock_inv q"
  unfolding lock_inv_def by metis

lemma count_inv_cong:
  "count_inv p \<Longrightarrow> availableThreads q = availableThreads p \<Longrightarrow> threadCount q = threadCount p \<Longrightarrow>
     (\<And>t. busy (pc q t) = busy (pc p t)) \<Longrightarrow> count_inv q"
  using busy_count_cong [of q p] by (simp add: count_inv_def)

lemma wake_pool_inv:
  assumes "pool_inv p" "t < threadCount p" "pc p t = Waiting"
  shows "pool_inv (goto t Woken p)"
proof -
  have same: "busy (pc (goto t Woken p) s) = busy (pc p s)" "holds (pc (goto t Woken p) s) = holds (pc p s)" for s
    using assms(3) by (simp_all add: goto_def)
  have "lock_inv (goto t Woken p)"
    by (rule lock_inv_cong [of p]) (use assms(1) same in \<open>simp_all add: pool_inv_def, simp_all add: goto_def\<close>)
  moreover have "count_inv (goto t Woken p)"
    by (rule count_inv_cong [of p]) (use assms(1) same in \<open>simp_all add: pool_inv_def, simp_all add: goto_def\<close>)
  moreover have "wake_inv (goto t Woken p)"
    using assms by (auto simp: pool_inv_def wake_inv_def goto_def)
  ultimately show ?thesis by (simp add: pool_inv_def)
qed

lemma dispatch_pool_inv:
  assumes "dispatch_thread j w p = Some p'" "pool_inv p"
  shows "pool_inv p'"
proof -
  let ?q = "p\<lparr>jobs := jobs p @ [j], posted := posted p @ [j]\<rparr>"
  have w: "valid_wake w p" "p' = notify_one w ?q"
    using assms(1) by (auto simp: dispatch_thread_def split: if_splits)
  have q: "lock_inv ?q" "count_inv ?q"
    using assms(2) lock_inv_cong [of p ?q] count_inv_cong [of p ?q] by (simp_all add: pool_inv_def)
  show ?thesis
  proof (cases w)
    case None
    then have "\<forall>t<threadCount p. pc p t \<noteq> Waiting"
      using w(1) by (simp add: valid_wake_def waiters_Nil)
    then have "wake_inv ?q"
      using assms(2) by (auto simp: pool_inv_def wake_inv_def)
    with None q show ?thesis by (simp add: w(2) notify_one_def pool_inv_def)
  next
    case (Some t)
    then have t: "t < threadCount p" "pc p t = Waiting"
      using w(1) by (simp_all add: valid_wake_def)
    have same: "busy (pc p' s) = busy (pc p s)" "holds (pc p' s) = holds (pc p s)" for s
      using t Some by (simp_all add: w(2) notify_one_def goto_def)
    have eq: "cvLock p' = cvLock p" "threadCount p' = threadCount p"
      "availableThreads p' = availableThreads p"
      using Some by (simp_all add: w(2) notify_one_def goto_def)
    have "wake_inv p'"
      using assms(2) t Some by (auto simp: w(2) notify_one_def pool_inv_def wake_inv_def goto_def)
    then show ?thesis
      using lock_inv_cong [of p p'] count_inv_cong [of p p'] same eq assms(2) by (simp add: pool_inv_def)
  qed
qed

lemma destroy_pool_inv:
  assumes "ThreadPool_destroy p = Some p'" "pool_inv p"
  shows "pool_inv p'"
proof -
  have p': "p' = p\<lparr>terminate := True, pc := (\<lambda>t. case pc p t of Waiting \<Rightarrow> Woken | l \<Rightarrow> l)\<rparr>"
    using assms(1) by (auto simp: ThreadPool_destroy_def split: if_splits)
  have same: "busy (pc p' t) = busy (pc p t)" "holds (pc p' t) = holds (pc p t)" for t
    by (simp_all add: p' split: wpc.splits)
  have eq: "cvLock p' = cvLock p" "threadCount p' = threadCount p"
    "availableThreads p' = availableThreads p" "wake_inv p'"
    by (simp_all add: p' wake_inv_def)
  show ?thesis
    using lock_inv_cong [of p p'] count_inv_cong [of p p'] same eq assms(2) by (simp add: pool_inv_def)
qed

lemma pool_step_inv: "pool_step p p' \<Longrightarrow> pool_inv p \<Longrightarrow> pool_inv p'"
proof (induction rule: pool_step.induct)
  case (worker t p p')
  then show ?case
    by (simp add: pool_inv_def worker_lock_inv worker_count_inv worker_wake_inv)
next
  case (spurious t p)
  then show ?case by (simp add: wake_pool_inv)
qed (blast intro: dispatch_pool_inv destroy_pool_inv)+

lemma pool_step_threadCount: "pool_step p p' \<Longrightarrow> threadCount p' = threadCount p"
  by (induction rule: pool_step.induct)
    (auto dest: worker_avail(2) simp: dispatch_thread_def notify_one_def ThreadPool_destroy_def goto_def
      split: if_splits option.splits)

lemma pool_reach_inv:
  assumes "pool_reach n p"
  shows "pool_inv p" "threadCount p = n"
proof -
  have "pool_step\<^sup>*\<^sup>* (ThreadPool_new n) p" using assms by (simp add: pool_reach_def)
  then have "pool_inv p \<and> threadCount p = n"
    by (induction rule: rtranclp_induct)
      (auto simp: pool_inv_init pool_step_threadCount intro: pool_step_inv, simp add: ThreadPool_new_def)
  then show "pool_inv p" "threadCount p = n" by auto
qed

lemma busy_count_le: "busy_count p \<le> threadCount p"
proof -
  have "busy_count p \<le> (\<Sum>t<threadCount p. 1)"
    unfolding busy_count_def by (rule sum_mono) simp
  then show ?thesis by simp
qed

lemma holder_runs: "holds (pc p t) \<Longrightarrow> \<exists>p'. worker_step t p = Some p'"
  by (cases "pc p t") (auto simp: worker_defs split: list.splits)

lemma free_lock_runs:
  "cvLock p = None \<Longrightarrow> pc p t \<noteq> Waiting \<Longrightarrow> pc p t \<noteq> Exited \<Longrightarrow> \<exists>p'. worker_step t p = Some p'"
  by (cases "pc p t") (auto simp: worker_defs split: list.splits)

section \<open>Pending jobs and the work left\<close>

text \<open>The jobs dispatched and not finished: queued, or in the hands of a worker.\<close>

fun job_of :: "'j wpc \<Rightarrow> 'j multiset" where
  "job_of (GotJob j) = {#j#}" | "job_of (Running j) = {#j#}" | "job_of l = {#}"

definition pending :: "'j pool \<Rightarrow> 'j multiset" where
  "pending p = mset (jobs p) + (\<Sum>t<threadCount p. job_of (pc p t))"

fun finishes :: "'j wpc \<Rightarrow> 'j multiset" where
  "finishes (Running j) = {#j#}" | "finishes l = {#}"

lemma pending_upd:
  assumes "t < threadCount p" "threadCount q = threadCount p" "pc q = (pc p)(t := l)"
  shows "pending q + mset (jobs p) + job_of (pc p t) = pending p + mset (jobs q) + job_of l"
  using sum_fun_upd [OF assms(1), of job_of "pc p" l]
  unfolding pending_def assms(2,3) by (simp add: ac_simps)

lemma worker_pending:
  assumes "worker_step t p = Some p'" "t < threadCount p"
  shows "pending p = pending p' + finishes (pc p t)"
proof -
  have "mset (jobs p) + job_of (pc p t) = mset (jobs p') + job_of (pc p' t) + finishes (pc p t)"
    using assms by (cases "pc p t") (auto simp: worker_defs split: list.splits if_splits)
  moreover have "pending p' + mset (jobs p) + job_of (pc p t) = pending p + mset (jobs p') + job_of (pc p' t)"
    using pending_upd [OF assms(2) worker_avail(2) [OF assms(1)], of "pc p' t"] worker_avail(1) [OF assms(1)]
    by simp
  ultimately have "pending p' + finishes (pc p t) + (mset (jobs p') + job_of (pc p' t))
      = pending p + (mset (jobs p') + job_of (pc p' t))"
    by (simp add: ac_simps)
  then show ?thesis by simp
qed

lemma wake_pending:
  assumes "t < threadCount p" "pc p t = Waiting"
  shows "pending (goto t Woken p) = pending p"
  using pending_upd [of t p "goto t Woken p" Woken] assms by (simp add: goto_def)

lemma dispatch_pending:
  assumes "dispatch_thread j w p = Some p'"
  shows "pending p' = add_mset j (pending p)"
proof -
  let ?q = "p\<lparr>jobs := jobs p @ [j], posted := posted p @ [j]\<rparr>"
  have w: "valid_wake w p" "p' = notify_one w ?q"
    using assms by (auto simp: dispatch_thread_def split: if_splits)
  have "pending ?q = add_mset j (pending p)" by (simp add: pending_def)
  then show ?thesis
    using w wake_pending [of _ ?q] by (cases w) (auto simp: notify_one_def valid_wake_def)
qed

text \<open>A bound on the steps the workers can still take without a new job.\<close>

fun rank :: "'j wpc \<Rightarrow> nat" where
  "rank (GotJob j) = 8" | "rank (Running j) = 7" | "rank DoneWant = 6" | "rank DoneHold = 5"
| "rank Woken = 5" | "rank WaitDone = 4" | "rank Check = 3" | "rank WantLock = 2" | "rank Locked = 1"
| "rank Waiting = 0" | "rank Exited = 0"

definition pool_work :: "'j pool \<Rightarrow> nat" where
  "pool_work p = 8 * length (jobs p) + (\<Sum>t<threadCount p. rank (pc p t))"

lemma worker_work:
  assumes "worker_step t p = Some p'" "t < threadCount p"
  shows "pool_work p' < pool_work p"
proof -
  have "8 * length (jobs p') + rank (pc p' t) < 8 * length (jobs p) + rank (pc p t)"
    using assms by (cases "pc p t") (auto simp: worker_defs split: list.splits if_splits)
  moreover have "pc p' = (pc p)(t := pc p' t)" "threadCount p' = threadCount p"
    by (rule worker_avail [OF assms(1)])+
  ultimately show ?thesis
    using sum_fun_upd [OF assms(2), of rank "pc p" "pc p' t"] by (simp add: pool_work_def)
qed

text \<open>When no worker can move, and the pool is not shut down, no job is pending.\<close>

lemma progress:
  assumes "pool_inv p" "0 < threadCount p" "jobs p \<noteq> []" "\<not> terminate p"
  shows "\<exists>t<threadCount p. \<exists>p'. worker_step t p = Some p'"
proof (cases "cvLock p")
  case None
  have "wake_inv p" using assms(1) by (simp add: pool_inv_def)
  then have "\<forall>t<threadCount p. pc p t \<noteq> Exited" "\<exists>t<threadCount p. pc p t \<noteq> Waiting"
    using assms(2-4) by (simp_all add: wake_inv_def)
  then show ?thesis using free_lock_runs [OF None] by blast
next
  case (Some t)
  have "lock_inv p" using assms(1) by (simp add: pool_inv_def)
  then have "t < threadCount p \<and> holds (pc p t)" using Some unfolding lock_inv_def by blast
  then show ?thesis using holder_runs by blast
qed

lemma stuck_pending:
  assumes "pool_inv p" "0 < threadCount p" "\<not> terminate p"
    and "\<And>t. t < threadCount p \<Longrightarrow> worker_step t p = None"
  shows "pending p = {#}"
proof -
  have "jobs p = []" using progress [OF assms(1,2) _ assms(3)] assms(4) by fastforce
  moreover have "job_of (pc p t) = {#}" if "t < threadCount p" for t
    using assms(4) [OF that] by (cases "pc p t") (auto simp: worker_defs)
  ultimately show ?thesis by (simp add: pending_def)
qed

section \<open>Runs as lists of actions\<close>

text \<open>An executable form of the step relation, for concrete runs.\<close>

datatype 'j act = Work nat | Dispatch 'j "nat option" | Destroy

fun pool_exec :: "'j act list \<Rightarrow> 'j pool \<Rightarrow> 'j pool option" where
  "pool_exec [] p = Some p"
| "pool_exec (Work t # as) p =
     (if t < threadCount p then Option.bind (worker_step t p) (pool_exec as) else None)"
| "pool_exec (Dispatch j w # as) p = Option.bind (dispatch_thread j w p) (pool_exec as)"
| "pool_exec (Destroy # as) p = Option.bind (ThreadPool_destroy p) (pool_exec as)"

lemma pool_exec_steps: "pool_exec as p = Some p' \<Longrightarrow> pool_step\<^sup>*\<^sup>* p p'"
proof (induction as p rule: pool_exec.induct)
  case (2 t as p)
  then obtain q where "t < threadCount p" "worker_step t p = Some q" "pool_exec as q = Some p'"
    by (auto split: if_splits bind_splits)
  then show ?case using 2 by (meson converse_rtranclp_into_rtranclp pool_step.worker)
next
  case (3 j w as p)
  then show ?case
    by (auto split: bind_splits intro: converse_rtranclp_into_rtranclp pool_step.dispatch)
next
  case (4 as p)
  then show ?case
    by (auto split: bind_splits intro: converse_rtranclp_into_rtranclp pool_step.destroy)
qed simp

lemma pool_exec_reach: "pool_exec as (ThreadPool_new n) = Some p \<Longrightarrow> pool_reach n p"
  unfolding pool_reach_def by (rule pool_exec_steps)

lemmas pool_exec_simps = ThreadPool_new_def worker_defs dispatch_thread_def notify_one_def
  valid_wake_def waiters_def ThreadPool_destroy_def

text \<open>Two workers, one job dispatched and taken by worker 1, worker 0 asleep.\<close>

definition sample_run :: "nat act list" where
  "sample_run = [Work 0, Work 0, Work 0, Work 1, Dispatch 7 (Some 0), Dispatch 8 None, Work 1, Work 1]"

definition sample_pool :: "nat pool" where
  "sample_pool = \<lparr>jobs = [8], threadCount = 2, availableThreads = 1, terminate = False,
     cvLock = Some 1, pc = (\<lambda>_. Check)(0 := Woken, 1 := GotJob 7), posted = [7, 8], started = [7]\<rparr>"

lemma sample_pool_reach: "pool_reach 2 sample_pool"
proof (rule pool_exec_reach)
  show "pool_exec sample_run (ThreadPool_new 2) = Some sample_pool"
    by (simp add: sample_run_def sample_pool_def pool_exec_simps upt_rec fun_upd_def fun_eq_iff)
qed

section \<open>What the pool guarantees\<close>

text \<open>C16: Mutual exclusion: in every reachable state of the pool at most one worker is at a
  program point where it accesses the queue or the counter.\<close>

theorem pool_mutual_exclusion:
  assumes "pool_reach n p" "t1 < n" "t2 < n" "holds (pc p t1)" "holds (pc p t2)"
  shows "t1 = t2"
proof -
  have "lock_inv p" "threadCount p = n"
    using pool_reach_inv [OF assms(1)] by (auto simp: pool_inv_def)
  then have "cvLock p = Some t1" "cvLock p = Some t2"
    using assms(2-5) unfolding lock_inv_def by blast+
  then show ?thesis by simp
qed

theorem pool_mutual_exclusion_witness:
  "pool_reach 2 sample_pool \<and> holds (pc sample_pool 1) \<and> \<not> holds (pc sample_pool 0)"
proof -
  have "holds (pc sample_pool 1)" by (simp add: sample_pool_def)
  then show ?thesis
    using sample_pool_reach pool_mutual_exclusion [of 2 sample_pool 0 1] by auto
qed

text \<open>\<open>availableThreads\<close> is exact in every reachable state: it is the number of workers that
  are not between taking a job and counting themselves back.\<close>

theorem pool_available_exact:
  assumes "pool_reach n p" "n < 2 ^ 64"
  shows "unat (availableThreads p) + busy_count p = n"
proof -
  have inv: "count_inv p" "threadCount p = n"
    using pool_reach_inv [OF assms(1)] by (auto simp: pool_inv_def)
  then have "availableThreads p = word_of_nat n - word_of_nat (busy_count p)"
    by (simp add: count_inv_def eq_diff_eq)
  also have "\<dots> = word_of_nat (n - busy_count p)"
    using busy_count_le [of p] inv(2) by simp
  finally have "unat (availableThreads p) = n - busy_count p"
    using unat_word_of_nat_small [of "n - busy_count p"] assms(2) by simp
  then show ?thesis using busy_count_le [of p] inv(2) by simp
qed

theorem pool_available_exact_witness:
  "pool_reach 2 sample_pool \<and> unat (availableThreads sample_pool) = 1 \<and> busy_count sample_pool = 1"
  using pool_available_exact [OF sample_pool_reach] sample_pool_reach by (simp add: sample_pool_def)

text \<open>C17: Jobs are taken in the order they were dispatched, none twice and none lost: the jobs
  workers took followed by the queue are the jobs dispatched.\<close>

theorem pool_fifo:
  assumes "pool_reach n p"
  shows "started p @ jobs p = posted p"
  using assms unfolding pool_reach_def by (rule newpool.fifo)

theorem pool_fifo_witness:
  "pool_reach 2 sample_pool \<and> started sample_pool @ [8] = posted sample_pool"
  using pool_fifo [OF sample_pool_reach] sample_pool_reach by (simp add: sample_pool_def)

text \<open>No lost wake-up while the pool is in use: as long as \<open>terminate\<close> is not set and a job
  is queued, some worker can take a step.\<close>

theorem pool_progress:
  assumes "pool_reach n p" "0 < n" "jobs p \<noteq> []" "\<not> terminate p"
  shows "\<exists>t<n. \<exists>p'. worker_step t p = Some p'"
  using progress [of p] pool_reach_inv [OF assms(1)] assms(2-4) by simp

theorem pool_progress_witness:
  "pool_reach 2 sample_pool \<and> (\<exists>t<2. \<exists>p'. worker_step t sample_pool = Some p')"
  using pool_progress [OF sample_pool_reach] sample_pool_reach by (simp add: sample_pool_def)

text \<open>Steps of the workers alone, as they happen while the destructor waits in the joins.\<close>

definition workers_run :: "'j pool \<Rightarrow> 'j pool \<Rightarrow> bool" where
  "workers_run = (\<lambda>p p'. \<exists>t<threadCount p. worker_step t p = Some p')\<^sup>*\<^sup>*"

lemma waiting_stays:
  assumes "workers_run p p'" "pc p t = Waiting"
  shows "pc p' t = Waiting \<and> threadCount p' = threadCount p"
  using assms(1) unfolding workers_run_def
proof (induction rule: rtranclp_induct)
  case base
  then show ?case using assms(2) by simp
next
  case (step q q')
  then obtain s where s: "worker_step s q = Some q'" by blast
  moreover have "s \<noteq> t"
    using s step.IH by (auto simp: worker_step_def)
  ultimately have "pc q' t = pc q t"
    using worker_avail(1) [OF s] by (metis fun_upd_other)
  with step.IH worker_avail(2) [OF s] show ?case by simp
qed

text \<open>Worker 0 tests \<open>terminate\<close>, the destructor then sets it and notifies, and only then the
  worker locks the mutex, finds no job and waits.\<close>

definition late_waiter :: "nat \<Rightarrow> 'j pool" where
  "late_waiter n = (ThreadPool_new n)\<lparr>terminate := True, pc := (\<lambda>_. Check)(0 := Waiting)\<rparr>"

lemma late_waiter_reach: "0 < n \<Longrightarrow> pool_reach n (late_waiter n)"
  by (rule pool_exec_reach [of "[Work 0, Destroy, Work 0, Work 0]"])
    (simp add: late_waiter_def ThreadPool_new_def worker_defs ThreadPool_destroy_def fun_eq_iff)

text \<open>C18: Every job gets done while the pool is not shut down: however the workers are scheduled,
  they take a bounded number of steps, and when none of them can move no job is left, neither in
  the queue nor in the hands of a worker.\<close>

theorem pool_drains:
  assumes "pool_reach n p" "0 < n" "\<not> terminate p"
    and "((\<lambda>p p'. \<exists>t<threadCount p. worker_step t p = Some p') ^^ k) p q"
  shows "k \<le> pool_work p \<and> ((\<forall>t<n. worker_step t q = None) \<longrightarrow> pending q = {#})"
proof -
  have "pool_inv q \<and> threadCount q = n \<and> \<not> terminate q \<and> k + pool_work q \<le> pool_work p"
    using assms(4)
  proof (induction k arbitrary: q)
    case 0
    then show ?case using pool_reach_inv [OF assms(1)] assms(3) by simp
  next
    case (Suc k)
    then obtain r t where r: "t < threadCount r" "worker_step t r = Some q"
      "pool_inv r" "threadCount r = n" "\<not> terminate r" "k + pool_work r \<le> pool_work p" by auto
    then have "pool_inv q" by (blast intro: pool_step_inv pool_step.worker)
    moreover have "terminate q = terminate r"
      using r(2) by (cases "pc r t") (auto simp: worker_defs split: list.splits if_splits)
    ultimately show ?case
      using r worker_work [OF r(2,1)] worker_avail(2) [OF r(2)] by simp
  qed
  then show ?thesis using stuck_pending [of q] assms(2) by auto
qed

theorem pool_drains_witness:
  "\<exists>q. worker_step 1 sample_pool = Some q \<and> 1 \<le> pool_work sample_pool"
proof -
  obtain q where q: "worker_step 1 sample_pool = Some q"
    by (simp add: sample_pool_def worker_defs)
  have "((\<lambda>p p'. \<exists>t<threadCount p. worker_step t p = Some p') ^^ 1) sample_pool q"
    using q by (auto simp: sample_pool_def intro!: exI [of _ 1])
  from pool_drains [OF sample_pool_reach _ _ this] q show ?thesis
    by (simp add: sample_pool_def)
qed

text \<open>C38: Shutdown can hang: for every pool with at least one worker there is a reachable state in
  which the destructor has set \<open>terminate\<close> and notified, and from which no run of the workers
  (without a spurious wake-up) ever lets the joins return, because a worker that had tested \<open>terminate\<close> before waits for a
  notification that is already past.\<close>

theorem pool_shutdown_can_hang:
  assumes "0 < n"
  shows "\<exists>p. pool_reach n p \<and> terminate p \<and> (\<forall>p'. \<not> (workers_run p p' \<and> joinable p'))"
proof (intro exI [of _ "late_waiter n"] conjI allI)
  show "pool_reach n (late_waiter n)" using assms by (rule late_waiter_reach)
  show "terminate (late_waiter n)" by (simp add: late_waiter_def)
  fix p' :: "'a pool"
  show "\<not> (workers_run (late_waiter n) p' \<and> joinable p')"
  proof
    assume a: "workers_run (late_waiter n) p' \<and> joinable p'"
    have "pc (late_waiter n :: 'a pool) 0 = Waiting" by (simp add: late_waiter_def)
    then have "pc p' 0 = Waiting" "threadCount p' = n"
      using waiting_stays [OF conjunct1 [OF a]] by (simp_all add: late_waiter_def ThreadPool_new_def)
    then show False using a assms by (auto simp: joinable_iff)
  qed
qed

theorem pool_shutdown_can_hang_witness:
  "\<exists>p :: nat pool. pool_reach 25 p \<and> terminate p \<and> (\<forall>p'. \<not> (workers_run p p' \<and> joinable p'))"
  by (rule pool_shutdown_can_hang) simp

end
