(* ===== verification/PerMessage.thy ===== *)
theory PerMessage
  imports Wire ThreadPool
begin

text \<open>
  The process per message model (\<open>PerMessage.h\<close>): a send function per protocol that puts its
  header, a local variable, in front of the message and calls the protocol below; a receive
  function per protocol that strips its header and calls the protocol above; a listening thread
  that hands every datagram to the thread pool.
\<close>

section \<open>State\<close>

record permessage =
  threads :: "Message pool"
  inUdpPort :: i32
  destUdpPort :: i32
  mySock :: int

text \<open>\<open>rCounter\<close> is the number of times \<open>rCounter++\<close> has been executed, which the global of that name
  has when no two workers are at their increments together; what it has otherwise, with every load and store a
  step, is in the theories \<open>Counter\<close> and \<open>SpeedMain\<close>. \<open>got\<close> is a history variable that records, at
  each increment, the application and what its buffer holds.\<close>

record world = net +
  hp :: mem
  rCounter :: int
  got :: "(app \<times> cell list) list"

definition PerMessage_new :: "os \<Rightarrow> i32 \<Rightarrow> i32 \<Rightarrow> permessage res" where
  "PerMessage_new e sourcePort destPort =
     rbind (udpSocket e sourcePort) (\<lambda>sock.
     Inr \<lparr>threads = ThreadPool_new 25, inUdpPort = sourcePort, destUdpPort = destPort, mySock = sock\<rparr>)"

section \<open>Sending\<close>

text \<open>\<open>for (i < sizeof(otherInfo)) otherInfo[i] = 'f'\<close>\<close>

fun fill_otherInfo :: "nat \<Rightarrow> mem \<Rightarrow> ptr \<Rightarrow> nat \<Rightarrow> mem res" where
  "fill_otherInfo 0 h p i = Inr h"
| "fill_otherInfo (Suc n) h p i = rbind (set_otherInfo h p i 102) (\<lambda>h. fill_otherInfo n h p (i + 1))"

text \<open>The \<open>int length\<close> of a header gets the \<open>size_t\<close> of \<open>msgLen()\<close>.\<close>

definition msgLen_int :: "Message \<Rightarrow> i32" where
  "msgLen_int m = ucast (msgLen m)"

definition ethernetSend :: "os \<Rightarrow> permessage \<Rightarrow> i32 \<Rightarrow> Message \<Rightarrow> world \<Rightarrow> (Message \<times> world) res" where
  "ethernetSend e pm protocol mesg w =
     (let (eth, h) = alloc (sizeof_hdr ethHeader) (hp w) in
      rbind (set_hlp h eth protocol) (\<lambda>h.
      rbind (fill_otherInfo (otherInfo_len ethHeader) h eth 0) (\<lambda>h.
      rbind (set_length ethHeader h eth (msgLen_int mesg)) (\<lambda>h.
      let mesg = msgAddHdr mesg eth (word_of_nat (sizeof_hdr ethHeader));
          (buffer, h) = alloc 1024 h in
      rbind (msgFlat h mesg buffer) (\<lambda>h.
      rbind (sendUdp e h (mySock pm) buffer (int_of_size (msgLen mesg)) ''localhost'' (destUdpPort pm) w)
        (\<lambda>w.
      rbind (free eth h) (\<lambda>h. Inr (mesg, w\<lparr>hp := h\<rparr>))))))))"

definition ipSend :: "os \<Rightarrow> permessage \<Rightarrow> i32 \<Rightarrow> Message \<Rightarrow> world \<Rightarrow> (Message \<times> world) res" where
  "ipSend e pm protocol mesg w =
     (let (ip, h) = alloc (sizeof_hdr IPHeader) (hp w) in
      rbind (set_hlp h ip protocol) (\<lambda>h.
      rbind (set_length IPHeader h ip (msgLen_int mesg)) (\<lambda>h.
      let mesg = msgAddHdr mesg ip (word_of_nat (sizeof_hdr IPHeader)) in
      rbind (ethernetSend e pm IP_ID mesg (w\<lparr>hp := h\<rparr>)) (\<lambda>(mesg, w).
      rbind (free ip (hp w)) (\<lambda>h. Inr (mesg, w\<lparr>hp := h\<rparr>))))))"

definition tcpSend :: "os \<Rightarrow> permessage \<Rightarrow> i32 \<Rightarrow> Message \<Rightarrow> world \<Rightarrow> (Message \<times> world) res" where
  "tcpSend e pm protocol mesg w =
     (let (tcp, h) = alloc (sizeof_hdr TCPHeader) (hp w) in
      rbind (set_hlp h tcp protocol) (\<lambda>h.
      rbind (set_length TCPHeader h tcp (msgLen_int mesg)) (\<lambda>h.
      let mesg = msgAddHdr mesg tcp (word_of_nat (sizeof_hdr TCPHeader)) in
      rbind (ipSend e pm TCP_ID mesg (w\<lparr>hp := h\<rparr>)) (\<lambda>(mesg, w).
      rbind (free tcp (hp w)) (\<lambda>h. Inr (mesg, w\<lparr>hp := h\<rparr>))))))"

definition udpSend :: "os \<Rightarrow> permessage \<Rightarrow> i32 \<Rightarrow> Message \<Rightarrow> world \<Rightarrow> (Message \<times> world) res" where
  "udpSend e pm protocol mesg w =
     (let (udp, h) = alloc (sizeof_hdr UDPHeader) (hp w) in
      rbind (set_hlp h udp protocol) (\<lambda>h.
      rbind (set_length UDPHeader h udp (msgLen_int mesg)) (\<lambda>h.
      let mesg = msgAddHdr mesg udp (word_of_nat (sizeof_hdr UDPHeader)) in
      rbind (ipSend e pm UDP_ID mesg (w\<lparr>hp := h\<rparr>)) (\<lambda>(mesg, w).
      rbind (free udp (hp w)) (\<lambda>h. Inr (mesg, w\<lparr>hp := h\<rparr>))))))"

definition rdpSend :: "os \<Rightarrow> permessage \<Rightarrow> i32 \<Rightarrow> Message \<Rightarrow> world \<Rightarrow> (Message \<times> world) res" where
  "rdpSend e pm protocol mesg w =
     (let (rdp, h) = alloc (sizeof_hdr RDPHeader) (hp w) in
      rbind (set_hlp h rdp protocol) (\<lambda>h.
      rbind (set_length RDPHeader h rdp (msgLen_int mesg)) (\<lambda>h.
      let mesg = msgAddHdr mesg rdp (word_of_nat (sizeof_hdr RDPHeader)) in
      rbind (udpSend e pm RDP_ID mesg (w\<lparr>hp := h\<rparr>)) (\<lambda>(mesg, w).
      rbind (free rdp (hp w)) (\<lambda>h. Inr (mesg, w\<lparr>hp := h\<rparr>))))))"

definition dnsSend :: "os \<Rightarrow> permessage \<Rightarrow> i32 \<Rightarrow> Message \<Rightarrow> world \<Rightarrow> (Message \<times> world) res" where
  "dnsSend e pm protocol mesg w =
     (let (dns, h) = alloc (sizeof_hdr DNSHeader) (hp w) in
      rbind (set_hlp h dns protocol) (\<lambda>h.
      rbind (set_length DNSHeader h dns (msgLen_int mesg)) (\<lambda>h.
      let mesg = msgAddHdr mesg dns (word_of_nat (sizeof_hdr DNSHeader)) in
      rbind (udpSend e pm DNS_ID mesg (w\<lparr>hp := h\<rparr>)) (\<lambda>(mesg, w).
      rbind (free dns (hp w)) (\<lambda>h. Inr (mesg, w\<lparr>hp := h\<rparr>))))))"

definition ftpSend :: "os \<Rightarrow> permessage \<Rightarrow> i32 \<Rightarrow> Message \<Rightarrow> world \<Rightarrow> (Message \<times> world) res" where
  "ftpSend e pm protocol mesg w =
     (let (ftp, h) = alloc (sizeof_hdr FTPHeader) (hp w) in
      rbind (set_hlp h ftp protocol) (\<lambda>h.
      rbind (set_length FTPHeader h ftp (msgLen_int mesg)) (\<lambda>h.
      let mesg = msgAddHdr mesg ftp (word_of_nat (sizeof_hdr FTPHeader)) in
      rbind (tcpSend e pm FTP_ID mesg (w\<lparr>hp := h\<rparr>)) (\<lambda>(mesg, w).
      rbind (free ftp (hp w)) (\<lambda>h. Inr (mesg, w\<lparr>hp := h\<rparr>))))))"

definition telnetSend :: "os \<Rightarrow> permessage \<Rightarrow> i32 \<Rightarrow> Message \<Rightarrow> world \<Rightarrow> (Message \<times> world) res" where
  "telnetSend e pm protocol mesg w =
     (let (telnet, h) = alloc (sizeof_hdr telnetHeader) (hp w) in
      rbind (set_hlp h telnet protocol) (\<lambda>h.
      rbind (set_length telnetHeader h telnet (msgLen_int mesg)) (\<lambda>h.
      let mesg = msgAddHdr mesg telnet (word_of_nat (sizeof_hdr telnetHeader)) in
      rbind (tcpSend e pm TELNET_ID mesg (w\<lparr>hp := h\<rparr>)) (\<lambda>(mesg, w).
      rbind (free telnet (hp w)) (\<lambda>h. Inr (mesg, w\<lparr>hp := h\<rparr>))))))"

section \<open>Receiving\<close>

text \<open>
  The four application receivers are the same code but for the struct: strip the header (the
  returned pointer is not looked at), flatten into a new array of 1024 bytes, count, delete it.
\<close>

definition appRecv :: "app \<Rightarrow> header \<Rightarrow> Message \<Rightarrow> world \<Rightarrow> (Message \<times> world) res" where
  "appRecv a k mesg w =
     rbind (msgStripHdr (hp w) mesg (word_of_nat (sizeof_hdr k))) (\<lambda>(hdr, h, mesg).
     let (buff, h) = alloc 1024 h in
     rbind (msgFlat h mesg buff) (\<lambda>h.
     rbind (chk_int (rCounter w + 1)) (\<lambda>count.
     let seen = (a, cells h buff (unat (msgLen mesg))) in
     rbind (free buff h) (\<lambda>h.
     Inr (mesg, w\<lparr>hp := h, rCounter := count, got := got w @ [seen]\<rparr>)))))"

definition rdpRecv :: "Message \<Rightarrow> world \<Rightarrow> (Message \<times> world) res" where
  "rdpRecv = appRecv RDP RDPHeader"

definition dnsRecv :: "Message \<Rightarrow> world \<Rightarrow> (Message \<times> world) res" where
  "dnsRecv = appRecv DNS DNSHeader"

definition ftpRecv :: "Message \<Rightarrow> world \<Rightarrow> (Message \<times> world) res" where
  "ftpRecv = appRecv FTP FTPHeader"

definition telnetRecv :: "Message \<Rightarrow> world \<Rightarrow> (Message \<times> world) res" where
  "telnetRecv = appRecv Telnet telnetHeader"

definition tcpRecv :: "Message \<Rightarrow> world \<Rightarrow> (Message \<times> world) res" where
  "tcpRecv mesg w =
     rbind (msgStripHdr (hp w) mesg (word_of_nat (sizeof_hdr TCPHeader))) (\<lambda>(tcp, h, mesg).
     rbind (deref_hlp h tcp) (\<lambda>hlp.
     let w = w\<lparr>hp := h\<rparr> in
     if hlp = FTP_ID then ftpRecv mesg w
     else if hlp = TELNET_ID then telnetRecv mesg w
     else Inr (mesg, w\<lparr>diags := diags w @ [TCPInvalid hlp]\<rparr>)))"

definition udpRecv :: "Message \<Rightarrow> world \<Rightarrow> (Message \<times> world) res" where
  "udpRecv mesg w =
     rbind (msgStripHdr (hp w) mesg (word_of_nat (sizeof_hdr UDPHeader))) (\<lambda>(udp, h, mesg).
     rbind (deref_hlp h udp) (\<lambda>hlp.
     let w = w\<lparr>hp := h\<rparr> in
     if hlp = DNS_ID then dnsRecv mesg w
     else if hlp = RDP_ID then rdpRecv mesg w
     else Inr (mesg, w\<lparr>diags := diags w @ [UDPInvalid hlp]\<rparr>)))"

definition ipRecv :: "Message \<Rightarrow> world \<Rightarrow> (Message \<times> world) res" where
  "ipRecv mesg w =
     rbind (msgStripHdr (hp w) mesg (word_of_nat (sizeof_hdr IPHeader))) (\<lambda>(ip, h, mesg).
     rbind (deref_hlp h ip) (\<lambda>nextProto.
     let w = w\<lparr>hp := h\<rparr> in
     if nextProto = TCP_ID then tcpRecv mesg w
     else if nextProto = UDP_ID then udpRecv mesg w
     else Inr (mesg, w\<lparr>diags := diags w @ [IPInvalid nextProto]\<rparr>)))"

text \<open>An invalid protocol is reported here, but the message goes up to IP all the same.\<close>

definition ethernetRecv :: "Message \<Rightarrow> world \<Rightarrow> (Message \<times> world) res" where
  "ethernetRecv mesg w =
     rbind (msgStripHdr (hp w) mesg (word_of_nat (sizeof_hdr ethHeader))) (\<lambda>(hdr, h, mesg).
     rbind (deref_hlp h hdr) (\<lambda>hlp.
     let w = w\<lparr>hp := h\<rparr>;
         w = (if hlp \<noteq> IP_ID then w\<lparr>diags := diags w @ [EthInvalid hlp]\<rparr> else w)
     in ipRecv mesg w))"

text \<open>One turn of the listening thread for the datagram \<open>dg\<close> that \<open>recvfrom\<close> finds; \<open>wk\<close> is
  the waiter \<open>notify_one\<close> wakes. \<open>None\<close>: the thread waits for the pool's mutex.\<close>

definition BUFSIZE :: nat where "BUFSIZE = 4096"

definition receive_message :: "cell list option \<Rightarrow> world \<Rightarrow> (Message \<times> world) res" where
  "receive_message dg w =
     (let (buffer, h) = alloc BUFSIZE (hp w) in
      rbind (memset h buffer 0 BUFSIZE) (\<lambda>h.
      rbind (getUdpMesg h buffer BUFSIZE dg) (\<lambda>(n, h).
      Inr (Message_new buffer (size_of_int n), w\<lparr>hp := h\<rparr>))))"

definition listenOnSocket :: "nat option \<Rightarrow> cell list option \<Rightarrow> permessage \<Rightarrow> world
    \<Rightarrow> (permessage \<times> world) option res" where
  "listenOnSocket wk dg pm w =
     rbind (receive_message dg w) (\<lambda>(m, w).
     Inr (case dispatch_thread m wk (threads pm) of
            None \<Rightarrow> None
          | Some p \<Rightarrow> Some (pm\<lparr>threads := p\<rparr>, w)))"

section \<open>What sending does\<close>

text \<open>The effect of a datagram on the network state, as \<open>sendUdp\<close> leaves it.\<close>

definition net_send :: "os \<Rightarrow> permessage \<Rightarrow> cell list \<Rightarrow> world \<Rightarrow> world" where
  "net_send e pm bs w = (case os_gethostbyname e ''localhost'' of
       None \<Rightarrow> w\<lparr>diags := diags w @ [HostUnknown ''localhost'']\<rparr>
     | Some addr \<Rightarrow>
         let dest = \<lparr>sin_port = htons (ucast (destUdpPort pm)), sin_addr = addr\<rparr> in
         if os_sendto e (mySock pm) dest bs < 0 then w\<lparr>diags := diags w @ [SendFailed]\<rparr>
         else w\<lparr>sent := sent w @ [(dest, bs)]\<rparr>)"

text \<open>
  \<open>sends n f enc\<close>: \<open>f\<close> sends the datagram \<open>enc bs\<close> for a message with bytes \<open>bs\<close> if it fits the
  1024 byte buffer and writes beyond the buffer if not; it leaves the caller's memory as it was,
  and a message that points into memory whose lifetime is over. \<open>n\<close> is room for the headers.
\<close>

definition sends :: "os \<Rightarrow> permessage \<Rightarrow> nat \<Rightarrow> (Message \<Rightarrow> world \<Rightarrow> (Message \<times> world) res)
    \<Rightarrow> (cell list \<Rightarrow> cell list) \<Rightarrow> bool" where
  "sends e pm n f enc \<longleftrightarrow> (\<forall>m w. wf_mem (hp w) \<longrightarrow> wf_msg (hp w) m \<longrightarrow>
     length (msg_bytes (hp w) m) + n < 2 ^ 31 \<longrightarrow>
     (if length (enc (msg_bytes (hp w) m)) \<le> 1024
      then \<exists>m' h'. f m w = Inr (m', (net_send e pm (enc (msg_bytes (hp w) m)) w)\<lparr>hp := h'\<rparr>)
             \<and> wf_mem h' \<and> mem_ext {} (hp w) h' \<and> \<not> wf_msg h' m'
      else f m w = Inl OutOfBounds))"

lemma sendsD:
  assumes "sends e pm n f enc" "wf_mem (hp w)" "wf_msg (hp w) m" "msg_bytes (hp w) m = bs"
    and "length bs + n < 2 ^ 31"
  shows "length (enc bs) \<le> 1024 \<Longrightarrow> \<exists>m' h'. f m w = Inr (m', (net_send e pm (enc bs) w)\<lparr>hp := h'\<rparr>)
      \<and> wf_mem h' \<and> mem_ext {} (hp w) h' \<and> \<not> wf_msg h' m'"
    and "1024 < length (enc bs) \<Longrightarrow> f m w = Inl OutOfBounds"
  using assms(1) [unfolded sends_def, rule_format, of w m] assms(2-5) by auto

lemma net_send_hp [simp]: "(net_send e pm bs (w\<lparr>hp := h\<rparr>))\<lparr>hp := h'\<rparr> = (net_send e pm bs w)\<lparr>hp := h'\<rparr>"
  by (simp add: net_send_def Let_def split: option.splits)

lemma fill_otherInfo_put:
  "length a = 4 \<Longrightarrow> i + n = length b \<Longrightarrow>
     fill_otherInfo n (put (a @ b @ c) h) (brk h, 0) i
       = Inr (put (a @ (take i b @ replicate n (Some 102)) @ c) h)"
proof (induction n arbitrary: i b)
  case (Suc n)
  then have "fill_otherInfo n (put (a @ b[i := Some 102] @ c) h) (brk h, 0) (i + 1)
      = Inr (put (a @ (take (i + 1) (b[i := Some 102]) @ replicate n (Some 102)) @ c) h)"
    by simp
  moreover have "take (i + 1) (b[i := Some 102]) = take i b @ [Some 102]"
    using Suc.prems by (simp add: take_Suc_conv_app_nth)
  ultimately show ?case
    using Suc.prems by (simp add: set_otherInfo_put)
qed simp

lemma msgLen_int_eq: "wf_msg h m \<Longrightarrow> msgLen_int m = word_of_nat (length (msg_bytes h m))"
  unfolding msgLen_int_def by (rule ucast_msgLen)

lemma wf_msg_free:
  assumes "\<not> wf_msg h m" "free p h = Inr h'"
  shows "\<not> wf_msg h' m"
proof
  assume "wf_msg h' m"
  moreover have "readable h q n" if "readable h' q n" for q n
    using that assms(2) by (auto simp: free_def readable_def split: if_splits option.splits)
  ultimately show False using assms(1) by (auto simp: wf_msg_def wf_frags_def)
qed

lemma sendUdp_put:
  assumes "length bs \<le> 1024"
  shows "sendUdp e (put (bs @ undef_cells (1024 - length bs)) h) (mySock pm) (brk h, 0)
      (int (length bs)) ''localhost'' (destUdpPort pm) w = Inr (net_send e pm bs w)"
proof -
  have "unat (word_of_nat (length bs) :: size_t) = length bs"
    using assms by (intro unat_word_of_nat_small) simp
  then show ?thesis
    by (simp add: sendUdp_def net_send_def load_def size_of_int_nat Let_def split: option.splits)
qed

lemma ethernetSend_sends:
  "sends e pm 16 (ethernetSend e pm p) (encap (int_cells p) (replicate 8 (Some 102)))"
  unfolding sends_def
proof (intro allI impI)
  fix m and w :: world
  let ?h = "hp w" and ?bs = "msg_bytes (hp w) m"
  let ?img = "hdr_image (int_cells p) (replicate 8 (Some 102)) (word_of_nat (length ?bs))"
  let ?enc = "encap (int_cells p) (replicate 8 (Some 102)) ?bs"
  assume a: "wf_mem ?h" "wf_msg ?h m" "length ?bs + 16 < 2 ^ 31"
  let ?h1 = "put ?img ?h" and ?m1 = "msgAddHdr m (brk ?h, 0) (word_of_nat 16)"
  have h1: "wf_mem ?h1" using a(1) by simp
  have m1: "wf_msg ?h1 ?m1" "msg_bytes ?h1 ?m1 = ?enc"
    using msg.push [OF a(1,2), of ?img] a(3) by (simp_all add: encap_def)
  have len: "int_of_size (msgLen ?m1) = int (length ?enc)"
    using m1 wf_msg_small [OF m1(1)] int_of_size_small [of "m_MsgLen ?m1"] wf_msg_len [OF m1(1)]
    by (simp add: msgLen_def)
  have hdr: "\<And>F. rbind (set_hlp (put (undef_cells 4 @ undef_cells 8 @ undef_cells 4) ?h) (brk ?h, 0) p)
      (\<lambda>h. rbind (fill_otherInfo 8 h (brk ?h, 0) 0)
      (\<lambda>h. rbind (set_length ethHeader h (brk ?h, 0) (msgLen_int m)) F)) = F ?h1"
    by (simp add: fill_otherInfo_put msgLen_int_eq [OF a(2)])
  note flat = msg.flat_new [OF h1 m1(1), of 1024, unfolded m1(2)]
  have unf: "ethernetSend e pm p m w =
      rbind (msgFlat (put (undef_cells 1024) ?h1) ?m1 (brk ?h1, 0)) (\<lambda>h.
      rbind (sendUdp e h (mySock pm) (brk ?h1, 0) (int_of_size (msgLen ?m1)) ''localhost'' (destUdpPort pm) w)
        (\<lambda>w. rbind (free (brk ?h, 0) h) (\<lambda>h. Inr (?m1, w\<lparr>hp := h\<rparr>))))"
    unfolding ethernetSend_def alloc_header
    unfolding Let_def prod.case otherInfo_len.simps hdr alloc_put
    by simp
  show "if length ?enc \<le> 1024
      then \<exists>m' h'. ethernetSend e pm p m w = Inr (m', (net_send e pm ?enc w)\<lparr>hp := h'\<rparr>)
             \<and> wf_mem h' \<and> mem_ext {} ?h h' \<and> \<not> wf_msg h' m'
      else ethernetSend e pm p m w = Inl OutOfBounds"
  proof (cases "length ?enc \<le> 1024")
    case True
    let ?h2 = "put (?enc @ undef_cells (1024 - length ?enc)) ?h1"
    obtain h3 where h3: "free (brk ?h, 0) ?h2 = Inr h3" and gone: "blk h3 (brk ?h) = None"
      by (simp add: free_def blk_put)
    have "mem_ext {brk ?h} ?h h3"
      using mem_ext_trans [of "{brk ?h}" ?h ?h2 h3] free_spec(3) [OF h3] a(1) h1
        mem_ext_mono [OF mem_ext_trans [of "{}" ?h ?h1 ?h2], of "{brk ?h}"] by simp
    then have ext: "mem_ext {} ?h h3"
      using a(1) by (rule_tac mem_ext_drop_fresh) (auto simp: wf_mem_def)
    have "\<not> wf_msg h3 ?m1"
      using gone by (simp add: wf_msg_def msgAddHdr_def readable_def)
    moreover have "wf_mem h3" using free_spec(2) [OF h3] h1 by simp
    moreover have "ethernetSend e pm p m w = Inr (?m1, (net_send e pm ?enc w)\<lparr>hp := h3\<rparr>)"
      unfolding unf flat len using True sendUdp_put [OF True, of e ?h1 pm w] h3 by simp
    ultimately show ?thesis using True ext by auto
  next
    case False
    then show ?thesis unfolding unf flat by simp
  qed
qed

text \<open>Every protocol above Ethernet: its header in front, then the send function below.\<close>

lemma layer_sends:
  assumes g: "sends e pm n g enc"
    and f: "\<And>m w. f m w = (let (b, h) = alloc (sizeof_hdr k) (hp w) in
      rbind (set_hlp h b p) (\<lambda>h.
      rbind (set_length k h b (msgLen_int m)) (\<lambda>h.
      let m = msgAddHdr m b (word_of_nat (sizeof_hdr k)) in
      rbind (g m (w\<lparr>hp := h\<rparr>)) (\<lambda>(m, w). rbind (free b (hp w)) (\<lambda>h. Inr (m, w\<lparr>hp := h\<rparr>))))))"
  shows "sends e pm (n + sizeof_hdr k) f
    (\<lambda>bs. enc (encap (int_cells p) (undef_cells (otherInfo_len k)) bs))"
  unfolding sends_def
proof (intro allI impI)
  fix m and w :: world
  let ?h = "hp w" and ?bs = "msg_bytes (hp w) m"
  let ?img = "hdr_image (int_cells p) (undef_cells (otherInfo_len k)) (word_of_nat (length ?bs))"
  let ?up = "encap (int_cells p) (undef_cells (otherInfo_len k)) ?bs"
  assume a: "wf_mem ?h" "wf_msg ?h m" "length ?bs + (n + sizeof_hdr k) < 2 ^ 31"
  let ?h1 = "put ?img ?h" and ?m1 = "msgAddHdr m (brk ?h, 0) (word_of_nat (sizeof_hdr k))"
  have size: "length ?img = sizeof_hdr k" by (simp add: sizeof_hdr_eq)
  have h1: "wf_mem ?h1" using a(1) by simp
  have m1: "wf_msg ?h1 ?m1" "msg_bytes ?h1 ?m1 = ?up"
    using msg.push [OF a(1,2), of ?img] a(3) unfolding size by (simp_all add: encap_def)
  have unf: "f m w = rbind (g ?m1 (w\<lparr>hp := ?h1\<rparr>))
      (\<lambda>(m, w). rbind (free (brk ?h, 0) (hp w)) (\<lambda>h. Inr (m, w\<lparr>hp := h\<rparr>)))"
    unfolding f alloc_header by (simp add: msgLen_int_eq [OF a(2)])
  have "otherInfo_len k + (length ?bs + n) < 2147483640"
    using a(3) by (simp add: sizeof_hdr_eq)
  note g1 = sendsD [OF g, of "w\<lparr>hp := ?h1\<rparr>" ?m1 ?up, simplified, OF h1 m1 this [simplified]]
  show "if length (enc ?up) \<le> 1024
      then \<exists>m' h'. f m w = Inr (m', (net_send e pm (enc ?up) w)\<lparr>hp := h'\<rparr>)
             \<and> wf_mem h' \<and> mem_ext {} ?h h' \<and> \<not> wf_msg h' m'
      else f m w = Inl OutOfBounds"
  proof (cases "length (enc ?up) \<le> 1024")
    case True
    from g1(1) [OF this] obtain m2 h2 where g2:
      "g ?m1 (w\<lparr>hp := ?h1\<rparr>) = Inr (m2, (net_send e pm (enc ?up) w)\<lparr>hp := h2\<rparr>)"
      "wf_mem h2" "mem_ext {} ?h1 h2" "\<not> wf_msg h2 m2" by auto
    have "blk h2 (brk ?h) = Some ?img"
      using g2(3) by (simp add: mem_ext_def)
    then obtain h3 where h3: "free (brk ?h, 0) h2 = Inr h3" by (simp add: free_def)
    have "mem_ext {brk ?h} ?h h3"
      using mem_ext_mono [OF mem_ext_trans [OF mem_ext_put [OF a(1)] g2(3)], of "{brk ?h}"]
        free_spec(3) [OF h3] by (auto intro: mem_ext_trans)
    then have "mem_ext {} ?h h3"
      using a(1) by (rule_tac mem_ext_drop_fresh) (auto simp: wf_mem_def)
    moreover have "\<not> wf_msg h3 m2" by (rule wf_msg_free [OF g2(4) h3])
    moreover have "wf_mem h3" by (rule free_spec(2) [OF h3 g2(2)])
    moreover have "f m w = Inr (m2, (net_send e pm (enc ?up) w)\<lparr>hp := h3\<rparr>)"
      unfolding unf g2(1) using h3 by simp
    ultimately show ?thesis using True by auto
  next
    case False
    with g1(2) show ?thesis unfolding unf by simp
  qed
qed

text \<open>The four applications send what the wire format says, with the given \<open>protocol\<close> as the
  \<open>hlp\<close> of the application header and \<open>'f'\<close> in the Ethernet \<open>otherInfo\<close>.\<close>

abbreviation fs :: "cell list" where
  "fs \<equiv> replicate 8 (Some 102)"

lemmas ipSend_sends = layer_sends [OF ethernetSend_sends ipSend_def]
lemmas tcpSend_sends = layer_sends [OF ipSend_sends tcpSend_def]
lemmas udpSend_sends = layer_sends [OF ipSend_sends udpSend_def]

lemma app_sends:
  "sends e pm 64 (ftpSend e pm p) (wire fs FTP (int_cells p))"
  "sends e pm 64 (telnetSend e pm p) (wire fs Telnet (int_cells p))"
  "sends e pm 68 (rdpSend e pm p) (wire fs RDP (int_cells p))"
  "sends e pm 64 (dnsSend e pm p) (wire fs DNS (int_cells p))"
  using layer_sends [OF tcpSend_sends ftpSend_def, of e pm p]
    layer_sends [OF tcpSend_sends telnetSend_def, of e pm p]
    layer_sends [OF udpSend_sends rdpSend_def, of e pm p]
    layer_sends [OF udpSend_sends dnsSend_def, of e pm p]
  by (simp_all add: wire_def [abs_def])

section \<open>What receiving does\<close>

text \<open>
  The reference receiver, on the bytes of a datagram: the lines printed, and the application
  that gets the message with its payload, if one does.
\<close>

type_synonym receipt = "diag list \<times> (app \<times> cell list) option"

definition deliver :: "app \<Rightarrow> cell list \<Rightarrow> receipt res" where
  "deliver a bs = (let payload = pop_app (app_header a) bs in
     if length payload \<le> 1024 then Inr ([], Some (a, payload)) else Inl OutOfBounds)"

definition recv_tcp :: "cell list \<Rightarrow> receipt res" where
  "recv_tcp bs = rbind (pop_hdr TCPHeader bs) (\<lambda>(hlp, bs).
     if hlp = FTP_ID then deliver FTP bs else if hlp = TELNET_ID then deliver Telnet bs
     else Inr ([TCPInvalid hlp], None))"

definition recv_udp :: "cell list \<Rightarrow> receipt res" where
  "recv_udp bs = rbind (pop_hdr UDPHeader bs) (\<lambda>(hlp, bs).
     if hlp = DNS_ID then deliver DNS bs else if hlp = RDP_ID then deliver RDP bs
     else Inr ([UDPInvalid hlp], None))"

definition recv_ip :: "cell list \<Rightarrow> receipt res" where
  "recv_ip bs = rbind (pop_hdr IPHeader bs) (\<lambda>(hlp, bs).
     if hlp = TCP_ID then recv_tcp bs else if hlp = UDP_ID then recv_udp bs
     else Inr ([IPInvalid hlp], None))"

definition recv_eth :: "cell list \<Rightarrow> receipt res" where
  "recv_eth bs = rbind (pop_hdr ethHeader bs) (\<lambda>(hlp, bs). rbind (recv_ip bs) (\<lambda>(ds, r).
     Inr ((if hlp \<noteq> IP_ID then [EthInvalid hlp] else []) @ ds, r)))"

text \<open>The effect of a receipt on the state; memory only grows.\<close>

definition receipt_world :: "receipt \<Rightarrow> world \<Rightarrow> world" where
  "receipt_world = (\<lambda>(ds, r) w. w\<lparr>diags := diags w @ ds,
     rCounter := rCounter w + (case r of None \<Rightarrow> 0 | Some _ \<Rightarrow> 1),
     got := got w @ (case r of None \<Rightarrow> [] | Some x \<Rightarrow> [x])\<rparr>)"

definition receives :: "(Message \<Rightarrow> world \<Rightarrow> (Message \<times> world) res) \<Rightarrow> (cell list \<Rightarrow> receipt res) \<Rightarrow> bool" where
  "receives f spec \<longleftrightarrow> (\<forall>m w. wf_mem (hp w) \<longrightarrow> wf_msg (hp w) m \<longrightarrow> 0 \<le> rCounter w \<longrightarrow>
     rCounter w + 1 < 2 ^ 31 \<longrightarrow>
     (case spec (msg_bytes (hp w) m) of
        Inl e \<Rightarrow> f m w = Inl e
      | Inr r \<Rightarrow> \<exists>m' h'. f m w = Inr (m', (receipt_world r w)\<lparr>hp := h'\<rparr>)
                 \<and> wf_mem h' \<and> mem_ext {} (hp w) h' \<and> wf_msg h' m'))"

lemma receivesD:
  assumes "receives f spec" "wf_mem (hp w)" "wf_msg (hp w) m" "0 \<le> rCounter w" "rCounter w + 1 < 2 ^ 31"
  shows "spec (msg_bytes (hp w) m) = Inl e \<Longrightarrow> f m w = Inl e"
    and "spec (msg_bytes (hp w) m) = Inr r \<Longrightarrow> \<exists>m' h'. f m w = Inr (m', (receipt_world r w)\<lparr>hp := h'\<rparr>)
      \<and> wf_mem h' \<and> mem_ext {} (hp w) h' \<and> wf_msg h' m'"
  using assms(1) [unfolded receives_def, rule_format, OF assms(2-5)] by auto

lemma appRecv_receives: "receives (appRecv a (app_header a)) (deliver a)"
  unfolding receives_def
proof (intro allI impI)
  fix m and w :: world
  let ?bs = "msg_bytes (hp w) m" and ?k = "app_header a"
  let ?pay = "pop_app ?k ?bs"
  assume a: "wf_mem (hp w)" "wf_msg (hp w) m" "0 \<le> rCounter w" "rCounter w + 1 < 2 ^ 31"
  obtain p h1 m1 where s: "msgStripHdr (hp w) m (word_of_nat (sizeof_hdr ?k)) = Inr (p, h1, m1)"
    "wf_mem h1" "wf_msg h1 m1" "mem_ext {} (hp w) h1" "msg_bytes h1 m1 = ?pay"
    using msg.strip_hdr [OF a(1,2) sint_sizeof [of ?k] sizeof_hdr_ge] by blast
  note flat = msg.flat_new [OF s(2,3), of 1024, unfolded s(5)]
  show "case deliver a ?bs of Inl e \<Rightarrow> appRecv a ?k m w = Inl e
      | Inr r \<Rightarrow> \<exists>m' h'. appRecv a ?k m w = Inr (m', (receipt_world r w)\<lparr>hp := h'\<rparr>)
                 \<and> wf_mem h' \<and> mem_ext {} (hp w) h' \<and> wf_msg h' m'"
  proof (cases "length ?pay \<le> 1024")
    case True
    let ?h2 = "put (?pay @ undef_cells (1024 - length ?pay)) h1"
    obtain h3 where h3: "free (brk h1, 0) ?h2 = Inr h3" "wf_mem h3" and ext: "mem_ext {} h1 h3"
      by (rule free_put [OF s(2)])
    have "cells ?h2 (brk h1, 0) (unat (msgLen m1)) = ?pay"
      using wf_msg_len [OF s(3)] s(5) by (simp add: cells_def msgLen_def)
    then have "appRecv a ?k m w = Inr (m1, (receipt_world ([], Some (a, ?pay)) w)\<lparr>hp := h3\<rparr>)"
      using a(3,4) by (simp add: appRecv_def s(1) alloc_put flat True h3(1) receipt_world_def)
    moreover have "wf_mem h3" "mem_ext {} (hp w) h3" "wf_msg h3 m1"
      using h3(2) s(2,4) mem_ext_trans [OF s(4) ext] msg.keep(1) [OF ext s(3)] by auto
    ultimately show ?thesis using True by (auto simp: deliver_def)
  next
    case False
    then show ?thesis by (simp add: deliver_def appRecv_def s(1) alloc_put flat)
  qed
qed

lemma receipt_world_hp [simp]:
  "(receipt_world r (w\<lparr>hp := h\<rparr>))\<lparr>hp := h'\<rparr> = (receipt_world r w)\<lparr>hp := h'\<rparr>"
  by (cases r) (simp add: receipt_world_def)

text \<open>A layer: strip a header, read its \<open>hlp\<close>, go on with what it selects.\<close>

lemma receives_layer:
  assumes F: "\<And>v. receives (F v) (S v)"
    and f: "\<And>m w. f m w = rbind (msgStripHdr (hp w) m (word_of_nat (sizeof_hdr k))) (\<lambda>(p, h, m).
      rbind (deref_hlp h p) (\<lambda>hlp. F hlp m (w\<lparr>hp := h\<rparr>)))"
  shows "receives f (\<lambda>bs. rbind (pop_hdr k bs) (\<lambda>(hlp, bs). S hlp bs))"
  unfolding receives_def
proof (intro allI impI)
  fix m and w :: world
  let ?bs = "msg_bytes (hp w) m"
  assume a: "wf_mem (hp w)" "wf_msg (hp w) m" "0 \<le> rCounter w" "rCounter w + 1 < 2 ^ 31"
  obtain p h1 m1 where s: "msgStripHdr (hp w) m (word_of_nat (sizeof_hdr k)) = Inr (p, h1, m1)"
    "wf_mem h1" "wf_msg h1 m1" "mem_ext {} (hp w) h1"
    and pop: "(case p of None \<Rightarrow> Inl NullDeref | Some q \<Rightarrow> rbind (get_hlp h1 q)
        (\<lambda>v. Inr (v, msg_bytes h1 m1))) = pop_hdr k ?bs"
    using msg.strip_hdr [OF a(1,2) sint_sizeof [of k] sizeof_hdr_ge] by blast
  have pop': "pop_hdr k ?bs = rbind (deref_hlp h1 p) (\<lambda>v. Inr (v, msg_bytes h1 m1))"
    unfolding pop [symmetric] deref_hlp_def by (simp split: option.splits)
  have f1: "f m w = rbind (deref_hlp h1 p) (\<lambda>hlp. F hlp m1 (w\<lparr>hp := h1\<rparr>))"
    by (simp add: f s(1))
  show "case rbind (pop_hdr k ?bs) (\<lambda>(hlp, bs). S hlp bs) of Inl e \<Rightarrow> f m w = Inl e
      | Inr r \<Rightarrow> \<exists>m' h'. f m w = Inr (m', (receipt_world r w)\<lparr>hp := h'\<rparr>)
                 \<and> wf_mem h' \<and> mem_ext {} (hp w) h' \<and> wf_msg h' m'"
  proof (cases "deref_hlp h1 p")
    case (Inl e)
    then show ?thesis by (simp add: pop' f1)
  next
    case (Inr v)
    have r: "receives (F v) (S v)" by (rule F)
    show ?thesis
    proof (cases "S v (msg_bytes h1 m1)")
      case (Inl e)
      then show ?thesis
        using receivesD(1) [OF r, of "w\<lparr>hp := h1\<rparr>" m1] s a by (simp add: pop' f1 Inr)
    next
      case (Inr t)
      then obtain m2 h2 where "F v m1 (w\<lparr>hp := h1\<rparr>) = Inr (m2, (receipt_world t w)\<lparr>hp := h2\<rparr>)"
        "wf_mem h2" "mem_ext {} h1 h2" "wf_msg h2 m2"
        using receivesD(2) [OF r, of "w\<lparr>hp := h1\<rparr>" m1] s a by auto
      then show ?thesis
        using Inr \<open>deref_hlp h1 p = Inr v\<close> s(4) by (auto simp: pop' f1 intro: mem_ext_trans)
    qed
  qed
qed

lemma receives_report:
  "receives (\<lambda>m w. Inr (m, w\<lparr>diags := diags w @ [d]\<rparr>)) (\<lambda>bs. Inr ([d], None))"
  unfolding receives_def
proof (intro allI impI)
  fix m and w :: world
  assume "wf_mem (hp w)" "wf_msg (hp w) m"
  then have "Inr (m, w\<lparr>diags := diags w @ [d]\<rparr>) = Inr (m, (receipt_world ([d], None) w)\<lparr>hp := hp w\<rparr>)"
    by (simp add: receipt_world_def)
  with \<open>wf_mem (hp w)\<close> \<open>wf_msg (hp w) m\<close>
  show "case Inr ([d], None) of Inl e \<Rightarrow> Inr (m, w\<lparr>diags := diags w @ [d]\<rparr>) = Inl e
     | Inr r \<Rightarrow> \<exists>m' h'. Inr (m, w\<lparr>diags := diags w @ [d]\<rparr>) = Inr (m', (receipt_world r w)\<lparr>hp := h'\<rparr>)
            \<and> wf_mem h' \<and> mem_ext {} (hp w) h' \<and> wf_msg h' m'"
    by auto
qed

lemma receives_prefix:
  assumes "receives f spec"
  shows "receives (\<lambda>m w. f m (w\<lparr>diags := diags w @ ds\<rparr>))
    (\<lambda>bs. rbind (spec bs) (\<lambda>(ds', r). Inr (ds @ ds', r)))"
  unfolding receives_def
proof (intro allI impI)
  fix m and w :: world
  let ?w = "w\<lparr>diags := diags w @ ds\<rparr>"
  assume a: "wf_mem (hp w)" "wf_msg (hp w) m" "0 \<le> rCounter w" "rCounter w + 1 < 2 ^ 31"
  have eq: "receipt_world (ds', r) ?w = receipt_world (ds @ ds', r) w" for ds' r
    by (simp add: receipt_world_def)
  show "case rbind (spec (msg_bytes (hp w) m)) (\<lambda>(ds', r). Inr (ds @ ds', r)) of
      Inl e \<Rightarrow> f m ?w = Inl e
    | Inr r \<Rightarrow> \<exists>m' h'. f m ?w = Inr (m', (receipt_world r w)\<lparr>hp := h'\<rparr>)
         \<and> wf_mem h' \<and> mem_ext {} (hp w) h' \<and> wf_msg h' m'"
    using receivesD [OF assms, of ?w m] a
    by (cases "spec (msg_bytes (hp w) m)") (auto simp: eq)
qed

lemma receives_if: "receives f S \<Longrightarrow> receives g T \<Longrightarrow>
  receives (\<lambda>m w. if c then f m w else g m w) (\<lambda>bs. if c then S bs else T bs)"
  by (cases c) auto

lemma app_receives:
  "receives ftpRecv (deliver FTP)" "receives telnetRecv (deliver Telnet)"
  "receives rdpRecv (deliver RDP)" "receives dnsRecv (deliver DNS)"
  using appRecv_receives [of FTP] appRecv_receives [of Telnet] appRecv_receives [of RDP]
    appRecv_receives [of DNS]
  by (simp_all add: ftpRecv_def telnetRecv_def rdpRecv_def dnsRecv_def)

lemma tcpRecv_receives: "receives tcpRecv recv_tcp"
proof -
  have "receives tcpRecv (\<lambda>bs. rbind (pop_hdr TCPHeader bs) (\<lambda>(hlp, bs).
      if hlp = FTP_ID then deliver FTP bs else if hlp = TELNET_ID then deliver Telnet bs
      else Inr ([TCPInvalid hlp], None)))"
    by (rule receives_layer [OF _ tcpRecv_def [unfolded Let_def]])
      (intro receives_if app_receives receives_report)
  then show ?thesis by (simp add: recv_tcp_def [abs_def])
qed

lemma udpRecv_receives: "receives udpRecv recv_udp"
proof -
  have "receives udpRecv (\<lambda>bs. rbind (pop_hdr UDPHeader bs) (\<lambda>(hlp, bs).
      if hlp = DNS_ID then deliver DNS bs else if hlp = RDP_ID then deliver RDP bs
      else Inr ([UDPInvalid hlp], None)))"
    by (rule receives_layer [OF _ udpRecv_def [unfolded Let_def]])
      (intro receives_if app_receives receives_report)
  then show ?thesis by (simp add: recv_udp_def [abs_def])
qed

lemma ipRecv_receives: "receives ipRecv recv_ip"
proof -
  have "receives ipRecv (\<lambda>bs. rbind (pop_hdr IPHeader bs) (\<lambda>(hlp, bs).
      if hlp = TCP_ID then recv_tcp bs else if hlp = UDP_ID then recv_udp bs
      else Inr ([IPInvalid hlp], None)))"
    by (rule receives_layer [OF _ ipRecv_def [unfolded Let_def]])
      (intro receives_if tcpRecv_receives udpRecv_receives receives_report)
  then show ?thesis by (simp add: recv_ip_def [abs_def])
qed

lemma ethernetRecv_receives: "receives ethernetRecv recv_eth"
proof -
  have "receives (\<lambda>m w. ipRecv m (if v \<noteq> IP_ID then w\<lparr>diags := diags w @ [EthInvalid v]\<rparr> else w))
      (\<lambda>bs. rbind (recv_ip bs) (\<lambda>(ds, r). Inr ((if v \<noteq> IP_ID then [EthInvalid v] else []) @ ds, r)))" for v
    using receives_prefix [OF ipRecv_receives, of "if v \<noteq> IP_ID then [EthInvalid v] else []"]
    by (cases "v = IP_ID") simp_all
  then have "receives ethernetRecv (\<lambda>bs. rbind (pop_hdr ethHeader bs) (\<lambda>(hlp, bs).
      rbind (recv_ip bs) (\<lambda>(ds, r). Inr ((if hlp \<noteq> IP_ID then [EthInvalid hlp] else []) @ ds, r))))"
    by (rule receives_layer [OF _ ethernetRecv_def [unfolded Let_def]])
  then show ?thesis by (simp add: recv_eth_def [abs_def])
qed

text \<open>The reference receiver inverts the wire format.\<close>

lemma recv_eth_wire:
  assumes "length other = 8" "length app_hlp = 4" "length bs \<le> 1024"
  shows "recv_eth (wire other a app_hlp bs) = Inr ([], Some (a, bs))"
proof -
  have app: "pop_app (app_header a) (encap app_hlp (undef_cells (otherInfo_len (app_header a))) bs) = bs"
    by (rule pop_app_encap) (simp add: assms sizeof_hdr_eq)
  then have del: "deliver a (encap app_hlp (undef_cells (otherInfo_len (app_header a))) bs) = Inr ([], Some (a, bs))"
    using assms(3) by (simp add: deliver_def)
  show ?thesis
    using assms(1) del
    by (cases a) (simp_all add: wire_def recv_eth_def recv_ip_def recv_tcp_def recv_udp_def pop_hdr_encap)
qed

text \<open>A datagram that arrives becomes a message with its (at most 4096) bytes.\<close>

lemma receive_message_spec:
  assumes "wf_mem (hp w)"
  obtains m h where "receive_message (Some bs) w = Inr (m, w\<lparr>hp := h\<rparr>)"
    "wf_mem h" "wf_msg h m" "msg_bytes h m = take BUFSIZE bs" "mem_ext {} (hp w) h"
proof -
  let ?h = "put (take BUFSIZE bs @ drop (length bs) (replicate BUFSIZE (Some 0))) (hp w)"
  let ?n = "min BUFSIZE (length bs)"
  have "memset (put (undef_cells BUFSIZE) (hp w)) (brk (hp w), 0) 0 BUFSIZE = Inr (put (replicate BUFSIZE (Some 0)) (hp w))"
    by (rule memset_put)
  then have r: "receive_message (Some bs) w = Inr (Message_new (brk (hp w), 0) (word_of_nat ?n), w\<lparr>hp := ?h\<rparr>)"
    by (simp add: receive_message_def alloc_put getUdpMesg_def recvfrom_put size_of_int_nat del: of_nat_min)
  have rd: "readable ?h (brk (hp w), 0) ?n" "cells ?h (brk (hp w), 0) ?n = take BUFSIZE bs"
    by (auto simp: readable_def cells_def min_def)
  have "?n < 2 ^ 31" by (simp add: BUFSIZE_def)
  from msg_new_spec [OF rd(1) this] rd(2) r assms show thesis
    by (intro that) auto
qed

section \<open>Applications by name\<close>

fun app_send :: "app \<Rightarrow> os \<Rightarrow> permessage \<Rightarrow> i32 \<Rightarrow> Message \<Rightarrow> world \<Rightarrow> (Message \<times> world) res" where
  "app_send FTP = ftpSend" | "app_send Telnet = telnetSend"
| "app_send RDP = rdpSend" | "app_send DNS = dnsSend"

lemma app_send_sends: "sends e pm 68 (app_send a e pm p) (wire fs a (int_cells p))"
proof -
  have "sends e pm n f enc \<Longrightarrow> n \<le> 68 \<Longrightarrow> sends e pm 68 f enc" for n f enc
    by (simp add: sends_def)
  then show ?thesis using app_sends [of e pm p] by (cases a) simp_all
qed

lemma length_wire_fs [simp]:
  "length (wire fs a (int_cells p) bs) = 48 + sizeof_hdr (app_header a) + length bs"
  by (simp add: length_wire)

lemma app_sendD:
  assumes "wf_mem (hp w)" "wf_msg (hp w) m" "length (msg_bytes (hp w) m) + 68 < 2 ^ 31"
  defines "dg \<equiv> \<lambda>a p. wire fs a (int_cells p) (msg_bytes (hp w) m)"
  shows "length (dg a p) \<le> 1024 \<Longrightarrow> \<exists>m' h'. app_send a e pm p m w
        = Inr (m', (net_send e pm (dg a p) w)\<lparr>hp := h'\<rparr>)
      \<and> wf_mem h' \<and> mem_ext {} (hp w) h' \<and> \<not> wf_msg h' m'"
    and "1024 < length (dg a p) \<Longrightarrow> app_send a e pm p m w = Inl OutOfBounds"
  using sendsD [OF app_send_sends [of e pm a p] assms(1,2) refl assms(3)] unfolding dg_def by blast+

text \<open>What a successful send put on the network.\<close>

lemma app_send_datagram:
  assumes "wf_mem (hp w)" "wf_msg (hp w) m" "app_send a e pm p m w = Inr (m', w')"
    and "length (msg_bytes (hp w) m) + 68 < 2 ^ 31" "sent w' = sent w @ [(dest, dg)]"
  shows "dg = wire fs a (int_cells p) (msg_bytes (hp w) m)" "length dg \<le> 1024"
proof -
  let ?dg = "wire fs a (int_cells p) (msg_bytes (hp w) m)"
  have fit: "length ?dg \<le> 1024"
    using app_sendD(2) [OF assms(1,2,4), of a p e pm] assms(3) by (cases "length ?dg \<le> 1024") auto
  from app_sendD(1) [OF assms(1,2,4) this, of e pm] assms(3,5) show "dg = ?dg"
    by (auto simp: net_send_def Let_def split: option.splits if_splits)
  with fit show "length dg \<le> 1024" by simp
qed

text \<open>What a worker does with a datagram the listening thread handed over.\<close>

definition receive_datagram :: "cell list option \<Rightarrow> world \<Rightarrow> (Message \<times> world) res" where
  "receive_datagram dg w = rbind (receive_message dg w) (\<lambda>(m, w). ethernetRecv m w)"

definition counter_ok :: "world \<Rightarrow> bool" where
  "counter_ok w \<longleftrightarrow> 0 \<le> rCounter w \<and> rCounter w + 1 < 2 ^ 31"

lemma receive_datagram_spec:
  assumes "wf_mem (hp w)" "counter_ok w"
  shows "case recv_eth (take BUFSIZE bs) of
      Inl e \<Rightarrow> receive_datagram (Some bs) w = Inl e
    | Inr r \<Rightarrow> \<exists>m' h'. receive_datagram (Some bs) w = Inr (m', (receipt_world r w)\<lparr>hp := h'\<rparr>)
        \<and> wf_mem h' \<and> mem_ext {} (hp w) h' \<and> wf_msg h' m'"
proof -
  obtain m h where m: "receive_message (Some bs) w = Inr (m, w\<lparr>hp := h\<rparr>)" "wf_mem h" "wf_msg h m"
    "msg_bytes h m = take BUFSIZE bs" "mem_ext {} (hp w) h"
    by (rule receive_message_spec [OF assms(1)])
  note r = receivesD [OF ethernetRecv_receives, of "w\<lparr>hp := h\<rparr>" m]
  show ?thesis
    using r m assms(2) mem_ext_trans [OF m(5)]
    by (fastforce simp: receive_datagram_def counter_ok_def split: sum.splits)
qed

section \<open>Samples\<close>

definition sample_pm :: permessage where
  "sample_pm = \<lparr>threads = ThreadPool_new 25, inUdpPort = 44444, destUdpPort = 45555, mySock = 3\<rparr>"

text \<open>The memory of the sample message, and nothing else.\<close>

definition sample_world :: world where
  "sample_world = \<lparr>sent = [], diags = [], hp = sample_mem, rCounter = 0, got = []\<rparr>"

lemma sample_world [simp]:
  "hp sample_world = sample_mem" "sent sample_world = []" "diags sample_world = []"
  "rCounter sample_world = 0" "got sample_world = []" "counter_ok sample_world"
  by (simp_all add: sample_world_def counter_ok_def)

definition sample_wire :: "cell list" where
  "sample_wire = wire fs FTP (int_cells FTP_ID) (map Some [1, 2, 3, 4, 5, 6, 7])"

section \<open>Properties\<close>

text \<open>C6: The send function of each application puts exactly one datagram on the network, in the wire
  format (application header, transport, IP, Ethernet, each with the length of what it carries),
  provided the datagram fits the 1024 byte buffer of \<open>ethernetSend\<close>, and leaves every live block
  of the caller's memory as it was.\<close>

theorem pm_send:
  assumes "wf_mem (hp w)" "wf_msg (hp w) m"
    and dg: "dg = wire fs a (int_cells p) (msg_bytes (hp w) m)" "length dg \<le> 1024"
  shows "\<exists>m' h'. app_send a e pm p m w = Inr (m', (net_send e pm dg w)\<lparr>hp := h'\<rparr>)
    \<and> wf_mem h' \<and> mem_ext {} (hp w) h'"
proof -
  have "length (msg_bytes (hp w) m) + 68 < 2 ^ 31" using dg by simp
  from app_sendD(1) [OF assms(1,2) this, of a p e pm] dg show ?thesis by blast
qed

theorem pm_send_witness:
  "\<exists>m' w'. ftpSend sample_os sample_pm FTP_ID sample_msg sample_world = Inr (m', w')
     \<and> sent w' = [(\<lparr>sin_port = htons 45555, sin_addr = 16777343\<rparr>, sample_wire)]"
proof -
  have dg: "sample_wire = wire fs FTP (int_cells FTP_ID) (msg_bytes (hp sample_world) sample_msg)"
    "length sample_wire \<le> 1024" by (simp_all add: sample_wire_def sample_msg(3))
  from pm_send [OF _ _ dg, where e = sample_os and pm = sample_pm] sample_msg(1,2) show ?thesis
    by (fastforce simp: net_send_def sample_os_def sample_pm_def Let_def)
qed

text \<open>After a send the message is not usable: the header \<open>ethernetSend\<close> put in front of it was a
  local variable, and the message still points to it.\<close>

theorem pm_send_dangling:
  assumes "wf_mem (hp w)" "wf_msg (hp w) m" "app_send a e pm p m w = Inr (m', w')"
    and "length (msg_bytes (hp w) m) + 68 < 2 ^ 31"
  shows "\<not> wf_msg (hp w') m'"
proof (cases "length (wire fs a (int_cells p) (msg_bytes (hp w) m)) \<le> 1024")
  case True
  from app_sendD(1) [OF assms(1,2,4) this, of e pm] assms(3)
  show ?thesis by auto
next
  case False
  then show ?thesis
    using app_sendD(2) [OF assms(1,2,4), of a p e pm] assms(3) by simp
qed

theorem pm_send_dangling_witness:
  "\<exists>m' w'. dnsSend sample_os sample_pm DNS_ID sample_msg sample_world = Inr (m', w') \<and> \<not> wf_msg (hp w') m'"
proof -
  have small: "length (msg_bytes (hp sample_world) sample_msg) + 68 < 2 ^ 31"
    and fit: "length (wire fs DNS (int_cells DNS_ID) (msg_bytes (hp sample_world) sample_msg)) \<le> 1024"
    by (simp_all add: sample_msg(3))
  obtain m' w' where s: "app_send DNS sample_os sample_pm DNS_ID sample_msg sample_world = Inr (m', w')"
    using app_sendD(1) [OF _ _ small fit, of sample_os sample_pm] sample_msg(1,2) by auto
  with pm_send_dangling [OF _ _ s small] sample_msg(1,2) show ?thesis by auto
qed

text \<open>A message whose datagram does not fit 1024 bytes (960 bytes of FTP, Telnet or DNS payload,
  956 of RDP) makes \<open>ethernetSend\<close> write past its buffer.\<close>

theorem pm_send_overflow:
  assumes "wf_mem (hp w)" "wf_msg (hp w) m" "length (msg_bytes (hp w) m) + 68 < 2 ^ 31"
    and "976 < sizeof_hdr (app_header a) + length (msg_bytes (hp w) m)"
  shows "app_send a e pm p m w = Inl OutOfBounds"
  by (rule app_sendD(2) [OF assms(1-3)]) (use assms(4) in simp)

theorem pm_send_overflow_witness:
  "ftpSend sample_os sample_pm FTP_ID (Message_new (0, 0) 961)
     (sample_world\<lparr>hp := put (replicate 1000 (Some 7)) empty_mem\<rparr>) = Inl OutOfBounds"
proof -
  let ?h = "put (replicate 1000 (Some 7)) empty_mem"
  have "readable ?h (0, 0) 961" by (simp add: readable_def blk_put empty_mem_def)
  note m = msg_new_spec [OF this] \<open>readable ?h (0, 0) 961\<close>
  show ?thesis
    using pm_send_overflow [of "sample_world\<lparr>hp := ?h\<rparr>" "Message_new (0, 0) 961" FTP
        sample_os sample_pm FTP_ID] m
    by simp
qed

text \<open>C5: The receive functions, from \<open>ethernetRecv\<close> up to the applications, do to a message what the
  reference receiver says of its bytes, on every branch: they fail with the same fault, or print
  the same lines, count the same application once, put the same payload in its buffer, and leave
  the rest of memory alone.\<close>

theorem pm_receive:
  assumes "wf_mem (hp w)" "wf_msg (hp w) m" "counter_ok w"
  shows "case recv_eth (msg_bytes (hp w) m) of
      Inl e \<Rightarrow> ethernetRecv m w = Inl e
    | Inr r \<Rightarrow> \<exists>m' h'. ethernetRecv m w = Inr (m', (receipt_world r w)\<lparr>hp := h'\<rparr>)
        \<and> wf_mem h' \<and> mem_ext {} (hp w) h' \<and> wf_msg h' m'"
  using receivesD [OF ethernetRecv_receives assms(1,2)] assms(3)
  by (cases "recv_eth (msg_bytes (hp w) m)") (auto simp: counter_ok_def)

theorem pm_receive_witness:
  "ethernetRecv sample_msg sample_world = Inl NullDeref"
  using pm_receive [of sample_world sample_msg] sample_msg
  by (simp add: recv_eth_def pop_hdr_def)

text \<open>Loop-back: a datagram one instance sends for an application, when another instance receives
  it, is delivered to that application, once, with exactly the bytes that were sent, and nothing is
  reported.\<close>

theorem pm_loopback:
  assumes "wf_mem (hp w)" "wf_msg (hp w) m" "app_send a e pm p m w = Inr (m', w')"
    and "length (msg_bytes (hp w) m) + 68 < 2 ^ 31" "sent w' = sent w @ [(dest, dg)]"
    and "wf_mem (hp v)" "counter_ok v"
  shows "\<exists>m2 v2. receive_datagram (Some dg) v = Inr (m2, v2)
    \<and> got v2 = got v @ [(a, msg_bytes (hp w) m)] \<and> rCounter v2 = rCounter v + 1 \<and> diags v2 = diags v"
proof -
  let ?bs = "msg_bytes (hp w) m"
  let ?dg = "wire fs a (int_cells p) ?bs"
  have fit: "length ?dg \<le> 1024" and "dg = ?dg"
    using app_send_datagram [OF assms(1-5)] by simp_all
  moreover have "recv_eth ?dg = Inr ([], Some (a, ?bs))"
    by (rule recv_eth_wire) (use fit in auto)
  moreover have "take BUFSIZE ?dg = ?dg" using fit by (simp add: BUFSIZE_def)
  ultimately show ?thesis
    using receive_datagram_spec [OF assms(6,7), of dg] by (auto simp: receipt_world_def)
qed

theorem pm_loopback_witness:
  "\<exists>m' w'. telnetSend sample_os sample_pm TELNET_ID sample_msg sample_world = Inr (m', w')
     \<and> (\<exists>m2 v2. receive_datagram (Some (snd (last (sent w')))) sample_world = Inr (m2, v2)
          \<and> got v2 = [(Telnet, map Some [1, 2, 3, 4, 5, 6, 7])] \<and> rCounter v2 = 1)"
proof -
  have small: "length (msg_bytes (hp sample_world) sample_msg) + 68 < 2 ^ 31"
    and fit: "length (wire fs Telnet (int_cells TELNET_ID) (msg_bytes (hp sample_world) sample_msg)) \<le> 1024"
    by (simp_all add: sample_msg(3))
  obtain m' h' where s: "app_send Telnet sample_os sample_pm TELNET_ID sample_msg sample_world = Inr (m',
      (net_send sample_os sample_pm (wire fs Telnet (int_cells TELNET_ID)
         (msg_bytes (hp sample_world) sample_msg)) sample_world)\<lparr>hp := h'\<rparr>)"
    using app_sendD(1) [OF _ _ small fit, of sample_os sample_pm] sample_msg(1,2) by auto
  let ?w' = "(net_send sample_os sample_pm (wire fs Telnet (int_cells TELNET_ID)
         (msg_bytes (hp sample_world) sample_msg)) sample_world)\<lparr>hp := h'\<rparr>"
  have sent: "sent ?w' = sent sample_world @ [(fst (last (sent ?w')), snd (last (sent ?w')))]"
    by (simp add: net_send_def sample_os_def sample_pm_def Let_def)
  from pm_loopback [OF _ _ s small sent, of sample_world] sample_msg
  have "\<exists>m2 v2. receive_datagram (Some (snd (last (sent ?w')))) sample_world = Inr (m2, v2)
          \<and> got v2 = [(Telnet, map Some [1, 2, 3, 4, 5, 6, 7])] \<and> rCounter v2 = 1"
    by auto
  with s show ?thesis by auto
qed

text \<open>A datagram too short for an Ethernet header makes the receiver read through a null pointer;
  one whose payload is more than 1024 bytes, which the 4096 byte receive buffer lets through, makes
  the application write past its buffer.\<close>

theorem pm_bad_sizes:
  assumes "wf_mem (hp w)" "counter_ok w"
  shows "(length dg < 16 \<longrightarrow> receive_datagram (Some dg) w = Inl NullDeref)
    \<and> (\<forall>other app_hlp a bs. dg = wire other a app_hlp bs \<longrightarrow> length other = 8 \<longrightarrow> length app_hlp = 4 \<longrightarrow>
         1024 < length bs \<longrightarrow> length dg \<le> 4096 \<longrightarrow> receive_datagram (Some dg) w = Inl OutOfBounds)"
proof (intro conjI allI impI)
  assume "length dg < 16"
  then show "receive_datagram (Some dg) w = Inl NullDeref"
    using receive_datagram_spec [OF assms, of dg] by (simp add: recv_eth_def pop_hdr_def BUFSIZE_def)
next
  fix other app_hlp a bs
  assume d: "dg = wire other a app_hlp bs" "length other = 8" "length app_hlp = 4" "1024 < length bs"
    "length dg \<le> 4096"
  have app: "pop_app (app_header a) (encap app_hlp (undef_cells (otherInfo_len (app_header a))) bs) = bs"
    by (rule pop_app_encap) (simp add: d sizeof_hdr_eq)
  have "recv_eth dg = Inl OutOfBounds"
    using d(2,4) app
    by (cases a) (simp_all add: d(1) wire_def recv_eth_def recv_ip_def recv_tcp_def recv_udp_def
        pop_hdr_encap deliver_def Let_def)
  moreover have "take BUFSIZE dg = dg" using d(5) by (simp add: BUFSIZE_def)
  ultimately show "receive_datagram (Some dg) w = Inl OutOfBounds"
    using receive_datagram_spec [OF assms, of dg] by simp
qed

theorem pm_bad_sizes_witness:
  "receive_datagram (Some [Some 1]) sample_world = Inl NullDeref
   \<and> receive_datagram (Some (wire fs RDP (int_cells 7) (replicate 2000 (Some 0)))) sample_world
       = Inl OutOfBounds"
  using pm_bad_sizes [of sample_world "[Some 1]"]
    pm_bad_sizes [of sample_world "wire fs RDP (int_cells 7) (replicate 2000 (Some 0))"] sample_msg(1)
  by simp

text \<open>A wrong protocol in the Ethernet header is reported and nothing else: the message goes up to
  IP and to the application all the same.\<close>

theorem pm_bad_ethernet:
  assumes "wf_mem (hp w)" "counter_ok w" "length other = 8" "v \<noteq> IP_ID"
    and "recv_ip dg = Inr (ds, r)" "length dg + 16 \<le> 4096"
  shows "\<exists>m' w'. receive_datagram (Some (encap (int_cells v) other dg)) w = Inr (m', w')
    \<and> diags w' = diags w @ EthInvalid v # ds
    \<and> got w' = got w @ (case r of None \<Rightarrow> [] | Some x \<Rightarrow> [x])"
proof -
  let ?dg = "encap (int_cells v) other dg"
  have "recv_eth ?dg = Inr (EthInvalid v # ds, r)"
    using assms(3-5) by (simp add: recv_eth_def pop_hdr_encap)
  moreover have "take BUFSIZE ?dg = ?dg" using assms(3,6) by (simp add: BUFSIZE_def)
  ultimately show ?thesis
    using receive_datagram_spec [OF assms(1,2), of ?dg] by (auto simp: receipt_world_def)
qed

theorem pm_bad_ethernet_witness:
  "\<exists>m' w'. receive_datagram (Some (encap (int_cells 9) fs (drop 16 sample_wire))) sample_world = Inr (m', w')
    \<and> diags w' = [EthInvalid 9] \<and> got w' = [(FTP, map Some [1, 2, 3, 4, 5, 6, 7])]"
proof -
  have "recv_ip (drop 16 sample_wire) = Inr ([], Some (FTP, map Some [1, 2, 3, 4, 5, 6, 7]))"
    by code_simp
  from pm_bad_ethernet [OF _ _ _ _ this, of sample_world fs 9] sample_msg(1)
  show ?thesis by (simp add: sample_wire_def)
qed

text \<open>An error from \<open>recvfrom\<close> goes unnoticed here too: the -1 becomes the length of the message
  that is handed to the pool, and the worker that strips it reads far beyond the buffer.\<close>

theorem pm_recvfrom_error:
  assumes "wf_mem (hp w)"
  shows "receive_datagram None w = Inl OutOfBounds"
proof -
  let ?h = "put (replicate BUFSIZE (Some 0)) (hp w)"
  let ?m = "Message_new (brk (hp w), 0) (size_of_int (-1))"
  have "receive_message None w = Inr (?m, w\<lparr>hp := ?h\<rparr>)"
    by (simp add: receive_message_def alloc_put memset_put getUdpMesg_def recvfrom_def)
  moreover have "msgStripHdr ?h ?m 16 = Inl OutOfBounds"
    by (rule msgStripHdr_minus_one [where cs = "replicate BUFSIZE (Some 0)"])
      (use assms in \<open>simp_all add: BUFSIZE_def\<close>)
  ultimately show ?thesis by (simp add: receive_datagram_def ethernetRecv_def)
qed

theorem pm_recvfrom_error_witness: "receive_datagram None sample_world = Inl OutOfBounds"
  by (rule pm_recvfrom_error) (simp add: sample_msg(1))

text \<open>The constructor exits when the port cannot be opened, and otherwise has a pool of 25
  workers, all idle at the start of their loop, with an empty queue.\<close>

theorem pm_constructor:
  "PerMessage_new e sourcePort destPort =
    (if 0 \<le> os_socket e \<and> os_bind e (os_socket e) \<lparr>sin_port = htons (ucast sourcePort), sin_addr = 0\<rparr> = 0
     then Inr \<lparr>threads = \<lparr>jobs = [], threadCount = 25, availableThreads = 25, terminate = False,
                 cvLock = None, pc = (\<lambda>_. Check), posted = [], started = []\<rparr>,
               inUdpPort = sourcePort, destUdpPort = destPort, mySock = os_socket e\<rparr>
     else Inl (ExitProcess 1))"
  by (simp add: PerMessage_new_def udpSocket_def ThreadPool_new_def Let_def)

end
