(* ===== verification/Jobs.thy ===== *)
theory Jobs
  imports PerMessage
begin

text \<open>
  The running process per message program: the listening thread and the workers of its pool,
  under any interleaving. Every datagram is received exactly once, by some worker, whatever the
  schedule, and the workers come to rest with nothing left to do. The call of the job's function
  is one step: it works on a message no other thread has, and the one thing the jobs share, the
  increment of \<open>rCounter\<close>, is looked at by itself in the theory \<open>Counter\<close>.
\<close>

section \<open>Steps\<close>

definition job_turn :: "Message wpc \<Rightarrow> world \<Rightarrow> world res" where
  "job_turn l w = (case l of Running m \<Rightarrow> rbind (ethernetRecv m w) (\<lambda>(m, w). Inr w) | _ \<Rightarrow> Inr w)"

datatype pm_label = Datagram "cell list option" | Turn nat | Spurious nat

inductive pm_step :: "permessage \<times> world \<Rightarrow> pm_label \<Rightarrow> (permessage \<times> world) res \<Rightarrow> bool" where
  listen: "listenOnSocket wk dg pm w = Inr (Some s) \<Longrightarrow> pm_step (pm, w) (Datagram dg) (Inr s)"
| turn: "t < threadCount (threads pm) \<Longrightarrow> worker_step t (threads pm) = Some p \<Longrightarrow>
    pm_step (pm, w) (Turn t) (rbind (job_turn (pc (threads pm) t) w) (\<lambda>w. Inr (pm\<lparr>threads := p\<rparr>, w)))"
| spurious: "t \<in> set (waiters (threads pm)) \<Longrightarrow>
    pm_step (pm, w) (Spurious t) (Inr (pm\<lparr>threads := goto t Woken (threads pm)\<rparr>, w))"

inductive pm_run :: "permessage \<times> world \<Rightarrow> pm_label list \<Rightarrow> (permessage \<times> world) res \<Rightarrow> bool" where
  stop: "pm_run s [] (Inr s)"
| fault: "pm_step s l (Inl e) \<Longrightarrow> pm_run s [l] (Inl e)"
| step: "pm_step s l (Inr t) \<Longrightarrow> pm_run t ls r \<Longrightarrow> pm_run s (l # ls) r"

inductive_simps pm_run_Nil: "pm_run s [] r"

section \<open>The account\<close>

text \<open>What a receipt adds to the world, what the world shows so far, and what the pending messages
  will add.\<close>

fun tally :: "receipt res \<Rightarrow> (diag + app \<times> cell list) multiset" where
  "tally (Inl e) = {#}"
| "tally (Inr (ds, r)) = image_mset Inl (mset ds) + (case r of None \<Rightarrow> {#} | Some x \<Rightarrow> {#Inr x#})"

definition world_tally :: "world \<Rightarrow> (diag + app \<times> cell list) multiset" where
  "world_tally w = image_mset Inl (mset (diags w)) + image_mset Inr (mset (got w))"

definition fates :: "permessage \<times> world \<Rightarrow> receipt res multiset" where
  "fates = (\<lambda>(pm, w). image_mset (\<lambda>m. recv_eth (msg_bytes (hp w) m)) (pending (threads pm)))"

definition pm_account :: "permessage \<times> world \<Rightarrow> (diag + app \<times> cell list) multiset" where
  "pm_account s = world_tally (snd s) + (\<Sum>x\<in>#fates s. tally x)"

fun datagram_fate :: "pm_label \<Rightarrow> receipt res multiset" where
  "datagram_fate (Datagram (Some dg)) = {# recv_eth (take BUFSIZE dg) #}"
| "datagram_fate l = {#}"

fun good_label :: "pm_label \<Rightarrow> bool" where
  "good_label (Datagram dg) \<longleftrightarrow> dg \<noteq> None" | "good_label l \<longleftrightarrow> True"

fun is_datagram :: "pm_label \<Rightarrow> bool" where
  "is_datagram (Datagram dg) = True" | "is_datagram l = False"

definition pm_inv :: "nat \<Rightarrow> permessage \<times> world \<Rightarrow> bool" where
  "pm_inv k = (\<lambda>(pm, w). pool_inv (threads pm) \<and> 0 < threadCount (threads pm) \<and> \<not> terminate (threads pm)
     \<and> wf_mem (hp w) \<and> (\<forall>m. m \<in># pending (threads pm) \<longrightarrow> wf_msg (hp w) m)
     \<and> 0 \<le> rCounter w \<and> rCounter w + int (size (pending (threads pm))) + int k < 2 ^ 31)"

lemma world_tally_receipt:
  "world_tally ((receipt_world r w)\<lparr>hp := h\<rparr>) = world_tally w + tally (Inr r)"
  by (cases r) (simp add: world_tally_def receipt_world_def split: option.splits)

lemma fates_keep:
  assumes "mem_ext {} (hp w) (hp w')" "\<And>m. m \<in># M \<Longrightarrow> wf_msg (hp w) m"
  shows "image_mset (\<lambda>m. recv_eth (msg_bytes (hp w') m)) M = image_mset (\<lambda>m. recv_eth (msg_bytes (hp w) m)) M"
    and "m \<in># M \<Longrightarrow> wf_msg (hp w') m"
  using assms msg.keep by (auto intro: image_mset_cong)

lemma worker_terminate:
  "worker_step t p = Some p' \<Longrightarrow> terminate p' = terminate p"
  by (cases "pc p t") (auto simp: worker_defs split: list.splits if_splits)

text \<open>A worker's turn.\<close>

lemma turn_step:
  assumes inv: "pm_inv k (pm, w)" and t: "t < threadCount (threads pm)" "worker_step t (threads pm) = Some p"
  shows "case job_turn (pc (threads pm) t) w of
      Inl e \<Rightarrow> Inl e \<in># fates (pm, w)
    | Inr w' \<Rightarrow> pm_inv k (pm\<lparr>threads := p\<rparr>, w') \<and> pm_account (pm\<lparr>threads := p\<rparr>, w') = pm_account (pm, w)
        \<and> fates (pm\<lparr>threads := p\<rparr>, w') \<subseteq># fates (pm, w)"
proof -
  let ?p = "threads pm"
  have I: "wf_mem (hp w)" "\<And>m. m \<in># pending ?p \<Longrightarrow> wf_msg (hp w) m" "0 \<le> rCounter w"
    "rCounter w + int (size (pending ?p)) + int k < 2 ^ 31"
    using inv by (auto simp: pm_inv_def)
  have pool: "pool_inv p" "0 < threadCount p" "\<not> terminate p"
    using inv t worker_avail(2) [OF t(2)] worker_terminate [OF t(2)] pool_step_inv [OF pool_step.worker [OF t]]
    by (simp_all add: pm_inv_def)
  note pend = worker_pending [OF t(2,1)]
  show ?thesis
  proof (cases "\<exists>m. pc ?p t = Running m")
    case False
    then have "finishes (pc ?p t) = {#}" "job_turn (pc ?p t) w = Inr w"
      by (cases "pc ?p t"; simp add: job_turn_def)+
    with pend I pool show ?thesis by (simp add: pm_inv_def pm_account_def fates_def)
  next
    case True
    then obtain m where m: "pc ?p t = Running m" by blast
    with pend have pend: "pending ?p = add_mset m (pending p)" by simp
    have wf: "wf_msg (hp w) m" using I(2) pend by simp
    have "counter_ok w" using I(3,4) pend by (simp add: counter_ok_def)
    note rcv = receivesD [OF ethernetRecv_receives I(1) wf I(3)]
    have c: "rCounter w + 1 < 2 ^ 31" using I(4) pend by simp
    show ?thesis
    proof (cases "recv_eth (msg_bytes (hp w) m)")
      case (Inl e)
      with rcv(1) [OF c Inl] show ?thesis by (simp add: m job_turn_def fates_def pend)
    next
      case (Inr x)
      obtain m' h' where x: "ethernetRecv m w = Inr (m', (receipt_world x w)\<lparr>hp := h'\<rparr>)"
        "wf_mem h'" "mem_ext {} (hp w) h'"
        using rcv(2) [OF c Inr] by blast
      let ?w = "(receipt_world x w)\<lparr>hp := h'\<rparr>"
      have keep: "image_mset (\<lambda>m. recv_eth (msg_bytes h' m)) (pending p)
          = image_mset (\<lambda>m. recv_eth (msg_bytes (hp w) m)) (pending p)"
        "\<And>m. m \<in># pending p \<Longrightarrow> wf_msg h' m"
        using fates_keep [of w ?w "pending p"] x(3) I(2) pend by auto
      have "rCounter w \<le> rCounter ?w" "rCounter ?w \<le> rCounter w + 1"
        by (auto simp: receipt_world_def split: prod.splits option.splits)
      then have "pm_inv k (pm\<lparr>threads := p\<rparr>, ?w)"
        using pool x(2) keep(2) I(3,4) pend by (simp add: pm_inv_def)
      moreover have "pm_account (pm\<lparr>threads := p\<rparr>, ?w) = pm_account (pm, w)"
        using Inr by (simp add: pm_account_def fates_def keep(1) pend world_tally_receipt)
      ultimately show ?thesis
        using x(1) by (simp add: m job_turn_def fates_def keep(1) pend)
    qed
  qed
qed

text \<open>The listening thread hands a datagram to the pool.\<close>

lemma listen_step:
  assumes inv: "pm_inv (Suc k) (pm, w)" and l: "listenOnSocket wk (Some bs) pm w = Inr (Some s)"
  shows "pm_inv k s" "fates s = add_mset (recv_eth (take BUFSIZE bs)) (fates (pm, w))"
    "world_tally (snd s) = world_tally w"
proof -
  let ?p = "threads pm"
  have I: "wf_mem (hp w)" "\<And>m. m \<in># pending ?p \<Longrightarrow> wf_msg (hp w) m" "0 \<le> rCounter w"
    "rCounter w + int (size (pending ?p)) + 1 + int k < 2 ^ 31" "pool_inv ?p" "0 < threadCount ?p"
    "\<not> terminate ?p"
    using inv by (auto simp: pm_inv_def)
  obtain m h where m: "receive_message (Some bs) w = Inr (m, w\<lparr>hp := h\<rparr>)" "wf_mem h" "wf_msg h m"
    "msg_bytes h m = take BUFSIZE bs" "mem_ext {} (hp w) h"
    by (rule receive_message_spec [OF I(1)])
  obtain p where p: "dispatch_thread m wk ?p = Some p" and s: "s = (pm\<lparr>threads := p\<rparr>, w\<lparr>hp := h\<rparr>)"
    using l by (auto simp: listenOnSocket_def m(1) split: option.splits)
  have pend: "pending p = add_mset m (pending ?p)" by (rule dispatch_pending [OF p])
  have pool: "pool_inv p" "threadCount p = threadCount ?p" "terminate p = terminate ?p"
    using dispatch_pool_inv [OF p I(5)] pool_step_threadCount [OF pool_step.dispatch [OF p]] p
    by (auto simp: dispatch_thread_def notify_one_def goto_def split: if_splits option.splits)
  have keep: "image_mset (\<lambda>m. recv_eth (msg_bytes h m)) (pending ?p)
      = image_mset (\<lambda>m. recv_eth (msg_bytes (hp w) m)) (pending ?p)"
    "\<And>m. m \<in># pending ?p \<Longrightarrow> wf_msg h m"
    using fates_keep [of w "w\<lparr>hp := h\<rparr>" "pending ?p"] m(5) I(2) by auto
  show "pm_inv k s"
    using pool I m(2,3) keep(2) by (auto simp: s pm_inv_def pend)
  show "fates s = add_mset (recv_eth (take BUFSIZE bs)) (fates (pm, w))"
    by (simp add: s fates_def pend keep(1) m(4))
  show "world_tally (snd s) = world_tally w" by (simp add: s world_tally_def)
qed

lemma pm_step_inv:
  assumes "pm_inv (if is_datagram l then Suc k else k) s" "pm_step s l r" "good_label l"
  shows "case r of Inl e \<Rightarrow> Inl e \<in># fates s
    | Inr t \<Rightarrow> pm_inv k t \<and> pm_account t = pm_account s + (\<Sum>x\<in>#datagram_fate l. tally x)
        \<and> fates t \<subseteq># fates s + datagram_fate l"
  using assms(2)
proof (cases rule: pm_step.cases)
  case (listen wk dg pm w s')
  then obtain bs where bs: "dg = Some bs" using assms(3) by auto
  have "pm_inv (Suc k) (pm, w)" "listenOnSocket wk (Some bs) pm w = Inr (Some s')"
    using assms(1) listen bs by simp_all
  note ls = listen_step [OF this]
  show ?thesis
    using ls listen bs by (simp add: pm_account_def)
next
  case (turn t pm p w)
  have "pm_inv k (pm, w)" using assms(1) turn by simp
  note ts = turn_step [OF this turn(4,5)]
  show ?thesis
    using ts turn by (cases "job_turn (pc (threads pm) t) w") simp_all
next
  case (spurious t pm w)
  let ?p = "threads pm" and ?q = "goto t Woken (threads pm)"
  have t: "t < threadCount ?p" "pc ?p t = Waiting" using spurious by auto
  have inv: "pm_inv k (pm, w)" using assms(1) spurious by simp
  have pend: "pending ?q = pending ?p" by (rule wake_pending [OF t])
  have "pool_inv ?q" using inv t by (intro wake_pool_inv) (simp_all add: pm_inv_def)
  then show ?thesis
    using spurious inv by (simp add: pm_inv_def pm_account_def fates_def pend) (simp add: goto_def)
qed

definition datagrams :: "pm_label list \<Rightarrow> nat" where
  "datagrams ls = length (filter is_datagram ls)"

definition datagrams_fate :: "pm_label list \<Rightarrow> receipt res multiset" where
  "datagrams_fate ls = (\<Sum>l\<leftarrow>ls. datagram_fate l)"

lemma datagrams_simps [simp]:
  "datagrams [] = 0" "datagrams (l # ls) = (if is_datagram l then Suc (datagrams ls) else datagrams ls)"
  "datagrams_fate [] = {#}" "datagrams_fate (l # ls) = datagram_fate l + datagrams_fate ls"
  by (simp_all add: datagrams_def datagrams_fate_def)

lemma pm_run_inv:
  assumes "pm_run s ls r" "pm_inv (k + datagrams ls) s" "list_all good_label ls"
  shows "case r of Inl e \<Rightarrow> Inl e \<in># fates s + datagrams_fate ls
    | Inr t \<Rightarrow> pm_inv k t \<and> pm_account t = pm_account s + (\<Sum>x\<in>#datagrams_fate ls. tally x)
        \<and> fates t \<subseteq># fates s + datagrams_fate ls"
  using assms
proof (induction arbitrary: k rule: pm_run.induct)
  case (stop s)
  then show ?case by simp
next
  case (fault s l e)
  then show ?case using pm_step_inv [OF _ fault(1), of k] by (simp split: if_splits)
next
  case (step s l t ls r)
  have s: "pm_inv (k + datagrams ls) t" "pm_account t = pm_account s + (\<Sum>x\<in>#datagram_fate l. tally x)"
    "fates t \<subseteq># fates s + datagram_fate l"
    using pm_step_inv [OF _ step(1), of "k + datagrams ls"] step.prems by (simp_all split: if_splits)
  have sub: "fates t + datagrams_fate ls \<subseteq># fates s + datagrams_fate (l # ls)"
    using s(3) by (simp add: ac_simps)
  show ?case
  proof (cases r)
    case (Inl e)
    then show ?thesis using step.IH [OF s(1)] step.prems(2) mset_subset_eqD [OF sub] by simp
  next
    case (Inr t')
    then show ?thesis
      using step.IH [OF s(1)] step.prems(2) s(2) subset_mset.order_trans [OF _ sub]
      by (simp add: add.assoc)
  qed
qed

text \<open>From any state in which no pending datagram is doomed, the workers finish.\<close>

lemma pm_drains:
  assumes "pm_inv k s" "\<And>e. Inl e \<notin># fates s"
  shows "\<exists>ls t. pm_run s ls (Inr t) \<and> datagrams ls = 0 \<and> list_all good_label ls
    \<and> pending (threads (fst t)) = {#} \<and> world_tally (snd t) = pm_account s"
  using assms
proof (induction "pool_work (threads (fst s))" arbitrary: s rule: less_induct)
  case less
  obtain pm w where s: "s = (pm, w)" by (cases s)
  let ?p = "threads pm"
  have pool: "pool_inv ?p" "0 < threadCount ?p" "\<not> terminate ?p"
    using less.prems(1) by (simp_all add: s pm_inv_def)
  show ?case
  proof (cases "\<exists>t<threadCount ?p. \<exists>p. worker_step t ?p = Some p")
    case False
    then have "pending ?p = {#}" using stuck_pending [OF pool] by fastforce
    then show ?thesis
      using pm_run.stop [of s] by (intro exI [of _ "[]"] exI [of _ s]) (simp add: s pm_account_def fates_def)
  next
    case True
    then obtain t p where t: "t < threadCount ?p" "worker_step t ?p = Some p" by blast
    note st = turn_step [OF less.prems(1) [unfolded s] t]
    obtain w' where w': "job_turn (pc ?p t) w = Inr w'"
      using st less.prems(2) by (cases "job_turn (pc ?p t) w") (auto simp: s)
    let ?s' = "(pm\<lparr>threads := p\<rparr>, w')"
    have inv: "pm_inv k ?s'" "pm_account ?s' = pm_account s" "\<And>e. Inl e \<notin># fates ?s'"
      using st less.prems(2) mset_subset_eqD by (fastforce simp: w' s)+
    have "pool_work (threads (fst ?s')) < pool_work (threads (fst s))"
      using worker_work [OF t(2,1)] by (simp add: s)
    from less.hyps [OF this inv(1,3)] inv(2) obtain ls t' where run: "pm_run ?s' ls (Inr t')"
      "datagrams ls = 0" "list_all good_label ls" "pending (threads (fst t')) = {#}"
      "world_tally (snd t') = pm_account s" by auto
    have "pm_step s (Turn t) (Inr ?s')"
      using pm_step.turn [OF t, of w] w' by (simp add: s)
    then show ?thesis
      using run by (intro exI [of _ "Turn t # ls"] exI [of _ t']) (auto intro: pm_run.step)
  qed
qed

section \<open>Samples\<close>

lemma pm_run_append:
  "pm_run s ls (Inr t) \<Longrightarrow> pm_run t ls' r \<Longrightarrow> pm_run s (ls @ ls') r"
  by (induction s ls "Inr t :: (permessage \<times> world) res" rule: pm_run.induct) (auto intro: pm_run.step)

lemma datagrams_append: "datagrams (ls @ ls') = datagrams ls + datagrams ls'"
  by (simp add: datagrams_def)

lemma datagrams_fate_append: "datagrams_fate (ls @ ls') = datagrams_fate ls + datagrams_fate ls'"
  by (simp add: datagrams_fate_def)

lemma no_datagrams: "datagrams ls = 0 \<Longrightarrow> datagrams_fate ls = {#}"
proof (induction ls)
  case (Cons l ls)
  then show ?case by (cases l) auto
qed simp

lemma sample_pending: "pending (threads sample_pm) = {#}"
  by (simp add: sample_pm_def ThreadPool_new_def pending_def)

lemma sample_fates [simp]: "fates (sample_pm, sample_world) = {#}"
  by (simp add: fates_def sample_pending)

lemma sample_pm_inv: "pm_inv 9 (sample_pm, sample_world)"
  using pool_inv_init [of 25] sample_pending sample_msg(1)
  by (simp add: pm_inv_def) (simp add: sample_pm_def ThreadPool_new_def)

lemma sample_listen:
  obtains s where "listenOnSocket None (Some dg) sample_pm sample_world = Inr (Some s)"
proof -
  obtain m h where m: "receive_message (Some dg) sample_world = Inr (m, sample_world\<lparr>hp := h\<rparr>)"
    by (rule receive_message_spec [of sample_world dg]) (simp_all add: sample_msg(1))
  have "dispatch_thread m None (threads sample_pm) \<noteq> None"
    by (simp add: dispatch_thread_def valid_wake_def waiters_Nil sample_pm_def ThreadPool_new_def)
  then show thesis using m that by (auto simp: listenOnSocket_def)
qed

section \<open>Properties\<close>

text \<open>C1: Every datagram is received exactly once: for any run of the listening thread and the
  workers, under any interleaving and any choice of whom \<open>notify_one\<close> wakes, from a state with no
  pending message to one with none, the lines printed and the payloads delivered are together
  those of the datagrams that arrived, each received by the reference receiver.\<close>

theorem pm_exactly_once:
  assumes "pm_run s ls (Inr t)" "pm_inv (datagrams ls) s" "list_all good_label ls"
    and "pending (threads (fst s)) = {#}" "pending (threads (fst t)) = {#}"
  shows "world_tally (snd t) = world_tally (snd s) + (\<Sum>x\<in>#datagrams_fate ls. tally x)"
  using pm_run_inv [OF assms(1), of 0] assms(2-5)
  by (simp add: pm_account_def fates_def split: prod.splits)

theorem pm_exactly_once_witness:
  "\<exists>ls t. pm_run (sample_pm, sample_world) (Datagram (Some sample_wire) # ls) (Inr t)
     \<and> world_tally (snd t) = {# Inr (FTP, map Some [1, 2, 3, 4, 5, 6, 7]) #}"
proof -
  let ?s = "(sample_pm, sample_world)" and ?l = "Datagram (Some sample_wire)"
  obtain s where l: "listenOnSocket None (Some sample_wire) sample_pm sample_world = Inr (Some s)"
    by (rule sample_listen)
  have "pm_inv (Suc 8) ?s" using sample_pm_inv by simp
  note s = listen_step [OF this l]
  have fate: "recv_eth (take BUFSIZE sample_wire) = Inr ([], Some (FTP, map Some [1, 2, 3, 4, 5, 6, 7]))"
    using recv_eth_wire [of fs "int_cells FTP_ID" "map Some [1, 2, 3, 4, 5, 6, 7]" FTP]
    by (simp add: sample_wire_def BUFSIZE_def)
  have "\<And>e. Inl e \<notin># fates s" by (simp add: s(2) fate)
  from pm_drains [OF s(1) this] obtain ls t where run: "pm_run s ls (Inr t)" "datagrams ls = 0"
    "list_all good_label ls" "pending (threads (fst t)) = {#}" by blast
  have full: "pm_run ?s (?l # ls) (Inr t)"
    using pm_step.listen [OF l] run(1) by (rule pm_run.step)
  have inv: "pm_inv (datagrams (?l # ls)) ?s"
    using sample_pm_inv run(2) by (simp add: pm_inv_def)
  have "world_tally (snd t) = {# Inr (FTP, map Some [1, 2, 3, 4, 5, 6, 7]) #}"
    using pm_exactly_once [OF full inv _ _ run(4)] run(2,3) no_datagrams [OF run(2)]
    by (simp add: sample_pending fate) (simp add: world_tally_def)
  with full show ?thesis by blast
qed

text \<open>The receiving side goes wrong only on a datagram that is doomed by itself: when neither a
  pending message nor a datagram of the run has a fault as its receipt, no interleaving faults.\<close>

theorem pm_jobs_safe:
  assumes "pm_run s ls r" "pm_inv (datagrams ls) s" "list_all good_label ls"
    and "\<forall>e. Inl e \<notin># fates s + datagrams_fate ls"
  shows "\<exists>t. r = Inr t"
  using pm_run_inv [OF assms(1), of 0] assms(2-4) by (cases r) auto

theorem pm_jobs_safe_witness:
  "\<exists>t. pm_run (sample_pm, sample_world) [Turn 3, Turn 3] (Inr t)"
proof -
  let ?p1 = "goto 3 WantLock (ThreadPool_new 25 :: Message pool)"
  obtain p2 where p2: "worker_step 3 ?p1 = Some p2" by (simp add: worker_defs ThreadPool_new_def)
  let ?r = "rbind (job_turn (pc ?p1 3) sample_world) (\<lambda>w. Inr (sample_pm\<lparr>threads := p2\<rparr>, w))"
  have 1: "pm_step (sample_pm, sample_world) (Turn 3) (Inr (sample_pm\<lparr>threads := ?p1\<rparr>, sample_world))"
    using pm_step.turn [of 3 sample_pm ?p1 sample_world]
    by (simp add: sample_pm_def worker_step_def goto_def ThreadPool_new_def job_turn_def)
  have 2: "pm_step (sample_pm\<lparr>threads := ?p1\<rparr>, sample_world) (Turn 3) ?r"
    using pm_step.turn [of 3 "sample_pm\<lparr>threads := ?p1\<rparr>" p2 sample_world] p2
    by (simp add: goto_def ThreadPool_new_def)
  have run: "pm_run (sample_pm, sample_world) [Turn 3, Turn 3] ?r"
    using 2 by (cases ?r) (auto intro: pm_run.step [OF 1] pm_run.fault pm_run.step pm_run.stop)
  have "pm_inv (datagrams [Turn 3, Turn 3]) (sample_pm, sample_world)"
    using sample_pm_inv by (simp add: pm_inv_def)
  from pm_jobs_safe [OF run this] obtain t where "?r = Inr t" by auto
  with run show ?thesis by (intro exI [of _ t]) (simp only:)
qed

text \<open>The workers come to rest: from any state in which no pending message is doomed there is a run
  of the workers alone to a state with no pending message, and everything that was pending has
  been received.\<close>

theorem pm_jobs_drain:
  assumes "pm_inv k s" "\<forall>e. Inl e \<notin># fates s"
  shows "\<exists>ls t. pm_run s ls (Inr t) \<and> datagrams ls = 0 \<and> pending (threads (fst t)) = {#}
    \<and> world_tally (snd t) = pm_account s"
  using pm_drains [OF assms(1)] assms(2) by blast

theorem pm_jobs_drain_witness:
  "\<exists>s ls t. listenOnSocket None (Some sample_wire) sample_pm sample_world = Inr (Some s)
     \<and> pm_run s ls (Inr t) \<and> world_tally (snd t) = {# Inr (FTP, map Some [1, 2, 3, 4, 5, 6, 7]) #}"
proof -
  obtain s where l: "listenOnSocket None (Some sample_wire) sample_pm sample_world = Inr (Some s)"
    by (rule sample_listen)
  have "pm_inv (Suc 8) (sample_pm, sample_world)" using sample_pm_inv by simp
  note s = listen_step [OF this l]
  have fate: "recv_eth (take BUFSIZE sample_wire) = Inr ([], Some (FTP, map Some [1, 2, 3, 4, 5, 6, 7]))"
    using recv_eth_wire [of fs "int_cells FTP_ID" "map Some [1, 2, 3, 4, 5, 6, 7]" FTP]
    by (simp add: sample_wire_def BUFSIZE_def)
  have "\<forall>e. Inl e \<notin># fates s" by (simp add: s(2) fate)
  from pm_jobs_drain [OF s(1) this] obtain ls t where run: "pm_run s ls (Inr t)"
    "world_tally (snd t) = pm_account s" by blast
  have "pm_account s = {# Inr (FTP, map Some [1, 2, 3, 4, 5, 6, 7]) #}"
    by (simp add: pm_account_def s(2,3) fate) (simp add: world_tally_def)
  with l run show ?thesis by (intro exI [of _ s] exI [of _ ls] exI [of _ t]) simp
qed

end
