(* ===== verification/PerProtocol.thy ===== *)
theory PerProtocol
  imports Wire "HOL-Library.Multiset"
begin

text \<open>
  The process per protocol model (\<open>PerProtocol.h\<close>): a send pipe and a receive pipe per
  protocol, and one thread per pipe that reads a unit (a protocol id and a pointer to a
  message), pushes or pops its header, and writes the pipe of the next protocol. Each handler
  below is one turn of a thread, from the return of \<open>read\<close> to the next; the interleaving of
  the threads is the step relation.
\<close>

section \<open>State\<close>

datatype pipe_id = ftp_send_pipe | tel_send_pipe | rdp_send_pipe | dns_send_pipe
  | ftp_recv_pipe | tel_recv_pipe | rdp_recv_pipe | dns_recv_pipe
  | tcp_send_pipe | tcp_recv_pipe | udp_send_pipe | udp_recv_pipe
  | ip_send_pipe | ip_recv_pipe | eth_send_pipe | eth_recv_pipe

text \<open>A \<open>Message*\<close> is the number of a message object.\<close>

record pipe_unit =
  protocol_id :: i32
  msg :: nat

text \<open>\<open>mCounter\<close> is the number of times \<open>mCounter++\<close> has been executed, which the global of that name
  has when no two threads are at their increments together; what it has otherwise, with every load and store a step,
  is in the theories \<open>Counter\<close>, \<open>Polling\<close> and \<open>SpeedMain\<close>. \<open>taken\<close> is a history variable that
  records, at each increment, the application and the bytes in its buffer.\<close>

record host = net +
  heap :: mem
  objs :: "nat \<Rightarrow> Message option"
  nobj :: nat
  pipe :: "pipe_id \<Rightarrow> pipe_unit list"
  mCounter :: int
  taken :: "(app \<times> cell list) list"

text \<open>What \<open>eth_send\<close> sets up before its loop: the socket and the address of the peer.\<close>

record link =
  os_env :: os
  upd_sock :: int
  servaddr :: sockaddr_in

definition deref_msg :: "host \<Rightarrow> nat \<Rightarrow> Message res" where
  "deref_msg s i = (case objs s i of None \<Rightarrow> Inl Dangling | Some m \<Rightarrow> Inr m)"

definition set_msg :: "nat \<Rightarrow> Message \<Rightarrow> mem \<Rightarrow> host \<Rightarrow> host" where
  "set_msg i m h s = s\<lparr>heap := h, objs := (objs s)(i \<mapsto> m)\<rparr>"

definition write_pipe :: "pipe_id \<Rightarrow> i32 \<Rightarrow> nat \<Rightarrow> host \<Rightarrow> host" where
  "write_pipe p i m s = s\<lparr>pipe := (pipe s)(p := pipe s p @ [\<lparr>protocol_id = i, msg = m\<rparr>])\<rparr>"

section \<open>Going down\<close>

definition FTP_send :: "pipe_unit \<Rightarrow> host \<Rightarrow> host res" where
  "FTP_send u s = rbind (deref_msg s (msg u)) (\<lambda>m.
     let (h, hp) = alloc (sizeof_hdr FTPHeader) (heap s) in
     rbind (set_length FTPHeader hp h (ucast (msgLen m))) (\<lambda>hp.
     let m = msgAddHdr m h (word_of_nat (sizeof_hdr FTPHeader)) in
     Inr (write_pipe tcp_send_pipe 5 (msg u) (set_msg (msg u) m hp s))))"

definition tel_send :: "pipe_unit \<Rightarrow> host \<Rightarrow> host res" where
  "tel_send u s = rbind (deref_msg s (msg u)) (\<lambda>m.
     let (h, hp) = alloc (sizeof_hdr telnetHeader) (heap s) in
     rbind (set_length telnetHeader hp h (ucast (msgLen m))) (\<lambda>hp.
     let m = msgAddHdr m h (word_of_nat (sizeof_hdr telnetHeader)) in
     Inr (write_pipe tcp_send_pipe 6 (msg u) (set_msg (msg u) m hp s))))"

definition RDP_send :: "pipe_unit \<Rightarrow> host \<Rightarrow> host res" where
  "RDP_send u s = rbind (deref_msg s (msg u)) (\<lambda>m.
     let (h, hp) = alloc (sizeof_hdr RDPHeader) (heap s) in
     rbind (set_length RDPHeader hp h (ucast (msgLen m))) (\<lambda>hp.
     let m = msgAddHdr m h (word_of_nat (sizeof_hdr RDPHeader)) in
     Inr (write_pipe udp_send_pipe 7 (msg u) (set_msg (msg u) m hp s))))"

definition DNS_send :: "pipe_unit \<Rightarrow> host \<Rightarrow> host res" where
  "DNS_send u s = rbind (deref_msg s (msg u)) (\<lambda>m.
     let (h, hp) = alloc (sizeof_hdr DNSHeader) (heap s) in
     rbind (set_length DNSHeader hp h (ucast (msgLen m))) (\<lambda>hp.
     let m = msgAddHdr m h (word_of_nat (sizeof_hdr DNSHeader)) in
     Inr (write_pipe udp_send_pipe 8 (msg u) (set_msg (msg u) m hp s))))"

definition TCP_send :: "pipe_unit \<Rightarrow> host \<Rightarrow> host res" where
  "TCP_send u s = rbind (deref_msg s (msg u)) (\<lambda>m.
     let (h, hp) = alloc (sizeof_hdr TCPHeader) (heap s) in
     rbind (set_hlp hp h (protocol_id u)) (\<lambda>hp.
     rbind (set_length TCPHeader hp h (ucast (msgLen m))) (\<lambda>hp.
     let m = msgAddHdr m h (word_of_nat (sizeof_hdr TCPHeader)) in
     Inr (write_pipe ip_send_pipe 3 (msg u) (set_msg (msg u) m hp s)))))"

definition UDP_send :: "pipe_unit \<Rightarrow> host \<Rightarrow> host res" where
  "UDP_send u s = rbind (deref_msg s (msg u)) (\<lambda>m.
     let (h, hp) = alloc (sizeof_hdr UDPHeader) (heap s) in
     rbind (set_hlp hp h (protocol_id u)) (\<lambda>hp.
     rbind (set_length UDPHeader hp h (ucast (msgLen m))) (\<lambda>hp.
     let m = msgAddHdr m h (word_of_nat (sizeof_hdr UDPHeader)) in
     Inr (write_pipe ip_send_pipe 4 (msg u) (set_msg (msg u) m hp s)))))"

definition IP_send :: "pipe_unit \<Rightarrow> host \<Rightarrow> host res" where
  "IP_send u s = rbind (deref_msg s (msg u)) (\<lambda>m.
     let (h, hp) = alloc (sizeof_hdr IPHeader) (heap s) in
     rbind (set_hlp hp h (protocol_id u)) (\<lambda>hp.
     rbind (set_length IPHeader hp h (ucast (msgLen m))) (\<lambda>hp.
     let m = msgAddHdr m h (word_of_nat (sizeof_hdr IPHeader)) in
     Inr (write_pipe eth_send_pipe 2 (msg u) (set_msg (msg u) m hp s)))))"

text \<open>\<open>eth_send\<close> flattens into the local \<open>msg_buf[1024]\<close>, which is gone after the turn.\<close>

definition eth_send :: "link \<Rightarrow> pipe_unit \<Rightarrow> host \<Rightarrow> host res" where
  "eth_send c u s = rbind (deref_msg s (msg u)) (\<lambda>m.
     let (h, hp) = alloc (sizeof_hdr ethHeader) (heap s) in
     rbind (set_hlp hp h (protocol_id u)) (\<lambda>hp.
     rbind (set_length ethHeader hp h (ucast (msgLen m))) (\<lambda>hp.
     let m = msgAddHdr m h (word_of_nat (sizeof_hdr ethHeader));
         (msg_buf, hp) = alloc 1024 hp in
     rbind (memset hp msg_buf 0 1024) (\<lambda>hp.
     rbind (msgFlat hp m msg_buf) (\<lambda>hp.
     rbind (load hp msg_buf (unat (msgLen m))) (\<lambda>bs.
     let s = (if os_sendto (os_env c) (upd_sock c) (servaddr c) bs < 0
              then s\<lparr>diags := diags s @ [SendtoError]\<rparr>
              else s\<lparr>sent := sent s @ [(servaddr c, bs)]\<rparr>) in
     rbind (free msg_buf hp) (\<lambda>hp. Inr (set_msg (msg u) m hp s))))))))"

section \<open>Going up\<close>

definition eth_recv :: "pipe_unit \<Rightarrow> host \<Rightarrow> host res" where
  "eth_recv u s = rbind (deref_msg s (msg u)) (\<lambda>m.
     rbind (msgStripHdr (heap s) m (word_of_nat (sizeof_hdr ethHeader))) (\<lambda>(stripped, hp, m).
     rbind (deref_hlp hp stripped) (\<lambda>protocol_id.
     let s = set_msg (msg u) m hp s in
     if protocol_id = 2 then Inr (write_pipe ip_recv_pipe 1 (msg u) s)
     else Inr (s\<lparr>diags := diags s @ [UpInvalid ethHeader]\<rparr>))))"

definition IP_recv :: "pipe_unit \<Rightarrow> host \<Rightarrow> host res" where
  "IP_recv u s = rbind (deref_msg s (msg u)) (\<lambda>m.
     rbind (msgStripHdr (heap s) m (word_of_nat (sizeof_hdr IPHeader))) (\<lambda>(stripped, hp, m).
     rbind (deref_hlp hp stripped) (\<lambda>protocol_id.
     let s = set_msg (msg u) m hp s in
     if protocol_id = 3 then Inr (write_pipe tcp_recv_pipe 2 (msg u) s)
     else if protocol_id = 4 then Inr (write_pipe udp_recv_pipe 2 (msg u) s)
     else Inr (s\<lparr>diags := diags s @ [UpInvalid IPHeader]\<rparr>))))"

definition TCP_recv :: "pipe_unit \<Rightarrow> host \<Rightarrow> host res" where
  "TCP_recv u s = rbind (deref_msg s (msg u)) (\<lambda>m.
     rbind (msgStripHdr (heap s) m (word_of_nat (sizeof_hdr TCPHeader))) (\<lambda>(stripped, hp, m).
     rbind (deref_hlp hp stripped) (\<lambda>protocol_id.
     let s = set_msg (msg u) m hp s in
     if protocol_id = 5 then Inr (write_pipe ftp_recv_pipe 3 (msg u) s)
     else if protocol_id = 6 then Inr (write_pipe tel_recv_pipe 3 (msg u) s)
     else Inr (s\<lparr>diags := diags s @ [UpInvalid TCPHeader]\<rparr>))))"

definition UDP_recv :: "pipe_unit \<Rightarrow> host \<Rightarrow> host res" where
  "UDP_recv u s = rbind (deref_msg s (msg u)) (\<lambda>m.
     rbind (msgStripHdr (heap s) m (word_of_nat (sizeof_hdr UDPHeader))) (\<lambda>(stripped, hp, m).
     rbind (deref_hlp hp stripped) (\<lambda>protocol_id.
     let s = set_msg (msg u) m hp s in
     if protocol_id = 7 then Inr (write_pipe rdp_recv_pipe 4 (msg u) s)
     else if protocol_id = 8 then Inr (write_pipe dns_recv_pipe 4 (msg u) s)
     else Inr (s\<lparr>diags := diags s @ [UpInvalid UDPHeader]\<rparr>))))"

text \<open>The four application receivers are the same code but for the struct: strip, flatten into a
  new array of 1024 bytes, store a newline behind the message, count, delete the array.\<close>

definition app_recv :: "app \<Rightarrow> header \<Rightarrow> pipe_unit \<Rightarrow> host \<Rightarrow> host res" where
  "app_recv a k u s = rbind (deref_msg s (msg u)) (\<lambda>m.
     rbind (msgStripHdr (heap s) m (word_of_nat (sizeof_hdr k))) (\<lambda>(_, hp, m).
     let (msg_buf, hp) = alloc 1024 hp in
     rbind (msgFlat hp m msg_buf) (\<lambda>hp.
     rbind (store hp (fst msg_buf, snd msg_buf + unat (msgLen m)) [Some 10]) (\<lambda>hp.
     rbind (chk_int (mCounter s + 1)) (\<lambda>count.
     let seen = (a, cells hp msg_buf (unat (msgLen m))) in
     rbind (free msg_buf hp) (\<lambda>hp.
     Inr ((set_msg (msg u) m hp s)\<lparr>mCounter := count, taken := taken s @ [seen]\<rparr>)))))))"

definition FTP_recv :: "pipe_unit \<Rightarrow> host \<Rightarrow> host res" where
  "FTP_recv = app_recv FTP FTPHeader"

definition tel_recv :: "pipe_unit \<Rightarrow> host \<Rightarrow> host res" where
  "tel_recv = app_recv Telnet telnetHeader"

definition RDP_recv :: "pipe_unit \<Rightarrow> host \<Rightarrow> host res" where
  "RDP_recv = app_recv RDP RDPHeader"

definition DNS_recv :: "pipe_unit \<Rightarrow> host \<Rightarrow> host res" where
  "DNS_recv = app_recv DNS DNSHeader"

section \<open>The entry points\<close>

text \<open>\<open>new Message(...)\<close>: a new message object.\<close>

definition new_Message :: "ptr \<Rightarrow> size_t \<Rightarrow> host \<Rightarrow> nat \<times> host" where
  "new_Message p n s =
     (nobj s, s\<lparr>objs := (objs s)(nobj s \<mapsto> Message_new p n), nobj := Suc (nobj s)\<rparr>)"

text \<open>One turn of the thread on the receiving socket, for the datagram that \<open>recvfrom\<close> finds.\<close>

definition msg_recv :: "cell list option \<Rightarrow> host \<Rightarrow> host res" where
  "msg_recv dg s =
     (let (msg_buf, hp) = alloc 1024 (heap s) in
      rbind (memset hp msg_buf 0 1024) (\<lambda>hp.
      rbind (recvfrom hp msg_buf 1024 dg) (\<lambda>(n, hp).
      let (m, s) = new_Message msg_buf (size_of_int n) (s\<lparr>heap := hp\<rparr>) in
      Inr (write_pipe eth_recv_pipe 0 m s))))"

definition msg_send :: "nat \<Rightarrow> i32 \<Rightarrow> host \<Rightarrow> host" where
  "msg_send m i s =
     (if i = 5 then write_pipe ftp_send_pipe 5 m s
      else if i = 6 then write_pipe tel_send_pipe 6 m s
      else if i = 7 then write_pipe rdp_send_pipe 7 m s
      else if i = 8 then write_pipe dns_send_pipe 8 m s
      else s\<lparr>diags := diags s @ [InvalidProtocolId]\<rparr>)"

section \<open>Start-up\<close>

text \<open>\<open>atoi\<close>: leading white space, an optional sign, digits. Its behaviour is undefined when the
  value does not fit an \<open>int\<close>.\<close>

definition is_space :: "char \<Rightarrow> bool" where
  "is_space c \<longleftrightarrow> c = CHR '' '' \<or> (9 \<le> (of_char c :: nat) \<and> (of_char c :: nat) \<le> 13)"

definition is_digit :: "char \<Rightarrow> bool" where
  "is_digit c \<longleftrightarrow> 48 \<le> (of_char c :: nat) \<and> (of_char c :: nat) \<le> 57"

definition digits :: "string \<Rightarrow> int" where
  "digits cs = foldl (\<lambda>n c. 10 * n + (of_char c - 48)) 0 (takeWhile is_digit cs)"

definition atoi :: "string \<Rightarrow> int res" where
  "atoi cs = (case dropWhile is_space cs of
       [] \<Rightarrow> Inr 0
     | c # rest \<Rightarrow> chk_int (if c = CHR ''-'' then - digits rest
         else if c = CHR ''+'' then digits rest else digits (c # rest)))"

text \<open>The members \<open>start_comm\<close> sets.\<close>

record comm =
  recv_sock :: int
  m_send_port :: string

definition start_comm :: "os \<Rightarrow> string \<Rightarrow> string \<Rightarrow> comm res" where
  "start_comm e inp out =
     rbind (atoi inp) (\<lambda>port.
     rbind (udpSocket e (word_of_int port)) (\<lambda>sock.
     Inr \<lparr>recv_sock = sock, m_send_port = out\<rparr>))"

text \<open>The constructor: the pipes are new and empty, then 17 threads are created (\<open>create n\<close> is
  what the \<open>n\<close>-th \<open>pthread_create\<close> returns). Its \<open>int mCounter = 0\<close> is a local variable.\<close>

definition PerProtocol_new ::
    "os \<Rightarrow> (nat \<Rightarrow> int) \<Rightarrow> string \<Rightarrow> string \<Rightarrow> host \<Rightarrow> (comm \<times> host) res" where
  "PerProtocol_new e create inp out s =
     rbind (start_comm e inp out) (\<lambda>c.
     let s = s\<lparr>pipe := (\<lambda>_. [])\<rparr> in
     if list_all (\<lambda>n. create n = 0) [0..<17] then Inr (c, s) else Inl (ExitProcess 1))"

text \<open>\<open>eth_send\<close> before its loop; \<open>INADDR_NONE\<close> is -1.\<close>

definition eth_send_start :: "os \<Rightarrow> comm \<Rightarrow> link res" where
  "eth_send_start e c =
     rbind (atoi (m_send_port c)) (\<lambda>n.
     let port = htons (word_of_int n) in
     if port = 0 then Inl (ExitProcess 1)
     else rbind (case os_gethostbyname e ''localhost'' of
            Some addr \<Rightarrow> Inr addr
          | None \<Rightarrow> let addr = os_inet_addr e ''localhost'' in
              if addr = -1 then Inl (ExitProcess 1) else Inr addr) (\<lambda>addr.
       let sock = os_socket e in
       if sock < 0 then Inl (ExitProcess 1)
       else Inr \<lparr>os_env = e, upd_sock = sock,
                 servaddr = \<lparr>sin_port = port, sin_addr = addr\<rparr>\<rparr>))"

section \<open>The threads\<close>

fun thread :: "link \<Rightarrow> pipe_id \<Rightarrow> pipe_unit \<Rightarrow> host \<Rightarrow> host res" where
  "thread c ftp_send_pipe = FTP_send"
| "thread c tel_send_pipe = tel_send"
| "thread c rdp_send_pipe = RDP_send"
| "thread c dns_send_pipe = DNS_send"
| "thread c ftp_recv_pipe = FTP_recv"
| "thread c tel_recv_pipe = tel_recv"
| "thread c rdp_recv_pipe = RDP_recv"
| "thread c dns_recv_pipe = DNS_recv"
| "thread c tcp_send_pipe = TCP_send"
| "thread c tcp_recv_pipe = TCP_recv"
| "thread c udp_send_pipe = UDP_send"
| "thread c udp_recv_pipe = UDP_recv"
| "thread c ip_send_pipe = IP_send"
| "thread c ip_recv_pipe = IP_recv"
| "thread c eth_send_pipe = eth_send c"
| "thread c eth_recv_pipe = eth_recv"

text \<open>
  One step of the host: a thread whose pipe is not empty reads a unit and processes it, a
  datagram arrives, or the application submits a message over a buffer it owns. A turn is one
  step: until the unit is written to the next pipe, no other thread has its pointer.
\<close>

datatype label = Work pipe_id | Arrive "cell list option" | Submit "cell list" i32

inductive host_step :: "link \<Rightarrow> host \<Rightarrow> label \<Rightarrow> host res \<Rightarrow> bool" for c where
  work: "pipe s p = u # us \<Longrightarrow> host_step c s (Work p) (thread c p u (s\<lparr>pipe := (pipe s)(p := us)\<rparr>))"
| arrive: "host_step c s (Arrive dg) (msg_recv dg s)"
| submit: "readable (heap s) p n \<Longrightarrow> n < 2 ^ 31 \<Longrightarrow> new_Message p (word_of_nat n) s = (m, s') \<Longrightarrow>
    host_step c s (Submit (cells (heap s) p n) i) (Inr (msg_send m i s'))"

inductive host_run :: "link \<Rightarrow> host \<Rightarrow> label list \<Rightarrow> host res \<Rightarrow> bool" for c where
  stop: "host_run c s [] (Inr s)"
| fault: "host_step c s l (Inl e) \<Longrightarrow> host_run c s [l] (Inl e)"
| step: "host_step c s l (Inr t) \<Longrightarrow> host_run c t ls r \<Longrightarrow> host_run c s (l # ls) r"

inductive_cases host_stepE [elim]:
  "host_step c s (Work p) r" "host_step c s (Arrive dg) r" "host_step c s (Submit bs i) r"

inductive_simps host_run_simps: "host_run c s [] r" "host_run c s (l # ls) r"

end
