(* ===== verification/Hops.thy ===== *)
theory Hops
  imports PerProtocol
begin

text \<open>
  What one turn of a protocol thread does to a unit, on the bytes of its message alone
  (\<open>hop\<close>), the fate of a unit as the hops it takes to the end (\<open>fate\<close>), and the lemmas that
  the threads of \<open>PerProtocol\<close> implement the hops.
\<close>

section \<open>Hops and fates\<close>

datatype outcome = Sent sockaddr_in "cell list" | Got app "cell list" | Printed diag

datatype next_hop = Next pipe_id i32 "cell list" | End outcome

definition push_hop :: "header \<Rightarrow> pipe_id \<Rightarrow> i32 \<Rightarrow> cell list \<Rightarrow> cell list \<Rightarrow> next_hop res" where
  "push_hop k q j hlp bs = Inr (Next q j (encap hlp (undef_cells (otherInfo_len k)) bs))"

definition pop_hop :: "header \<Rightarrow> (i32 \<Rightarrow> (pipe_id \<times> i32) option) \<Rightarrow> cell list \<Rightarrow> next_hop res" where
  "pop_hop k sel bs = rbind (pop_hdr k bs) (\<lambda>(hlp, bs). Inr (case sel hlp of
       Some (q, j) \<Rightarrow> Next q j bs | None \<Rightarrow> End (Printed (UpInvalid k))))"

definition app_hop :: "app \<Rightarrow> cell list \<Rightarrow> next_hop res" where
  "app_hop a bs = (let payload = pop_app (app_header a) bs in
     if length payload < 1024 then Inr (End (Got a payload)) else Inl OutOfBounds)"

definition eth_hop :: "link \<Rightarrow> i32 \<Rightarrow> cell list \<Rightarrow> next_hop res" where
  "eth_hop c i bs = (let dg = encap (int_cells i) (undef_cells 8) bs in
     if length dg \<le> 1024
     then Inr (End (if os_sendto (os_env c) (upd_sock c) (servaddr c) dg < 0
                    then Printed SendtoError else Sent (servaddr c) dg))
     else Inl OutOfBounds)"

fun sel_eth :: "i32 \<Rightarrow> (pipe_id \<times> i32) option" where
  "sel_eth v = (if v = IP_ID then Some (ip_recv_pipe, 1) else None)"

fun sel_ip :: "i32 \<Rightarrow> (pipe_id \<times> i32) option" where
  "sel_ip v = (if v = TCP_ID then Some (tcp_recv_pipe, 2)
               else if v = UDP_ID then Some (udp_recv_pipe, 2) else None)"

fun sel_tcp :: "i32 \<Rightarrow> (pipe_id \<times> i32) option" where
  "sel_tcp v = (if v = FTP_ID then Some (ftp_recv_pipe, 3)
                else if v = TELNET_ID then Some (tel_recv_pipe, 3) else None)"

fun sel_udp :: "i32 \<Rightarrow> (pipe_id \<times> i32) option" where
  "sel_udp v = (if v = RDP_ID then Some (rdp_recv_pipe, 4)
                else if v = DNS_ID then Some (dns_recv_pipe, 4) else None)"

fun hop :: "link \<Rightarrow> pipe_id \<Rightarrow> i32 \<Rightarrow> cell list \<Rightarrow> next_hop res" where
  "hop c ftp_send_pipe i bs = push_hop FTPHeader tcp_send_pipe FTP_ID (undef_cells 4) bs"
| "hop c tel_send_pipe i bs = push_hop telnetHeader tcp_send_pipe TELNET_ID (undef_cells 4) bs"
| "hop c rdp_send_pipe i bs = push_hop RDPHeader udp_send_pipe RDP_ID (undef_cells 4) bs"
| "hop c dns_send_pipe i bs = push_hop DNSHeader udp_send_pipe DNS_ID (undef_cells 4) bs"
| "hop c tcp_send_pipe i bs = push_hop TCPHeader ip_send_pipe TCP_ID (int_cells i) bs"
| "hop c udp_send_pipe i bs = push_hop UDPHeader ip_send_pipe UDP_ID (int_cells i) bs"
| "hop c ip_send_pipe i bs = push_hop IPHeader eth_send_pipe IP_ID (int_cells i) bs"
| "hop c eth_send_pipe i bs = eth_hop c i bs"
| "hop c eth_recv_pipe i bs = pop_hop ethHeader sel_eth bs"
| "hop c ip_recv_pipe i bs = pop_hop IPHeader sel_ip bs"
| "hop c tcp_recv_pipe i bs = pop_hop TCPHeader sel_tcp bs"
| "hop c udp_recv_pipe i bs = pop_hop UDPHeader sel_udp bs"
| "hop c ftp_recv_pipe i bs = app_hop FTP bs"
| "hop c tel_recv_pipe i bs = app_hop Telnet bs"
| "hop c rdp_recv_pipe i bs = app_hop RDP bs"
| "hop c dns_recv_pipe i bs = app_hop DNS bs"

text \<open>How many turns a unit in a pipe can still take.\<close>

fun level :: "pipe_id \<Rightarrow> nat" where
  "level eth_send_pipe = 1" | "level ip_send_pipe = 2"
| "level tcp_send_pipe = 3" | "level udp_send_pipe = 3"
| "level ftp_send_pipe = 4" | "level tel_send_pipe = 4"
| "level rdp_send_pipe = 4" | "level dns_send_pipe = 4"
| "level eth_recv_pipe = 4" | "level ip_recv_pipe = 3"
| "level tcp_recv_pipe = 2" | "level udp_recv_pipe = 2"
| "level ftp_recv_pipe = 1" | "level tel_recv_pipe = 1"
| "level rdp_recv_pipe = 1" | "level dns_recv_pipe = 1"

lemma pop_hdr_length: "pop_hdr k bs = Inr (v, bs') \<Longrightarrow> length bs' \<le> length bs"
  by (auto simp: pop_hdr_def res_simps split: if_splits)

lemma hop_Next:
  assumes "hop c p i bs = Inr (Next q j bs')"
  shows "level q < level p" "length bs' \<le> length bs + 20"
  using assms
  by (cases p; auto simp: push_hop_def pop_hop_def app_hop_def eth_hop_def Let_def res_simps
      split: if_splits dest!: pop_hdr_length)+

function fate :: "link \<Rightarrow> pipe_id \<Rightarrow> i32 \<Rightarrow> cell list \<Rightarrow> outcome res" where
  "fate c p i bs = (case hop c p i bs of
       Inl e \<Rightarrow> Inl e
     | Inr (End x) \<Rightarrow> Inr x
     | Inr (Next q j bs) \<Rightarrow> fate c q j bs)"
  by auto
termination
  by (relation "measure (\<lambda>(c, p, i, bs). level p)") (auto dest: hop_Next(1))

declare fate.simps [simp del]

section \<open>The threads implement the hops\<close>

fun log :: "outcome \<Rightarrow> host \<Rightarrow> host" where
  "log (Sent a bs) s = s\<lparr>sent := sent s @ [(a, bs)]\<rparr>"
| "log (Got a bs) s = s\<lparr>mCounter := mCounter s + 1, taken := taken s @ [(a, bs)]\<rparr>"
| "log (Printed d) s = s\<lparr>diags := diags s @ [d]\<rparr>"

fun after :: "next_hop \<Rightarrow> nat \<Rightarrow> host \<Rightarrow> host" where
  "after (Next p i bs) m s = write_pipe p i m s"
| "after (End x) m s = log x s"

text \<open>
  \<open>handles f g\<close>: on a unit whose message is well formed, the turn \<open>f\<close> fails with the fault of
  the hop \<open>g\<close>, or it updates the unit's message (to the bytes \<open>g\<close> passes on), keeps every live
  block of memory, and writes the next pipe or a log as \<open>g\<close> says.
\<close>

definition handles :: "(pipe_unit \<Rightarrow> host \<Rightarrow> host res) \<Rightarrow> (i32 \<Rightarrow> cell list \<Rightarrow> next_hop res) \<Rightarrow> bool" where
  "handles f g \<longleftrightarrow> (\<forall>u s m. wf_mem (heap s) \<longrightarrow> objs s (msg u) = Some m \<longrightarrow> wf_msg (heap s) m \<longrightarrow>
     length (msg_bytes (heap s) m) + 20 < 2 ^ 31 \<longrightarrow> 0 \<le> mCounter s \<longrightarrow> mCounter s + 1 < 2 ^ 31 \<longrightarrow>
     (case g (protocol_id u) (msg_bytes (heap s) m) of
        Inl e \<Rightarrow> f u s = Inl e
      | Inr r \<Rightarrow> \<exists>m' h'. f u s = Inr (after r (msg u) (set_msg (msg u) m' h' s))
          \<and> wf_mem h' \<and> mem_ext {} (heap s) h' \<and> wf_msg h' m'
          \<and> (\<forall>q j bs. r = Next q j bs \<longrightarrow> msg_bytes h' m' = bs)))"

lemma handlesD:
  assumes "handles f g" "wf_mem (heap s)" "objs s (msg u) = Some m" "wf_msg (heap s) m"
    "length (msg_bytes (heap s) m) + 20 < 2 ^ 31" "0 \<le> mCounter s" "mCounter s + 1 < 2 ^ 31"
  shows "g (protocol_id u) (msg_bytes (heap s) m) = Inl e \<Longrightarrow> f u s = Inl e"
    and "g (protocol_id u) (msg_bytes (heap s) m) = Inr r \<Longrightarrow>
      \<exists>m' h'. f u s = Inr (after r (msg u) (set_msg (msg u) m' h' s))
          \<and> wf_mem h' \<and> mem_ext {} (heap s) h' \<and> wf_msg h' m'
          \<and> (\<forall>q j bs. r = Next q j bs \<longrightarrow> msg_bytes h' m' = bs)"
  using assms(1) [unfolded handles_def, rule_format, OF assms(2-7)] by auto

lemma handlesI:
  assumes "\<And>u s m. wf_mem (heap s) \<Longrightarrow> objs s (msg u) = Some m \<Longrightarrow> wf_msg (heap s) m \<Longrightarrow>
     length (msg_bytes (heap s) m) + 20 < 2 ^ 31 \<Longrightarrow> 0 \<le> mCounter s \<Longrightarrow> mCounter s + 1 < 2 ^ 31 \<Longrightarrow>
     case g (protocol_id u) (msg_bytes (heap s) m) of
        Inl e \<Rightarrow> f u s = Inl e
      | Inr r \<Rightarrow> \<exists>m' h'. f u s = Inr (after r (msg u) (set_msg (msg u) m' h' s))
          \<and> wf_mem h' \<and> mem_ext {} (heap s) h' \<and> wf_msg h' m'
          \<and> (\<forall>q j bs. r = Next q j bs \<longrightarrow> msg_bytes h' m' = bs)"
  shows "handles f g"
  unfolding handles_def using assms by blast

subsection \<open>Going down\<close>

text \<open>A protocol that only writes \<open>length\<close>, and one that writes \<open>hlp\<close> too.\<close>

lemma sizeof_hdr_le [simp]: "sizeof_hdr k \<le> 20"
  by (cases k) simp_all

lemma push_msg:
  fixes k :: header
  assumes "wf_mem (heap s)" "wf_msg (heap s) m" "length (msg_bytes (heap s) m) + 20 < 2 ^ 31"
    and "length hlp = 4"
  defines "h' \<equiv> put (hdr_image hlp (undef_cells (otherInfo_len k)) (ucast (msgLen m))) (heap s)"
    and "m' \<equiv> msgAddHdr m (brk (heap s), 0) (word_of_nat (sizeof_hdr k))"
  shows "wf_mem h'" "mem_ext {} (heap s) h'" "wf_msg h' m'"
    and "msg_bytes h' m' = encap hlp (undef_cells (otherInfo_len k)) (msg_bytes (heap s) m)"
proof -
  let ?img = "hdr_image hlp (undef_cells (otherInfo_len k)) (ucast (msgLen m))"
  have size: "length ?img = sizeof_hdr k" using assms(4) by (simp add: sizeof_hdr_eq)
  have "length ?img + length (msg_bytes (heap s) m) < 2 ^ 31"
    using assms(3) sizeof_hdr_le [of k] unfolding size by linarith
  note p = msg.push [OF assms(1,2) this]
  show "wf_msg h' m'" "msg_bytes h' m' = encap hlp (undef_cells (otherInfo_len k)) (msg_bytes (heap s) m)"
    using p(1,2) unfolding size h'_def m'_def by (simp_all add: encap_def ucast_msgLen [OF assms(2)])
  show "wf_mem h'" "mem_ext {} (heap s) h'" using assms(1) by (simp_all add: h'_def)
qed

lemma push_handles:
  assumes f: "\<And>u s. f u s = rbind (deref_msg s (msg u)) (\<lambda>m.
     let (h, hp) = alloc (sizeof_hdr k) (heap s) in
     rbind (set_length k hp h (ucast (msgLen m))) (\<lambda>hp.
     let m = msgAddHdr m h (word_of_nat (sizeof_hdr k)) in
     Inr (write_pipe q j (msg u) (set_msg (msg u) m hp s))))"
  shows "handles f (\<lambda>i. push_hop k q j (undef_cells 4))"
proof (rule handlesI)
  fix u :: pipe_unit and s :: host and m
  assume a: "wf_mem (heap s)" "objs s (msg u) = Some m" "wf_msg (heap s) m"
     "length (msg_bytes (heap s) m) + 20 < 2 ^ 31"
  note p = push_msg [OF a(1,3,4), where hlp = "undef_cells 4" and k = k, simplified]
  have "f u s = Inr (write_pipe q j (msg u) (set_msg (msg u)
      (msgAddHdr m (brk (heap s), 0) (word_of_nat (sizeof_hdr k)))
      (put (hdr_image (undef_cells 4) (undef_cells (otherInfo_len k)) (ucast (msgLen m))) (heap s)) s))"
    using a(2) unfolding f alloc_header by (simp add: deref_msg_def)
  then show "case push_hop k q j (undef_cells 4) (msg_bytes (heap s) m) of
        Inl e \<Rightarrow> f u s = Inl e
      | Inr r \<Rightarrow> \<exists>m' h'. f u s = Inr (after r (msg u) (set_msg (msg u) m' h' s))
          \<and> wf_mem h' \<and> mem_ext {} (heap s) h' \<and> wf_msg h' m'
          \<and> (\<forall>q j bs. r = Next q j bs \<longrightarrow> msg_bytes h' m' = bs)"
    using p by (auto simp: push_hop_def)
qed

lemma push_hlp_handles:
  assumes f: "\<And>u s. f u s = rbind (deref_msg s (msg u)) (\<lambda>m.
     let (h, hp) = alloc (sizeof_hdr k) (heap s) in
     rbind (set_hlp hp h (protocol_id u)) (\<lambda>hp.
     rbind (set_length k hp h (ucast (msgLen m))) (\<lambda>hp.
     let m = msgAddHdr m h (word_of_nat (sizeof_hdr k)) in
     Inr (write_pipe q j (msg u) (set_msg (msg u) m hp s)))))"
  shows "handles f (\<lambda>i. push_hop k q j (int_cells i))"
proof (rule handlesI)
  fix u :: pipe_unit and s :: host and m
  assume a: "wf_mem (heap s)" "objs s (msg u) = Some m" "wf_msg (heap s) m"
     "length (msg_bytes (heap s) m) + 20 < 2 ^ 31"
  note p = push_msg [OF a(1,3,4), where hlp = "int_cells (protocol_id u)" and k = k, simplified]
  have "f u s = Inr (write_pipe q j (msg u) (set_msg (msg u)
      (msgAddHdr m (brk (heap s), 0) (word_of_nat (sizeof_hdr k)))
      (put (hdr_image (int_cells (protocol_id u)) (undef_cells (otherInfo_len k)) (ucast (msgLen m))) (heap s)) s))"
    using a(2) unfolding f alloc_header by (simp add: deref_msg_def)
  then show "case push_hop k q j (int_cells (protocol_id u)) (msg_bytes (heap s) m) of
        Inl e \<Rightarrow> f u s = Inl e
      | Inr r \<Rightarrow> \<exists>m' h'. f u s = Inr (after r (msg u) (set_msg (msg u) m' h' s))
          \<and> wf_mem h' \<and> mem_ext {} (heap s) h' \<and> wf_msg h' m'
          \<and> (\<forall>q j bs. r = Next q j bs \<longrightarrow> msg_bytes h' m' = bs)"
    using p by (auto simp: push_hop_def)
qed

lemma eth_send_handles: "handles (eth_send c) (eth_hop c)"
proof (rule handlesI)
  fix u :: pipe_unit and s :: host and m
  assume a: "wf_mem (heap s)" "objs s (msg u) = Some m" "wf_msg (heap s) m"
     "length (msg_bytes (heap s) m) + 20 < 2 ^ 31"
  let ?img = "hdr_image (int_cells (protocol_id u)) (undef_cells 8) (ucast (msgLen m))"
  let ?h1 = "put ?img (heap s)" and ?m1 = "msgAddHdr m (brk (heap s), 0) 16"
  let ?dg = "encap (int_cells (protocol_id u)) (undef_cells 8) (msg_bytes (heap s) m)"
  note p = push_msg [OF a(1,3,4), where hlp = "int_cells (protocol_id u)" and k = ethHeader,
      simplified]
  note flat = msg.flat_block [OF p(1,3), of "replicate 1024 (Some 0)", unfolded p(4)]
  have hdr: "\<And>F. rbind (set_hlp (put (undef_cells 4 @ undef_cells 8 @ undef_cells 4) (heap s)) (brk (heap s), 0)
      (protocol_id u)) (\<lambda>h. rbind (set_length ethHeader h (brk (heap s), 0) (ucast (msgLen m))) F) = F ?h1"
    by simp
  have clear: "memset (put (undef_cells 1024) ?h1) (brk ?h1, 0) 0 1024 = Inr (put (replicate 1024 (Some 0)) ?h1)"
    by (rule memset_put)
  have unf: "eth_send c u s = rbind (msgFlat (put (replicate 1024 (Some 0)) ?h1) ?m1 (brk ?h1, 0)) (\<lambda>hp.
     rbind (load hp (brk ?h1, 0) (unat (msgLen ?m1))) (\<lambda>bs.
     let s = (if os_sendto (os_env c) (upd_sock c) (servaddr c) bs < 0
              then s\<lparr>diags := diags s @ [SendtoError]\<rparr>
              else s\<lparr>sent := sent s @ [(servaddr c, bs)]\<rparr>) in
     rbind (free (brk ?h1, 0) hp) (\<lambda>hp. Inr (set_msg (msg u) ?m1 hp s))))"
    unfolding eth_send_def alloc_header deref_msg_def a(2) option.case rbind.simps
    unfolding Let_def prod.case otherInfo_len.simps hdr alloc_put clear
    by simp
  show "case eth_hop c (protocol_id u) (msg_bytes (heap s) m) of
        Inl e \<Rightarrow> eth_send c u s = Inl e
      | Inr r \<Rightarrow> \<exists>m' h'. eth_send c u s = Inr (after r (msg u) (set_msg (msg u) m' h' s))
          \<and> wf_mem h' \<and> mem_ext {} (heap s) h' \<and> wf_msg h' m'
          \<and> (\<forall>q j bs. r = Next q j bs \<longrightarrow> msg_bytes h' m' = bs)"
  proof (cases "length ?dg \<le> 1024")
    case True
    let ?h2 = "put (?dg @ drop (length ?dg) (replicate 1024 (Some 0))) ?h1"
    obtain h3 where h3: "free (brk ?h1, 0) ?h2 = Inr h3" "wf_mem h3" "mem_ext {} ?h1 h3"
      by (rule free_put [OF p(1)])
    have "load ?h2 (brk ?h1, 0) (unat (msgLen ?m1)) = Inr ?dg"
      using wf_msg_len [OF p(3), unfolded p(4), folded msgLen_def]
        load_put [of ?dg "drop (length ?dg) (replicate 1024 (Some 0))" ?h1] by (simp only:)
    then have "eth_send c u s = Inr (after (End (if os_sendto (os_env c) (upd_sock c) (servaddr c) ?dg < 0
                    then Printed SendtoError else Sent (servaddr c) ?dg)) (msg u) (set_msg (msg u) ?m1 h3 s))"
      unfolding unf flat using True h3(1) by (simp add: set_msg_def)
    then show ?thesis
      using True msg.keep(1) [OF h3(3) p(3)] h3(2) mem_ext_trans [OF p(2) h3(3)]
      by (auto simp: eth_hop_def Let_def)
  next
    case False
    then show ?thesis
      unfolding unf flat by (simp add: eth_hop_def)
  qed
qed

subsection \<open>Going up\<close>

lemma pop_handles:
  assumes f: "\<And>u s. f u s = rbind (deref_msg s (msg u)) (\<lambda>m.
     rbind (msgStripHdr (heap s) m (word_of_nat (sizeof_hdr k))) (\<lambda>(stripped, hp, m).
     rbind (deref_hlp hp stripped) (\<lambda>v.
     let s = set_msg (msg u) m hp s in
     Inr (case sel v of Some (q, j) \<Rightarrow> write_pipe q j (msg u) s
            | None \<Rightarrow> s\<lparr>diags := diags s @ [UpInvalid k]\<rparr>))))"
  shows "handles f (\<lambda>i. pop_hop k sel)"
proof (rule handlesI)
  fix u :: pipe_unit and s :: host and m
  assume a: "wf_mem (heap s)" "objs s (msg u) = Some m" "wf_msg (heap s) m"
  let ?bs = "msg_bytes (heap s) m"
  obtain p h1 m1 where s: "msgStripHdr (heap s) m (word_of_nat (sizeof_hdr k)) = Inr (p, h1, m1)"
    "wf_mem h1" "wf_msg h1 m1" "mem_ext {} (heap s) h1"
    and pop: "(case p of None \<Rightarrow> Inl NullDeref | Some q \<Rightarrow> rbind (get_hlp h1 q)
        (\<lambda>v. Inr (v, msg_bytes h1 m1))) = pop_hdr k ?bs"
    using msg.strip_hdr [OF a(1,3) sint_sizeof [of k] sizeof_hdr_ge] by blast
  have pop': "pop_hdr k ?bs = rbind (deref_hlp h1 p) (\<lambda>v. Inr (v, msg_bytes h1 m1))"
    unfolding pop [symmetric] deref_hlp_def by (simp split: option.splits)
  have f1: "f u s = rbind (deref_hlp h1 p) (\<lambda>v. let s = set_msg (msg u) m1 h1 s in
     Inr (case sel v of Some (q, j) \<Rightarrow> write_pipe q j (msg u) s
            | None \<Rightarrow> s\<lparr>diags := diags s @ [UpInvalid k]\<rparr>))"
    using a(2) s(1) by (simp add: f deref_msg_def)
  show "case pop_hop k sel ?bs of Inl e \<Rightarrow> f u s = Inl e
      | Inr r \<Rightarrow> \<exists>m' h'. f u s = Inr (after r (msg u) (set_msg (msg u) m' h' s))
          \<and> wf_mem h' \<and> mem_ext {} (heap s) h' \<and> wf_msg h' m'
          \<and> (\<forall>q j bs. r = Next q j bs \<longrightarrow> msg_bytes h' m' = bs)"
  proof (cases "deref_hlp h1 p")
    case (Inl e)
    then show ?thesis by (simp add: pop_hop_def pop' f1)
  next
    case (Inr v)
    let ?r = "case sel v of Some (q, j) \<Rightarrow> Next q j (msg_bytes h1 m1) | None \<Rightarrow> End (Printed (UpInvalid k))"
    have "f u s = Inr (after ?r (msg u) (set_msg (msg u) m1 h1 s))"
      using Inr by (auto simp: f1 Let_def split: option.splits)
    moreover have "\<forall>q j bs. ?r = Next q j bs \<longrightarrow> msg_bytes h1 m1 = bs"
      by (auto split: option.splits)
    moreover have "pop_hop k sel ?bs = Inr ?r"
      using Inr by (simp add: pop_hop_def pop')
    ultimately show ?thesis using s by auto
  qed
qed

lemma app_recv_handles: "handles (app_recv a (app_header a)) (\<lambda>i. app_hop a)"
proof (rule handlesI)
  fix u :: pipe_unit and s :: host and m
  assume a: "wf_mem (heap s)" "objs s (msg u) = Some m" "wf_msg (heap s) m"
    "0 \<le> mCounter s" "mCounter s + 1 < 2 ^ 31"
  let ?bs = "msg_bytes (heap s) m" and ?k = "app_header a"
  let ?pay = "pop_app ?k ?bs"
  obtain p h1 m1 where s: "msgStripHdr (heap s) m (word_of_nat (sizeof_hdr ?k)) = Inr (p, h1, m1)"
    "wf_mem h1" "wf_msg h1 m1" "mem_ext {} (heap s) h1" "msg_bytes h1 m1 = ?pay"
    using msg.strip_hdr [OF a(1,3) sint_sizeof [of ?k] sizeof_hdr_ge] by blast
  note flat = msg.flat_new [OF s(2,3), of 1024, unfolded s(5)]
  have len: "unat (msgLen m1) = length ?pay"
    using wf_msg_len [OF s(3)] s(5) by (simp add: msgLen_def)
  show "case app_hop a ?bs of Inl e \<Rightarrow> app_recv a ?k u s = Inl e
      | Inr r \<Rightarrow> \<exists>m' h'. app_recv a ?k u s = Inr (after r (msg u) (set_msg (msg u) m' h' s))
          \<and> wf_mem h' \<and> mem_ext {} (heap s) h' \<and> wf_msg h' m'
          \<and> (\<forall>q j bs. r = Next q j bs \<longrightarrow> msg_bytes h' m' = bs)"
  proof (cases "length ?pay < 1024")
    case True
    let ?cs = "?pay @ [Some 10] @ undef_cells (1023 - length ?pay)"
    obtain h3 where h3: "free (brk h1, 0) (put ?cs h1) = Inr h3" "wf_mem h3" "mem_ext {} h1 h3"
      by (rule free_put [OF s(2)])
    have "store (put (?pay @ undef_cells (1024 - length ?pay)) h1) (brk h1, length ?pay) [Some 10]
        = Inr (put ?cs h1)"
      using True by (simp add: store_put)
    moreover have "cells (put ?cs h1) (brk h1, 0) (length ?pay) = ?pay"
      by (simp add: cells_def)
    ultimately have "app_recv a ?k u s = Inr (after (End (Got a ?pay)) (msg u) (set_msg (msg u) m1 h3 s))"
      using a True h3(1) by (simp add: app_recv_def deref_msg_def s(1) alloc_put flat len set_msg_def)
    then show ?thesis
      using True h3 s(4) mem_ext_trans [OF s(4) h3(3)] msg.keep(1) [OF h3(3) s(3)]
      by (auto simp: app_hop_def)
  next
    case False
    then have "length ?pay = 1024 \<or> 1024 < length ?pay" by auto
    then show ?thesis
      using False a by (auto simp: app_hop_def app_recv_def deref_msg_def s(1) alloc_put flat len store_def)
  qed
qed

subsection \<open>Every thread\<close>

lemma hop_eta:
  "hop c ftp_send_pipe = (\<lambda>i. push_hop FTPHeader tcp_send_pipe 5 (undef_cells 4))"
  "hop c tel_send_pipe = (\<lambda>i. push_hop telnetHeader tcp_send_pipe 6 (undef_cells 4))"
  "hop c rdp_send_pipe = (\<lambda>i. push_hop RDPHeader udp_send_pipe 7 (undef_cells 4))"
  "hop c dns_send_pipe = (\<lambda>i. push_hop DNSHeader udp_send_pipe 8 (undef_cells 4))"
  "hop c tcp_send_pipe = (\<lambda>i. push_hop TCPHeader ip_send_pipe 3 (int_cells i))"
  "hop c udp_send_pipe = (\<lambda>i. push_hop UDPHeader ip_send_pipe 4 (int_cells i))"
  "hop c ip_send_pipe = (\<lambda>i. push_hop IPHeader eth_send_pipe 2 (int_cells i))"
  "hop c eth_send_pipe = eth_hop c"
  "hop c eth_recv_pipe = (\<lambda>i. pop_hop ethHeader sel_eth)"
  "hop c ip_recv_pipe = (\<lambda>i. pop_hop IPHeader sel_ip)"
  "hop c tcp_recv_pipe = (\<lambda>i. pop_hop TCPHeader sel_tcp)"
  "hop c udp_recv_pipe = (\<lambda>i. pop_hop UDPHeader sel_udp)"
  "hop c ftp_recv_pipe = (\<lambda>i. app_hop FTP)" "hop c tel_recv_pipe = (\<lambda>i. app_hop Telnet)"
  "hop c rdp_recv_pipe = (\<lambda>i. app_hop RDP)" "hop c dns_recv_pipe = (\<lambda>i. app_hop DNS)"
  by (simp_all add: fun_eq_iff)

lemma recv_handles:
  "handles eth_recv (\<lambda>i. pop_hop ethHeader sel_eth)" "handles IP_recv (\<lambda>i. pop_hop IPHeader sel_ip)"
  "handles TCP_recv (\<lambda>i. pop_hop TCPHeader sel_tcp)" "handles UDP_recv (\<lambda>i. pop_hop UDPHeader sel_udp)"
  by (rule pop_handles; auto simp: eth_recv_def IP_recv_def TCP_recv_def UDP_recv_def Let_def
      intro!: rbind_cong_right)+

lemma thread_handles: "handles (thread c p) (hop c p)"
proof -
  have app: "handles FTP_recv (\<lambda>i. app_hop FTP)" "handles tel_recv (\<lambda>i. app_hop Telnet)"
    "handles RDP_recv (\<lambda>i. app_hop RDP)" "handles DNS_recv (\<lambda>i. app_hop DNS)"
    using app_recv_handles [of FTP] app_recv_handles [of Telnet] app_recv_handles [of RDP]
      app_recv_handles [of DNS]
    by (simp_all add: FTP_recv_def tel_recv_def RDP_recv_def DNS_recv_def)
  note down = push_handles [OF FTP_send_def] push_handles [OF tel_send_def] push_handles [OF RDP_send_def]
    push_handles [OF DNS_send_def] push_hlp_handles [OF TCP_send_def] push_hlp_handles [OF UDP_send_def]
    push_hlp_handles [OF IP_send_def] eth_send_handles
  show ?thesis
    by (cases p; simp only: thread.simps hop_eta app down recv_handles)
qed

section \<open>Fates\<close>

text \<open>A unit on its way up with the bytes of a datagram ends at the application it is for.\<close>

lemma fate_up:
  assumes "length other = 8" "length app_hlp = 4"
  shows "fate c eth_recv_pipe i (wire other a app_hlp bs) =
    (if length bs < 1024 then Inr (Got a bs) else Inl OutOfBounds)"
proof -
  have app: "pop_app (app_header a) (encap app_hlp (undef_cells (otherInfo_len (app_header a))) bs) = bs"
    by (rule pop_app_encap) (simp add: assms sizeof_hdr_eq)
  show ?thesis
    using assms(1) app
    by (cases a) (simp_all add: wire_def fate.simps pop_hop_def pop_hdr_encap app_hop_def Let_def)
qed

text \<open>A unit on its way down is sent in the wire format.\<close>

fun send_pipe :: "app \<Rightarrow> pipe_id" where
  "send_pipe FTP = ftp_send_pipe" | "send_pipe Telnet = tel_send_pipe"
| "send_pipe RDP = rdp_send_pipe" | "send_pipe DNS = dns_send_pipe"

definition sent_fate :: "link \<Rightarrow> cell list \<Rightarrow> outcome res" where
  "sent_fate c dg = (if length dg \<le> 1024
     then Inr (if os_sendto (os_env c) (upd_sock c) (servaddr c) dg < 0
               then Printed SendtoError else Sent (servaddr c) dg)
     else Inl OutOfBounds)"

lemma fate_down: "fate c (send_pipe a) i bs = sent_fate c (wire (undef_cells 8) a (undef_cells 4) bs)"
  by (cases a) (simp_all add: fate.simps push_hop_def eth_hop_def wire_def sent_fate_def Let_def)

text \<open>A datagram of at least 48 written bytes has a fate that is not a fault: the headers up to
  the transport are there to be read, and what is left fits the application's buffer.\<close>

lemma read_cells_defined: "None \<notin> set cs \<Longrightarrow> \<exists>v. read_cells_i32 cs = Inr v"
proof -
  assume "None \<notin> set cs"
  then have "those cs = Some (map the cs)" by (induction cs) (auto simp: eq_commute [of None])
  then show ?thesis by (simp add: read_cells_i32_def)
qed

lemma pop_hdr_defined:
  assumes "None \<notin> set bs" "sizeof_hdr k \<le> length bs"
  obtains v where "pop_hdr k bs = Inr (v, drop (sizeof_hdr k) bs)"
proof -
  have "None \<notin> set (take 4 bs)" using assms(1) by (auto dest: in_set_takeD)
  then obtain v where "read_cells_i32 (take 4 bs) = Inr v" using read_cells_defined by blast
  then show thesis using assms(2) that by (simp add: pop_hdr_def)
qed

lemma fate_app: "length bs < 1024 \<Longrightarrow> app_hop a bs = Inr (End (Got a (pop_app (app_header a) bs)))"
  using diff_le_self [of "length bs" "sizeof_hdr (app_header a)"]
  by (auto simp: app_hop_def pop_app_def Let_def simp del: diff_le_self)

lemma fate_defined:
  assumes "None \<notin> set bs" "48 \<le> length bs" "length bs \<le> 1024"
  shows "\<exists>x. fate c eth_recv_pipe i bs = Inr x"
proof -
  have d: "None \<notin> set (drop n bs)" for n using assms(1) by (auto dest: in_set_dropD)
  obtain v1 where v1: "pop_hdr ethHeader bs = Inr (v1, drop 16 bs)"
    by (rule pop_hdr_defined [of bs ethHeader]) (use assms in auto)
  obtain v2 where v2: "pop_hdr IPHeader (drop 16 bs) = Inr (v2, drop 36 bs)"
    by (rule pop_hdr_defined [of "drop 16 bs" IPHeader]) (use d assms in auto)
  obtain v3 where v3: "pop_hdr TCPHeader (drop 36 bs) = Inr (v3, drop 48 bs)"
    by (rule pop_hdr_defined [of "drop 36 bs" TCPHeader]) (use d assms in auto)
  obtain v4 where v4: "pop_hdr UDPHeader (drop 36 bs) = Inr (v4, drop 48 bs)"
    by (rule pop_hdr_defined [of "drop 36 bs" UDPHeader]) (use d assms in auto)
  have app: "app_hop a (drop 48 bs) = Inr (End (Got a (pop_app (app_header a) (drop 48 bs))))" for a
    by (rule fate_app) (use assms in simp)
  have tcp: "\<exists>x. fate c tcp_recv_pipe j (drop 36 bs) = Inr x" for j
    using app by (simp add: fate.simps pop_hop_def v3)
  have udp: "\<exists>x. fate c udp_recv_pipe j (drop 36 bs) = Inr x" for j
    using app by (simp add: fate.simps pop_hop_def v4)
  have ip: "\<exists>x. fate c ip_recv_pipe j (drop 16 bs) = Inr x" for j
    using tcp udp by (simp add: fate.simps [of c ip_recv_pipe] pop_hop_def v2)
  show ?thesis
    using ip by (simp add: fate.simps [of c eth_recv_pipe] pop_hop_def v1)
qed

end
