(* ===== verification/Runs.thy ===== *)
theory Runs
  imports Hops
begin

text \<open>
  Runs of the process per protocol host under any interleaving of its threads: an invariant of
  the pipes and messages, the account of what became of every unit, and termination.
\<close>

instantiation pipe_id :: enum
begin

definition enum_pipe_id :: "pipe_id list" where
  "enum_pipe_id = [ftp_send_pipe, tel_send_pipe, rdp_send_pipe, dns_send_pipe,
     ftp_recv_pipe, tel_recv_pipe, rdp_recv_pipe, dns_recv_pipe,
     tcp_send_pipe, tcp_recv_pipe, udp_send_pipe, udp_recv_pipe,
     ip_send_pipe, ip_recv_pipe, eth_send_pipe, eth_recv_pipe]"

definition enum_all_pipe_id :: "(pipe_id \<Rightarrow> bool) \<Rightarrow> bool" where
  "enum_all_pipe_id P \<longleftrightarrow> list_all P enum_class.enum"

definition enum_ex_pipe_id :: "(pipe_id \<Rightarrow> bool) \<Rightarrow> bool" where
  "enum_ex_pipe_id P \<longleftrightarrow> list_ex P enum_class.enum"

instance
proof
  have all: "x \<in> set (enum_class.enum :: pipe_id list)" for x
    by (cases x) (simp_all add: enum_pipe_id_def)
  then show "UNIV = set (enum_class.enum :: pipe_id list)" by blast
  show "distinct (enum_class.enum :: pipe_id list)" by (simp add: enum_pipe_id_def)
  show "enum_class.enum_all P \<longleftrightarrow> Ball UNIV P" for P :: "pipe_id \<Rightarrow> bool"
    using all by (auto simp: enum_all_pipe_id_def list_all_iff)
  show "enum_class.enum_ex P \<longleftrightarrow> Bex UNIV P" for P :: "pipe_id \<Rightarrow> bool"
    using all by (auto simp: enum_ex_pipe_id_def list_ex_iff)
qed

end

section \<open>The units in the pipes\<close>

definition units :: "host \<Rightarrow> (pipe_id \<times> pipe_unit) multiset" where
  "units s = (\<Sum>p\<in>UNIV. image_mset (Pair p) (mset (pipe s p)))"

lemma units_upd: "units (s\<lparr>pipe := (pipe s)(p := us)\<rparr>)
    = image_mset (Pair p) (mset us) + (\<Sum>q\<in>UNIV - {p}. image_mset (Pair q) (mset (pipe s q)))"
  by (simp add: units_def sum.remove [of UNIV p])

lemma units_split: "units s = image_mset (Pair p) (mset (pipe s p))
    + (\<Sum>q\<in>UNIV - {p}. image_mset (Pair q) (mset (pipe s q)))"
  by (simp add: units_def sum.remove [of UNIV p])

lemma units_pop:
  "pipe s p = u # us \<Longrightarrow> units s = add_mset (p, u) (units (s\<lparr>pipe := (pipe s)(p := us)\<rparr>))"
  by (simp add: units_upd units_split [of s p])

lemma units_write [simp]: "units (write_pipe p i m s) = add_mset (p, \<lparr>protocol_id = i, msg = m\<rparr>) (units s)"
  by (simp add: write_pipe_def units_upd units_split [of s p])

lemma units_cong: "pipe s = pipe t \<Longrightarrow> units s = units t"
  by (simp add: units_def)

lemma log_simps [simp]:
  "pipe (log x s) = pipe s" "heap (log x s) = heap s" "objs (log x s) = objs s" "nobj (log x s) = nobj s"
  by (cases x; simp)+

section \<open>Invariant and account\<close>

definition unit_bytes :: "host \<Rightarrow> pipe_unit \<Rightarrow> cell list" where
  "unit_bytes s u = msg_bytes (heap s) (the (objs s (msg u)))"

definition unit_ok :: "host \<Rightarrow> pipe_id \<times> pipe_unit \<Rightarrow> bool" where
  "unit_ok s = (\<lambda>(p, u). case objs s (msg u) of None \<Rightarrow> False
     | Some m \<Rightarrow> wf_msg (heap s) m \<and> length (msg_bytes (heap s) m) + 20 * level p < 2 ^ 31)"

definition unit_fate :: "link \<Rightarrow> host \<Rightarrow> pipe_id \<times> pipe_unit \<Rightarrow> outcome res" where
  "unit_fate c s = (\<lambda>(p, u). fate c p (protocol_id u) (unit_bytes s u))"

text \<open>Memory is well formed, every unit has a message of its own that is well formed and has room
  for the headers to come, and the counter has room for the units in the pipes and \<open>k\<close> more.\<close>

definition host_inv :: "nat \<Rightarrow> host \<Rightarrow> bool" where
  "host_inv k s \<longleftrightarrow> wf_mem (heap s) \<and> (\<forall>i. nobj s \<le> i \<longrightarrow> objs s i = None)
     \<and> (\<forall>x. x \<in># units s \<longrightarrow> unit_ok s x)
     \<and> (\<forall>i. count (image_mset (\<lambda>x. msg (snd x)) (units s)) i \<le> 1)
     \<and> 0 \<le> mCounter s \<and> mCounter s + int (size (units s)) + int k < 2 ^ 31"

definition outcomes :: "host \<Rightarrow> outcome multiset" where
  "outcomes s = image_mset (\<lambda>(a, bs). Sent a bs) (mset (sent s))
     + image_mset (\<lambda>(a, bs). Got a bs) (mset (taken s)) + image_mset Printed (mset (diags s))"

fun is_got :: "outcome \<Rightarrow> bool" where
  "is_got (Sent a dg) = False" | "is_got (Got a bs) = True" | "is_got (Printed d) = False"

text \<open>What has come out so far, and what will become of the units in the pipes.\<close>

definition account :: "link \<Rightarrow> host \<Rightarrow> outcome res multiset" where
  "account c s = image_mset Inr (outcomes s) + image_mset (unit_fate c s) (units s)"

definition turns :: "host \<Rightarrow> nat" where
  "turns s = (\<Sum>x\<in>#units s. level (fst x))"

lemma outcomes_log [simp]: "outcomes (log x s) = add_mset x (outcomes s)"
  by (cases x) (simp_all add: outcomes_def)

lemma outcomes_write [simp]: "outcomes (write_pipe p i m s) = outcomes s"
  by (simp add: write_pipe_def outcomes_def)

lemma write_simps [simp]:
  "heap (write_pipe p i m s) = heap s" "objs (write_pipe p i m s) = objs s"
  "nobj (write_pipe p i m s) = nobj s" "mCounter (write_pipe p i m s) = mCounter s"
  by (simp_all add: write_pipe_def)

lemma set_msg_simps [simp]:
  "heap (set_msg i m h s) = h" "objs (set_msg i m h s) = (objs s)(i \<mapsto> m)"
  "nobj (set_msg i m h s) = nobj s" "mCounter (set_msg i m h s) = mCounter s"
  "pipe (set_msg i m h s) = pipe s" "outcomes (set_msg i m h s) = outcomes s"
  by (simp_all add: set_msg_def outcomes_def)

text \<open>What is said of a unit depends on memory and the objects only.\<close>

lemma unit_cong:
  assumes "heap s = heap t" "objs s = objs t"
  shows "unit_ok s = unit_ok t" "unit_fate c s = unit_fate c t"
  using assms by (simp_all add: fun_eq_iff unit_ok_def unit_fate_def unit_bytes_def split: option.split)

lemma unit_keep:
  assumes "mem_ext {} (heap s) h'" "unit_ok s x" "msg (snd x) \<noteq> i"
    "heap t = h'" "objs t = (objs s)(i \<mapsto> m)"
  shows "unit_ok t x" "unit_fate c t x = unit_fate c s x"
  using assms
  by (auto simp: unit_ok_def unit_fate_def unit_bytes_def msg.keep split: prod.splits option.splits)

section \<open>One turn\<close>

lemma fate_hop:
  "hop c p i bs = Inl e \<Longrightarrow> fate c p i bs = Inl e"
  "hop c p i bs = Inr (End x) \<Longrightarrow> fate c p i bs = Inr x"
  "hop c p i bs = Inr (Next q j bs') \<Longrightarrow> fate c p i bs = fate c q j bs'"
  by (simp_all add: fate.simps [of c p])

lemma host_invD:
  assumes "host_inv k s"
  shows "wf_mem (heap s)" "0 \<le> mCounter s" "mCounter s + int (size (units s)) + int k < 2 ^ 31"
    and "x \<in># units s \<Longrightarrow> unit_ok s x" "nobj s \<le> i \<Longrightarrow> objs s i = None"
  using assms unfolding host_inv_def by blast+

text \<open>Once a unit is read, no other unit has its message.\<close>

lemma popped:
  assumes "host_inv k s" "pipe s p = u # us"
  defines "s0 \<equiv> s\<lparr>pipe := (pipe s)(p := us)\<rparr>"
  shows "units s = add_mset (p, u) (units s0)"
    and "x \<in># units s0 \<Longrightarrow> msg (snd x) \<noteq> msg u"
    and "count (image_mset (\<lambda>x. msg (snd x)) (units s0)) i + (if i = msg u then 1 else 0) \<le> 1"
    and "unit_ok s (p, u)" "x \<in># units s0 \<Longrightarrow> unit_ok s0 x" "unit_fate c s0 = unit_fate c s"
    "outcomes s0 = outcomes s"
proof -
  show u: "units s = add_mset (p, u) (units s0)"
    unfolding s0_def by (rule units_pop [OF assms(2)])
  have cnt: "count (image_mset (\<lambda>x. msg (snd x)) (units s)) i \<le> 1" for i
    using assms(1) by (simp add: host_inv_def)
  show "count (image_mset (\<lambda>x. msg (snd x)) (units s0)) i + (if i = msg u then 1 else 0) \<le> 1"
    using cnt [of i] unfolding u by (auto split: if_splits)
  show "msg (snd x) \<noteq> msg u" if "x \<in># units s0"
  proof
    assume "msg (snd x) = msg u"
    then have "msg u \<in># image_mset (\<lambda>x. msg (snd x)) (units s0)" using that by force
    then have "0 < count (image_mset (\<lambda>x. msg (snd x)) (units s0)) (msg u)"
      by (simp only: count_greater_zero_iff)
    moreover have "count (image_mset (\<lambda>x. msg (snd x)) (units s0)) (msg u) = 0"
      using cnt [of "msg u"] unfolding u by simp
    ultimately show False by linarith
  qed
  show "unit_ok s (p, u)" using host_invD(4) [OF assms(1), of "(p, u)"] u by simp
  have "unit_ok s0 = unit_ok s" by (rule unit_cong) (simp_all add: s0_def)
  then show "unit_ok s0 x" if "x \<in># units s0" using host_invD(4) [OF assms(1), of x] that u by simp
  show "unit_fate c s0 = unit_fate c s" by (rule unit_cong) (simp_all add: s0_def)
  show "outcomes s0 = outcomes s" by (simp add: outcomes_def s0_def)
qed

lemma log_mCounter: "mCounter s \<le> mCounter (log x s)" "mCounter (log x s) \<le> mCounter s + 1"
  by (cases x; simp)+

lemma after_step:
  fixes c :: link
  assumes inv: "host_inv k s" and p: "pipe s p = u # us"
    and m: "objs s (msg u) = Some m" "length (msg_bytes (heap s) m) + 20 * level p < 2 ^ 31"
    and hop: "hop c p (protocol_id u) (msg_bytes (heap s) m) = Inr r"
    and h: "wf_mem h'" "mem_ext {} (heap s) h'" "wf_msg h' m'"
      "\<And>q j bs. r = Next q j bs \<Longrightarrow> msg_bytes h' m' = bs"
    and t: "t = after r (msg u) (set_msg (msg u) m' h' (s\<lparr>pipe := (pipe s)(p := us)\<rparr>))"
  shows "host_inv k t \<and> account c t = account c s \<and> turns t < turns s"
proof -
  let ?s0 = "s\<lparr>pipe := (pipe s)(p := us)\<rparr>"
  note pop = popped [OF inv p] and D = host_invD [OF inv]
  have fate: "unit_fate c s (p, u) = fate c p (protocol_id u) (msg_bytes (heap s) m)"
    by (simp add: unit_fate_def unit_bytes_def m)
  have ht: "heap t = h'" "objs t = (objs s)(msg u \<mapsto> m')" "nobj t = nobj s"
    by (cases r; simp add: t)+
  have keep: "unit_ok t x" "unit_fate c t x = unit_fate c s x" if "x \<in># units ?s0" for x
    using unit_keep(1) [of ?s0 h' x "msg u" t m'] unit_keep(2) [of ?s0 h' x "msg u" t m' c] h(2) pop(2,5,6) that ht by simp_all
  then have fates: "image_mset (unit_fate c t) (units ?s0) = image_mset (unit_fate c s) (units ?s0)"
    by (auto intro: image_mset_cong)
  have objs: "objs t i = None" if "nobj t \<le> i" for i
    using D(5) [of i] that m(1) ht by (auto split: if_splits)
  show ?thesis
  proof (cases r)
    case (End x)
    have ut: "units t = units ?s0" unfolding t End by (simp add: units_cong)
    have "mCounter s \<le> mCounter t" "mCounter t \<le> mCounter s + 1"
      using log_mCounter [where s = "set_msg (msg u) m' h' ?s0" and x = x] by (simp_all add: t End)
    moreover have "\<forall>i. count (image_mset (\<lambda>x. msg (snd x)) (units ?s0)) i \<le> 1"
      using pop(3) by (meson add_leD1)
    ultimately have "host_inv k t"
      using h(1) ht(1) objs keep(1) D(2,3) unfolding host_inv_def ut pop(1) by auto
    moreover have "account c t = account c s"
      unfolding account_def ut fates unfolding pop(1) t End
      by (simp add: fate fate_hop(2) [OF hop [unfolded End]] pop(7))
    moreover have "turns t < turns s"
      unfolding turns_def ut pop(1) by (cases p; simp)
    ultimately show ?thesis by simp
  next
    case (Next q j bs)
    let ?v = "\<lparr>protocol_id = j, msg = msg u\<rparr>"
    have ut: "units t = add_mset (q, ?v) (units ?s0)"
      unfolding t Next by (simp add: units_cong [of "set_msg (msg u) m' h' ?s0" ?s0])
    have q: "level q < level p" "length bs \<le> length (msg_bytes (heap s) m) + 20"
      using hop_Next [OF hop [unfolded Next]] by simp_all
    have bs: "msg_bytes h' m' = bs" by (rule h(4) [OF Next])
    have "unit_ok t (q, ?v)"
      using h(3) m(2) q by (simp add: unit_ok_def ht bs)
    moreover have "mCounter t = mCounter s" by (simp add: t Next)
    moreover have "count (image_mset (\<lambda>x. msg (snd x)) (units t)) i \<le> 1" for i
      using pop(3) [of i] unfolding ut by (simp split: if_splits)
    ultimately have "host_inv k t"
      using h(1) ht(1) objs keep(1) D(2,3) unfolding host_inv_def pop(1) by (auto simp: ut)
    moreover have "unit_fate c t (q, ?v) = unit_fate c s (p, u)"
      unfolding fate fate_hop(3) [OF hop [unfolded Next]]
      by (simp add: unit_fate_def unit_bytes_def ht bs)
    then have "account c t = account c s"
      unfolding account_def ut pop(1) image_mset_add_mset fates
      by (simp add: t Next pop(7))
    moreover have "turns t < turns s"
      using q(1) unfolding turns_def ut pop(1) by simp
    ultimately show ?thesis by simp
  qed
qed

lemma work_step:
  fixes c :: link
  assumes inv: "host_inv k s" and p: "pipe s p = u # us"
  defines "r \<equiv> thread c p u (s\<lparr>pipe := (pipe s)(p := us)\<rparr>)"
  shows "r = Inl e \<Longrightarrow> Inl e \<in># account c s"
    and "r = Inr t \<Longrightarrow> host_inv k t \<and> account c t = account c s \<and> turns t < turns s"
proof -
  let ?s0 = "s\<lparr>pipe := (pipe s)(p := us)\<rparr>"
  note pop = popped [OF inv p]
  obtain m where m: "objs s (msg u) = Some m" "wf_msg (heap s) m"
    "length (msg_bytes (heap s) m) + 20 * level p < 2 ^ 31"
    using pop(4) by (auto simp: unit_ok_def split: option.splits)
  let ?bs = "msg_bytes (heap s) m"
  have fate: "unit_fate c s (p, u) = fate c p (protocol_id u) ?bs"
    by (simp add: unit_fate_def unit_bytes_def m)
  have small: "length ?bs + 20 < 2 ^ 31"
    using m(3) by (cases p) simp_all
  have "mCounter s + 1 < 2 ^ 31"
    using host_invD(3) [OF inv] unfolding pop(1) by simp
  note h = handlesD [OF thread_handles, of ?s0 u m c p, simplified, OF host_invD(1) [OF inv] m(1,2)
      small [simplified] host_invD(2) [OF inv] this [simplified], folded r_def]
  show "Inl e \<in># account c s" if "r = Inl e"
  proof (cases "hop c p (protocol_id u) ?bs")
    case (Inl e')
    with h(1) that fate_hop(1) [OF Inl] show ?thesis by (simp add: account_def pop(1) fate)
  qed (use h(2) that in auto)
  show "host_inv k t \<and> account c t = account c s \<and> turns t < turns s" if "r = Inr t"
  proof (cases "hop c p (protocol_id u) ?bs")
    case (Inr n)
    from h(2) [OF this] that obtain m' h' where
      "t = after n (msg u) (set_msg (msg u) m' h' ?s0)" "wf_mem h'" "mem_ext {} (heap s) h'"
      "wf_msg h' m'" "\<forall>q j bs. n = Next q j bs \<longrightarrow> msg_bytes h' m' = bs" by auto
    then show ?thesis using after_step [OF inv p m(1,3) Inr, of h' m' t] by blast
  qed (use h(1) that in auto)
qed

section \<open>Arrivals and submissions\<close>

text \<open>What will become of an input.\<close>

fun submit_fate :: "link \<Rightarrow> i32 \<Rightarrow> cell list \<Rightarrow> outcome res" where
  "submit_fate c i bs =
     (if i = FTP_ID then fate c ftp_send_pipe i bs
      else if i = TELNET_ID then fate c tel_send_pipe i bs
      else if i = RDP_ID then fate c rdp_send_pipe i bs
      else if i = DNS_ID then fate c dns_send_pipe i bs
      else Inr (Printed InvalidProtocolId))"

fun input_fate :: "link \<Rightarrow> label \<Rightarrow> outcome res multiset" where
  "input_fate c (Work p) = {#}"
| "input_fate c (Arrive None) = {#}"
| "input_fate c (Arrive (Some dg)) = {# fate c eth_recv_pipe 0 (take 1024 dg) #}"
| "input_fate c (Submit bs i) = {# submit_fate c i bs #}"

text \<open>The inputs the account covers: no failed \<open>recvfrom\<close>, and room for the headers.\<close>

fun proper :: "label \<Rightarrow> bool" where
  "proper (Work p) \<longleftrightarrow> True"
| "proper (Arrive dg) \<longleftrightarrow> dg \<noteq> None"
| "proper (Submit bs i) \<longleftrightarrow> length bs + 80 < 2 ^ 31"

fun is_input :: "label \<Rightarrow> bool" where
  "is_input (Work p) = False" | "is_input (Arrive dg) = True" | "is_input (Submit bs i) = True"

lemma unit_not_fresh: "host_inv k s \<Longrightarrow> x \<in># units s \<Longrightarrow> msg (snd x) \<noteq> nobj s"
  using host_invD(4) [of k s x] host_invD(5) [of k s "nobj s"] by (auto simp: unit_ok_def split: prod.splits)

lemma new_unit:
  fixes c :: link
  assumes inv: "host_inv (Suc k) s"
    and m: "wf_msg h' m" "length (msg_bytes h' m) + 20 * level p < 2 ^ 31"
    and h': "wf_mem h'" "mem_ext {} (heap s) h'"
    and t: "heap t = h'" "objs t = (objs s)(nobj s \<mapsto> m)" "nobj t = Suc (nobj s)"
      "units t = add_mset (p, \<lparr>protocol_id = i, msg = nobj s\<rparr>) (units s)"
      "mCounter t = mCounter s" "outcomes t = outcomes s"
  shows "host_inv k t" "account c t = add_mset (fate c p i (msg_bytes h' m)) (account c s)"
proof -
  note D = host_invD [OF inv]
  note other = unit_not_fresh [OF inv]
  have keep: "unit_ok t x" "unit_fate c t x = unit_fate c s x" if "x \<in># units s" for x
    using unit_keep(1) [of s h' x "nobj s" t m] unit_keep(2) [of s h' x "nobj s" t m c]
      h'(2) D(4) other that t by simp_all
  have new: "unit_ok t (p, \<lparr>protocol_id = i, msg = nobj s\<rparr>)"
    "unit_fate c t (p, \<lparr>protocol_id = i, msg = nobj s\<rparr>) = fate c p i (msg_bytes h' m)"
    using m t by (simp_all add: unit_ok_def unit_fate_def unit_bytes_def)
  have cnt: "count (image_mset (\<lambda>x. msg (snd x)) (units s)) j \<le> 1" for j
    using inv by (simp add: host_inv_def)
  have "nobj s \<notin># image_mset (\<lambda>x. msg (snd x)) (units s)" using other by fastforce
  then have none: "count (image_mset (\<lambda>x. msg (snd x)) (units s)) (nobj s) = 0"
    by (simp only: count_eq_zero_iff not_False_eq_True)
  have "count (image_mset (\<lambda>x. msg (snd x)) (units t)) j \<le> 1" for j
    using cnt [of j] none unfolding t(4) by (cases "j = nobj s") simp_all
  moreover have "\<forall>x. x \<in># units t \<longrightarrow> unit_ok t x"
    using keep(1) new(1) by (auto simp: t(4))
  ultimately show "host_inv k t"
    using D(2,3,5) h'(1) unfolding host_inv_def by (auto simp: t)
  have "image_mset (unit_fate c t) (units s) = image_mset (unit_fate c s) (units s)"
    using keep(2) by (auto intro: image_mset_cong)
  then show "account c t = add_mset (fate c p i (msg_bytes h' m)) (account c s)"
    by (simp add: account_def t(4,6) new(2))
qed

lemma outcomes_upd [simp]:
  "outcomes (s\<lparr>heap := h\<rparr>) = outcomes s" "outcomes (s\<lparr>objs := f\<rparr>) = outcomes s"
  "outcomes (s\<lparr>nobj := n\<rparr>) = outcomes s" "outcomes (s\<lparr>pipe := q\<rparr>) = outcomes s"
  by (simp_all add: outcomes_def)

lemma msg_recv_eq:
  assumes "wf_mem (heap s)"
  obtains m h where "msg_recv (Some bs) s = Inr (write_pipe eth_recv_pipe 0 (nobj s)
      (s\<lparr>heap := h, objs := (objs s)(nobj s \<mapsto> m), nobj := Suc (nobj s)\<rparr>))"
    "wf_mem h" "wf_msg h m" "msg_bytes h m = take 1024 bs" "mem_ext {} (heap s) h"
proof -
  let ?h = "put (take 1024 bs @ drop (length bs) (replicate 1024 (Some 0))) (heap s)"
  let ?n = "min 1024 (length bs)"
  have rd: "readable ?h (brk (heap s), 0) ?n" "cells ?h (brk (heap s), 0) ?n = take 1024 bs"
    by (auto simp: readable_def cells_def min_def)
  have "?n < 2 ^ 31" by simp
  from msg_new_spec [OF rd(1) this] show thesis
    using assms rd(2)
    by (intro that [of "Message_new (brk (heap s), 0) (word_of_nat ?n)" ?h])
      (simp_all add: msg_recv_def alloc_put memset_put recvfrom_put new_Message_def
        size_of_int_nat del: of_nat_min)
qed

lemma arrive_step:
  fixes c :: link
  assumes inv: "host_inv (Suc k) s"
  obtains t where "msg_recv (Some bs) s = Inr t" "host_inv k t"
    "account c t = account c s + input_fate c (Arrive (Some bs))"
proof -
  obtain m h where m: "msg_recv (Some bs) s = Inr (write_pipe eth_recv_pipe 0 (nobj s)
      (s\<lparr>heap := h, objs := (objs s)(nobj s \<mapsto> m), nobj := Suc (nobj s)\<rparr>))"
    "wf_mem h" "wf_msg h m" "msg_bytes h m = take 1024 bs" "mem_ext {} (heap s) h"
    by (rule msg_recv_eq [OF host_invD(1) [OF inv]])
  let ?s1 = "s\<lparr>heap := h, objs := (objs s)(nobj s \<mapsto> m), nobj := Suc (nobj s)\<rparr>"
  let ?t = "write_pipe eth_recv_pipe 0 (nobj s) ?s1"
  have u: "units ?t = add_mset (eth_recv_pipe, \<lparr>protocol_id = 0, msg = nobj s\<rparr>) (units s)"
    "outcomes ?t = outcomes s"
    by (simp_all add: units_cong [of ?s1 s])
  have "length (msg_bytes h m) + 20 * level eth_recv_pipe < 2 ^ 31" by (simp add: m(4))
  then show thesis
    using new_unit [OF inv m(3) _ m(2,5) _ _ _ u(1) _ u(2)] m(1,4) that [of ?t] by simp
qed

text \<open>A new message written to the pipe of an application, whatever the id.\<close>

lemma put_step:
  fixes c :: link and i :: i32
  assumes inv: "host_inv (Suc k) s" and p: "readable (heap s) p n" "n + 80 < 2 ^ 31"
    and new: "new_Message p (word_of_nat n) s = (m, s1)" and q: "level q = 4"
  shows "host_inv k (write_pipe q i m s1)"
    and "account c (write_pipe q i m s1) = add_mset (fate c q i (cells (heap s) p n)) (account c s)"
proof -
  let ?m = "Message_new p (word_of_nat n)" and ?bs = "cells (heap s) p n"
  have "n < 2 ^ 31" using p(2) by simp
  note msg = msg_new_spec [OF p(1) this]
  have s1: "s1 = s\<lparr>objs := (objs s)(nobj s \<mapsto> ?m), nobj := Suc (nobj s)\<rparr>" "m = nobj s"
    using new by (auto simp: new_Message_def)
  show "host_inv k (write_pipe q i m s1)"
    "account c (write_pipe q i m s1) = add_mset (fate c q i ?bs) (account c s)"
    using new_unit(1) [OF inv msg(1) _ host_invD(1) [OF inv] mem_ext_refl, of q "write_pipe q i (nobj s) s1" i]
      new_unit(2) [OF inv msg(1) _ host_invD(1) [OF inv] mem_ext_refl, of q "write_pipe q i (nobj s) s1" i c]
      p q by (simp_all add: s1 msg(2) units_cong [of "s\<lparr>objs := (objs s)(nobj s \<mapsto> ?m), nobj := Suc (nobj s)\<rparr>" s])
qed

lemma submit_step:
  fixes c :: link and i :: i32
  assumes inv: "host_inv (Suc k) s" and p: "readable (heap s) p n" "n + 80 < 2 ^ 31"
    and new: "new_Message p (word_of_nat n) s = (m, s1)"
  defines "t \<equiv> msg_send m i s1"
  shows "host_inv k t" "account c t = account c s + input_fate c (Submit (cells (heap s) p n) i)"
proof -
  let ?m = "Message_new p (word_of_nat n)" and ?bs = "cells (heap s) p n"
  have s1: "s1 = s\<lparr>objs := (objs s)(nobj s \<mapsto> ?m), nobj := Suc (nobj s)\<rparr>" "m = nobj s"
    using new by (auto simp: new_Message_def)
  note wr = put_step [OF inv p new, unfolded s1(2)]
  note D = host_invD [OF inv]
  have bad: "host_inv k t" "account c t = account c s + input_fate c (Submit ?bs i)"
    if i: "i \<notin> {FTP_ID, TELNET_ID, RDP_ID, DNS_ID}"
  proof -
    have t: "t = s1\<lparr>diags := diags s @ [InvalidProtocolId]\<rparr>"
      using i by (simp add: t_def msg_send_def s1)
    have u: "units t = units s" by (rule units_cong) (simp add: t s1)
    have keep: "unit_ok t x" "unit_fate c t x = unit_fate c s x" if "x \<in># units s" for x
      using unit_keep(1) [of s "heap s" x "nobj s" t ?m] unit_keep(2) [of s "heap s" x "nobj s" t ?m c]
        unit_not_fresh [OF inv] D(4) that by (simp_all add: t s1)
    then have "image_mset (unit_fate c t) (units s) = image_mset (unit_fate c s) (units s)"
      by (auto intro: image_mset_cong)
    moreover have "outcomes t = add_mset (Printed InvalidProtocolId) (outcomes s)"
      by (simp add: t s1 outcomes_def)
    ultimately show "account c t = account c s + input_fate c (Submit ?bs i)"
      using i by (simp add: account_def u)
    show "host_inv k t"
      using inv keep(1) unfolding host_inv_def u by (auto simp: t s1)
  qed
  show "host_inv k t" "account c t = account c s + input_fate c (Submit ?bs i)"
    using wr bad by (auto simp: t_def s1(2) msg_send_def)
qed

section \<open>Runs\<close>

definition inputs :: "label list \<Rightarrow> nat" where
  "inputs ls = length (filter is_input ls)"

definition inputs_fate :: "link \<Rightarrow> label list \<Rightarrow> outcome res multiset" where
  "inputs_fate c ls = (\<Sum>l\<leftarrow>ls. input_fate c l)"

lemma inputs_simps [simp]:
  "inputs [] = 0" "inputs (l # ls) = (if is_input l then Suc (inputs ls) else inputs ls)"
  "inputs_fate c [] = {#}" "inputs_fate c (l # ls) = input_fate c l + inputs_fate c ls"
  by (simp_all add: inputs_def inputs_fate_def)

lemma host_step_cases:
  fixes c :: link
  assumes inv: "host_inv (if is_input l then Suc k else k) s" and step: "host_step c s l r" "proper l"
  shows "case r of Inl e \<Rightarrow> Inl e \<in># account c s
    | Inr t \<Rightarrow> host_inv k t \<and> account c t = account c s + input_fate c l \<and> (is_input l \<or> turns t < turns s)"
  using step(1)
proof (cases rule: host_step.cases)
  case (work p u us)
  then show ?thesis
    using work_step(1) [of k s p u us c] work_step(2) [of k s p u us c] inv by (auto split: sum.splits)
next
  case (arrive dg)
  then obtain bs where bs: "dg = Some bs" using step(2) by auto
  obtain t where "msg_recv (Some bs) s = Inr t" "host_inv k t"
    "account c t = account c s + input_fate c (Arrive (Some bs))"
    using arrive_step [of k s bs c] inv arrive by auto
  then show ?thesis using arrive bs by simp
next
  case (submit p n m s1 i)
  have "host_inv (Suc k) s" using inv submit by simp
  moreover have "n + 80 < 2 ^ 31" using step(2) submit by simp
  ultimately show ?thesis
    using submit_step(1) [of k s p n m s1 i] submit_step(2) [of k s p n m s1 c i] submit by simp
qed

lemma host_step_inv:
  fixes c :: link
  assumes "host_inv (if is_input l then Suc k else k) s" "host_step c s l r" "proper l"
  shows "r = Inl e \<Longrightarrow> Inl e \<in># account c s"
    and "r = Inr t \<Longrightarrow> host_inv k t \<and> account c t = account c s + input_fate c l"
    and "r = Inr t \<Longrightarrow> \<not> is_input l \<Longrightarrow> turns t < turns s"
  using host_step_cases [OF assms] by auto

lemma host_run_inv:
  fixes c :: link
  assumes "host_run c s ls r" "host_inv (k + inputs ls) s" "list_all proper ls"
  shows "case r of Inl e \<Rightarrow> Inl e \<in># account c s + inputs_fate c ls
    | Inr t \<Rightarrow> host_inv k t \<and> account c t = account c s + inputs_fate c ls"
  using assms
proof (induction arbitrary: k rule: host_run.induct)
  case (stop s)
  then show ?case by simp
next
  case (fault s l e)
  then show ?case using host_step_inv(1) [OF _ fault(1), of k e] by (simp split: if_splits)
next
  case (step s l t ls r)
  have "host_inv (k + inputs ls) t" "account c t = account c s + input_fate c l"
    using host_step_inv(2) [OF _ step(1), of "k + inputs ls" t] step.prems by (simp_all split: if_splits)
  then show ?case
    using step.IH [of k] step.prems by (simp add: add.assoc split: sum.splits)
qed

lemma no_inputs: "inputs ls = 0 \<Longrightarrow> list_all proper ls \<and> inputs_fate c ls = {#}"
proof (induction ls)
  case (Cons l ls)
  then show ?case by (cases l) auto
qed simp

text \<open>A run of the threads alone takes at most \<open>turns s\<close> steps.\<close>

lemma work_run_bound:
  fixes c :: link
  assumes "host_run c s ls (Inr t)" "host_inv k s" "inputs ls = 0" "list_all proper ls"
  shows "length ls + turns t \<le> turns s"
  using assms
proof (induction s ls "Inr t :: host res" rule: host_run.induct)
  case (step s l t' ls)
  then have "\<not> is_input l" by (auto split: if_splits)
  moreover have "host_inv k t'" "turns t' < turns s"
    using host_step_inv(2,3) [OF _ step(1), of k t'] step.prems calculation by simp_all
  ultimately show ?case using step by simp
qed simp

section \<open>Coming to rest\<close>

definition quiet :: "host \<Rightarrow> bool" where
  "quiet s \<longleftrightarrow> (\<forall>p. pipe s p = [])"

lemma quiet_units: "quiet s \<Longrightarrow> units s = {#}"
  by (simp add: quiet_def units_def)

lemma quiet_account: "quiet s \<Longrightarrow> account c s = image_mset Inr (outcomes s)"
  by (simp add: account_def quiet_units)

lemma host_drains:
  fixes c :: link
  assumes "host_inv k s" "\<And>e. Inl e \<notin># account c s"
  shows "\<exists>ls t. host_run c s ls (Inr t) \<and> inputs ls = 0 \<and> list_all proper ls \<and> quiet t
    \<and> image_mset Inr (outcomes t) = account c s"
  using assms
proof (induction "turns s" arbitrary: s rule: less_induct)
  case less
  show ?case
  proof (cases "quiet s")
    case True
    then show ?thesis
      using host_run.stop [of c s] by (intro exI [of _ "[]"] exI [of _ s]) (simp add: quiet_account)
  next
    case False
    then obtain p u us where p: "pipe s p = u # us" by (auto simp: quiet_def neq_Nil_conv)
    let ?r = "thread c p u (s\<lparr>pipe := (pipe s)(p := us)\<rparr>)"
    obtain t where t: "?r = Inr t"
      using work_step(1) [OF less.prems(1) p] less.prems(2) by (cases ?r) auto
    with work_step(2) [OF less.prems(1) p this] less.hyps [of t] less.prems(2) obtain ls t'
      where "host_run c t ls (Inr t')" "inputs ls = 0" "list_all proper ls" "quiet t'"
      "image_mset Inr (outcomes t') = account c s" by auto
    moreover have "host_step c s (Work p) (Inr t)" using host_step.work [OF p, of c] t by simp
    ultimately show ?thesis
      by (intro exI [of _ "Work p # ls"] exI [of _ t']) (auto intro: host_run.step)
  qed
qed

lemma host_inv_mono: "host_inv k s \<Longrightarrow> j \<le> k \<Longrightarrow> host_inv j s"
  by (auto simp: host_inv_def)

section \<open>One input to a host at rest\<close>

lemma submit_outcome:
  assumes "host_inv 1 s" "quiet s" "readable (heap s) p n"
    and "new_Message p (word_of_nat n) s = (m, s1)"
    and dg: "dg = wire (undef_cells 8) a (undef_cells 4) (cells (heap s) p n)" "length dg \<le> 1024"
    and run: "host_run c (msg_send m (app_id a) s1) ls (Inr t)" "inputs ls = 0" "quiet t"
  shows "outcomes t = add_mset (if os_sendto (os_env c) (upd_sock c) (servaddr c) dg < 0
      then Printed SendtoError else Sent (servaddr c) dg) (outcomes s)"
proof -
  have inv: "host_inv (Suc 0) s" using assms(1) by simp
  have "length (cells (heap s) p n) = n" using assms(3) by simp
  then have "n + 80 < 2 ^ 31" using dg by (simp add: length_wire)
  note s2 = submit_step [OF inv assms(3) this assms(4), where i = "app_id a"]
  have "account c t = account c (msg_send m (app_id a) s1)"
    using host_run_inv [OF run(1), of 0] s2(1) no_inputs [OF run(2), of c] run(2) by simp
  also have "\<dots> = image_mset Inr (outcomes s) + {# submit_fate c (app_id a) (cells (heap s) p n) #}"
    using s2(2) [where c = c] by (simp add: quiet_account [OF assms(2)])
  also have "submit_fate c (app_id a) (cells (heap s) p n) = sent_fate c dg"
    using fate_down [of c a "app_id a"] by (cases a) (simp_all add: dg(1))
  finally have "image_mset Inr (outcomes t) = (image_mset Inr (add_mset (if os_sendto (os_env c)
      (upd_sock c) (servaddr c) dg < 0 then Printed SendtoError else Sent (servaddr c) dg) (outcomes s))
      :: outcome res multiset)"
    using dg(2) by (simp add: quiet_account [OF run(3)] sent_fate_def)
  then show ?thesis by (rule multiset.inj_map_strong [rotated]) simp
qed

lemma arrive_outcome:
  assumes "host_inv 1 s" "quiet s" "msg_recv (Some dg) s = Inr s1"
    and run: "host_run c s1 ls (Inr t)" "inputs ls = 0" "quiet t"
    and x: "fate c eth_recv_pipe 0 (take 1024 dg) = Inr x"
  shows "outcomes t = add_mset x (outcomes s)"
proof -
  have "host_inv (Suc 0) s" using assms(1) by simp
  then obtain "host_inv 0 s1" and s1: "account c s1 = account c s + input_fate c (Arrive (Some dg))"
    using arrive_step [of 0 s dg c] assms(3) by auto
  then have "account c t = account c s1"
    using host_run_inv [OF run(1), of 0] no_inputs [OF run(2), of c] run(2) by simp
  then have "image_mset Inr (outcomes t) = (image_mset Inr (add_mset x (outcomes s)) :: outcome res multiset)"
    by (simp add: s1 quiet_account [OF assms(2)] quiet_account [OF run(3)] x)
  then show ?thesis by (rule multiset.inj_map_strong [rotated]) simp
qed

section \<open>Sample states\<close>

definition sample_link :: link where
  "sample_link = \<lparr>os_env = sample_os, upd_sock = 3,
     servaddr = \<lparr>sin_port = htons 32001, sin_addr = 16777343\<rparr>\<rparr>"

lemma sample_link_start:
  "eth_send_start sample_os \<lparr>recv_sock = 3, m_send_port = ''32001''\<rparr> = Inr sample_link"
proof -
  have "atoi ''32001'' = Inr 32001" by code_simp
  moreover have "htons 32001 \<noteq> 0" by code_simp
  ultimately show ?thesis by (simp add: eth_send_start_def sample_os_def sample_link_def)
qed

text \<open>A host at rest, with the bytes \<open>abc\<close> in block 0.\<close>

definition sample_host :: host where
  "sample_host = \<lparr>sent = [], diags = [], heap = put [Some 97, Some 98, Some 99] empty_mem,
     objs = (\<lambda>_. None), nobj = 0, pipe = (\<lambda>_. []), mCounter = 0, taken = []\<rparr>"

lemma sample_quiet: "quiet sample_host"
  by (simp add: quiet_def sample_host_def)

lemma sample_outcomes [simp]: "outcomes sample_host = {#}"
  by (simp add: outcomes_def sample_host_def)

lemma sample_inv: "host_inv 9 sample_host"
  using quiet_units [OF sample_quiet]
  by (simp add: host_inv_def) (simp add: sample_host_def)

lemma sample_submit:
  "new_Message (0, 0) 3 sample_host = (0, snd (new_Message (0, 0) 3 sample_host))"
  "readable (heap sample_host) (0, 0) 3" "cells (heap sample_host) (0, 0) 3 = [Some 97, Some 98, Some 99]"
  by (simp_all add: new_Message_def sample_host_def readable_def cells_def blk_put empty_mem_def)

text \<open>The same host with a message of these bytes submitted for FTP.\<close>

definition sample_busy :: host where
  "sample_busy = msg_send 0 FTP_ID (snd (new_Message (0, 0) 3 sample_host))"

lemma sample_busy:
  "host_inv 8 sample_busy"
  "account sample_link sample_busy = {# Inr (Sent (servaddr sample_link)
     (wire (undef_cells 8) FTP (undef_cells 4) [Some 97, Some 98, Some 99])) #}"
proof -
  let ?bs = "[Some 97, Some 98, Some 99] :: cell list"
  have "host_inv (Suc 8) sample_host" using sample_inv by simp
  moreover have "new_Message (0, 0) (word_of_nat 3) sample_host = (0, snd (new_Message (0, 0) 3 sample_host))"
    using sample_submit(1) by simp
  ultimately have s: "host_inv 8 sample_busy" "account sample_link sample_busy =
      account sample_link sample_host + input_fate sample_link (Submit (cells (heap sample_host) (0, 0) 3) FTP_ID)"
    using submit_step(1) [where k = 8 and s = sample_host and p = "(0, 0)" and n = 3 and i = FTP_ID]
      submit_step(2) [where k = 8 and s = sample_host and p = "(0, 0)" and n = 3 and i = FTP_ID and c = sample_link]
      sample_submit(2) unfolding sample_busy_def by (simp_all del: FTP_ID_def of_nat_numeral)
  have "submit_fate sample_link FTP_ID ?bs = Inr (Sent (servaddr sample_link)
      (wire (undef_cells 8) FTP (undef_cells 4) ?bs))"
    using fate_down [of sample_link FTP FTP_ID ?bs]
    by (simp add: sent_fate_def length_wire) (simp add: sample_link_def sample_os_def)
  then show "host_inv 8 sample_busy" "account sample_link sample_busy = {# Inr (Sent (servaddr sample_link)
     (wire (undef_cells 8) FTP (undef_cells 4) [Some 97, Some 98, Some 99])) #}"
    using s by (simp_all add: sample_submit(3) quiet_account [OF sample_quiet])
qed

section \<open>Properties\<close>

text \<open>C2: Under any interleaving of the threads, with datagrams arriving and messages submitted in
  between, the invariant is kept and no unit is lost, duplicated or altered: what has come out of
  the host so far (datagrams sent, payloads delivered, diagnostics), together with the fate of
  the units still in the pipes, is what it was before plus the fates of the inputs of the run.\<close>

theorem pp_account:
  assumes "host_run c s ls (Inr t)" "host_inv (k + inputs ls) s" "list_all proper ls"
  shows "host_inv k t \<and> account c t = account c s + inputs_fate c ls"
  using host_run_inv [OF assms] by simp

theorem pp_account_witness:
  "\<exists>t. host_run sample_link sample_host [Submit [Some 97, Some 98, Some 99] 5] (Inr t)
     \<and> account sample_link t = {# submit_fate sample_link 5 [Some 97, Some 98, Some 99] #}"
proof -
  let ?s1 = "snd (new_Message (0, 0) 3 sample_host)" and ?l = "Submit [Some 97, Some 98, Some 99] 5"
  have "host_step sample_link sample_host ?l (Inr (msg_send 0 5 ?s1))"
    using host_step.submit [OF sample_submit(2), of 0 ?s1 sample_link 5] sample_submit by simp
  then have run: "host_run sample_link sample_host [?l] (Inr (msg_send 0 5 ?s1))"
    by (auto intro: host_run.step host_run.stop)
  have "host_inv (0 + inputs [?l]) sample_host"
    by (rule host_inv_mono [OF sample_inv]) simp
  from pp_account [OF run this] run show ?thesis
    by (auto simp: quiet_account [OF sample_quiet])
qed

text \<open>A run goes wrong only on a unit that is doomed from the start: if neither a unit in the
  pipes nor an input of the run has a fault as its fate, then no interleaving of the threads
  ends in a fault.\<close>

theorem pp_safe:
  assumes "host_run c s ls r" "host_inv (inputs ls) s" "list_all proper ls"
    and "\<forall>e. Inl e \<notin># account c s + inputs_fate c ls"
  shows "\<exists>t. r = Inr t"
  using host_run_inv [of c s ls r 0] assms by (cases r) auto

theorem pp_safe_witness:
  "\<exists>t. msg_recv (Some (wire (undef_cells 8) FTP (undef_cells 4) [Some 97])) sample_host = Inr t"
proof -
  let ?dg = "wire (undef_cells 8) FTP (undef_cells 4) [Some 97]"
  let ?l = "Arrive (Some ?dg)"
  have "host_step sample_link sample_host ?l (msg_recv (Some ?dg) sample_host)"
    by (rule host_step.arrive)
  then have run: "host_run sample_link sample_host [?l] (msg_recv (Some ?dg) sample_host)"
    by (cases "msg_recv (Some ?dg) sample_host") (auto intro: host_run.intros)
  have "host_inv (inputs [?l]) sample_host"
    by (rule host_inv_mono [OF sample_inv]) simp
  moreover have "length ?dg \<le> 1024" by (simp add: length_wire)
  then have "inputs_fate sample_link [?l] = {# Inr (Got FTP [Some 97]) #}"
    by (simp add: fate_up)
  ultimately show ?thesis
    using pp_safe [OF run] by (simp add: quiet_account [OF sample_quiet])
qed

text \<open>The threads come to rest: from a state in which no unit is doomed there is a run of the
  threads to empty pipes, and what has come out then is what the account promised.\<close>

theorem pp_drains:
  assumes "host_inv k s" "\<forall>e. Inl e \<notin># account c s"
  shows "\<exists>ls t. host_run c s ls (Inr t) \<and> inputs ls = 0 \<and> quiet t
    \<and> image_mset Inr (outcomes t) = account c s"
  using host_drains [OF assms(1), of c] assms(2) by blast

theorem pp_drains_witness:
  "\<exists>ls t. host_run sample_link sample_busy ls (Inr t) \<and> inputs ls = 0 \<and> quiet t
    \<and> image_mset Inr (outcomes t) = {# Inr (Sent (servaddr sample_link)
         (wire (undef_cells 8) FTP (undef_cells 4) [Some 97, Some 98, Some 99])) :: outcome res #}"
  using pp_drains [OF sample_busy(1), of sample_link] unfolding sample_busy(2) by simp

text \<open>The threads do not run for ever: without new input, every run takes at most as many
  turns as the units in the pipes have levels to go, four for a new message.\<close>

theorem pp_bound:
  assumes "host_run c s ls (Inr t)" "host_inv k s" "inputs ls = 0"
  shows "length ls + turns t \<le> turns s"
  using work_run_bound [OF assms] no_inputs [OF assms(3)] by blast

theorem pp_bound_witness:
  "\<exists>ls t. host_run sample_link sample_busy ls (Inr t) \<and> quiet t \<and> length ls \<le> 4"
proof -
  obtain ls t where run: "host_run sample_link sample_busy ls (Inr t)" "inputs ls = 0" "quiet t"
    using host_drains [OF sample_busy(1), of sample_link] unfolding sample_busy(2) by auto
  have "units (snd (new_Message (0, 0) 3 sample_host)) = {#}"
    using quiet_units [OF sample_quiet] by (simp add: new_Message_def units_def)
  then have "turns sample_busy = 4"
    by (simp add: sample_busy_def msg_send_def turns_def)
  with pp_bound [OF run(1) sample_busy(1) run(2)] run show ?thesis
    by (intro exI [of _ ls] exI [of _ t]) simp
qed

text \<open>A doomed unit is not forgotten: if the fate of some unit in the pipes is a fault, then
  no run of the threads gets to empty pipes.\<close>

theorem pp_doomed:
  assumes "host_run c s ls (Inr t)" "host_inv k s" "inputs ls = 0" "Inl e \<in># account c s"
  shows "\<not> quiet t"
proof
  assume "quiet t"
  then have "account c t = image_mset Inr (outcomes t)" by (rule quiet_account)
  moreover have "account c t = account c s"
    using host_run_inv [OF assms(1), of k] no_inputs [OF assms(3), of c] assms(2,3) by simp
  ultimately show False using assms(4) by auto
qed

theorem pp_doomed_witness:
  "\<exists>t. msg_recv (Some [Some 1, Some 2]) sample_host = Inr t
     \<and> (\<nexists>ls t'. host_run sample_link t ls (Inr t') \<and> inputs ls = 0 \<and> quiet t')"
proof -
  obtain t where t: "msg_recv (Some [Some 1, Some 2]) sample_host = Inr t" "host_inv 8 t"
    "account sample_link t = account sample_link sample_host
       + input_fate sample_link (Arrive (Some [Some 1, Some 2]))"
    using arrive_step [of 8 sample_host "[Some 1, Some 2]" sample_link] sample_inv by auto
  have "Inl NullDeref \<in># account sample_link t"
    by (simp add: t(3) fate.simps pop_hop_def pop_hdr_def)
  with pp_doomed [OF _ t(2)] t(1) show ?thesis by blast
qed



text \<open>A datagram in the wire format that arrives at a host at rest is delivered once, to the
  application it names, with exactly the payload, when it fits the receive buffer.\<close>

theorem pp_arrive:
  assumes "host_inv 1 s" "quiet s" "length other = 8" "length app_hlp = 4"
    and dg: "dg = wire other a app_hlp bs" "length dg \<le> 1024"
    and "msg_recv (Some dg) s = Inr s1"
    and run: "host_run c s1 ls (Inr t)" "inputs ls = 0" "quiet t"
  shows "outcomes t = add_mset (Got a bs) (outcomes s)"
proof (rule arrive_outcome [OF assms(1,2,7) run])
  have "length bs < 1024" "take 1024 dg = dg"
    using dg assms(3,4) by (simp_all add: length_wire)
  then show "fate c eth_recv_pipe 0 (take 1024 dg) = Inr (Got a bs)"
    using assms(3,4) by (simp add: dg(1) fate_up)
qed

theorem pp_arrive_witness:
  "\<exists>s1 ls t. msg_recv (Some (wire (undef_cells 8) DNS (undef_cells 4) [Some 97])) sample_host = Inr s1
     \<and> host_run sample_link s1 ls (Inr t) \<and> quiet t \<and> outcomes t = {# Got DNS [Some 97] #}"
proof -
  let ?dg = "wire (undef_cells 8) DNS (undef_cells 4) [Some 97]"
  have dg: "length ?dg \<le> 1024" by (simp add: length_wire)
  obtain s1 where s1: "msg_recv (Some ?dg) sample_host = Inr s1" "host_inv 8 s1"
    "account sample_link s1 = account sample_link sample_host + input_fate sample_link (Arrive (Some ?dg))"
    using arrive_step [of 8 sample_host ?dg sample_link] sample_inv by auto
  have "\<And>e. Inl e \<notin># account sample_link s1"
    using dg by (simp add: s1(3) fate_up quiet_account [OF sample_quiet])
  then obtain ls t where run: "host_run sample_link s1 ls (Inr t)" "inputs ls = 0" "quiet t"
    using host_drains [OF s1(2), of sample_link] by blast
  have inv: "host_inv 1 sample_host" by (rule host_inv_mono [OF sample_inv]) simp
  have "outcomes t = {# Got DNS [Some 97] #}"
    using pp_arrive [OF inv sample_quiet _ _ refl dg s1(1) run] by simp
  with s1(1) run show ?thesis by blast
qed

text \<open>No datagram from outside of at least 48 bytes makes the host go wrong, whatever its
  bytes: no run of the threads on it ends in a fault.\<close>

theorem pp_datagram_safe:
  assumes "host_inv 1 s" "quiet s" "None \<notin> set dg" "48 \<le> length dg"
    and "msg_recv (Some dg) s = Inr s1" "host_run c s1 ls r" "inputs ls = 0"
  shows "\<exists>t. r = Inr t"
proof -
  have "host_inv (Suc 0) s" using assms(1) by simp
  then obtain "host_inv 0 s1" and s1: "account c s1 = account c s + input_fate c (Arrive (Some dg))"
    using arrive_step [of 0 s dg c] assms(5) by auto
  have "None \<notin> set (take 1024 dg)" using assms(3) by (auto dest: in_set_takeD)
  then obtain x where "fate c eth_recv_pipe 0 (take 1024 dg) = Inr x"
    using fate_defined [of "take 1024 dg" c 0] assms(4) by auto
  then have "Inl e \<notin># account c s1" for e
    by (auto simp: s1 quiet_account [OF assms(2)])
  then show ?thesis
    using host_run_inv [OF assms(6), of 0] \<open>host_inv 0 s1\<close> no_inputs [OF assms(7), of c] assms(7)
    by (cases r) auto
qed

theorem pp_datagram_safe_witness:
  "\<exists>t s1. msg_recv (Some (replicate 50 (Some 7))) sample_host = Inr s1
     \<and> host_run sample_link s1 [Work eth_recv_pipe] (Inr t)"
proof -
  let ?dg = "replicate 50 (Some 7) :: cell list"
  obtain s1 where s1: "msg_recv (Some ?dg) sample_host = Inr s1" "host_inv 8 s1"
    using arrive_step [of 8 sample_host ?dg sample_link] sample_inv by auto
  obtain m h where m: "msg_recv (Some ?dg) sample_host = Inr (write_pipe eth_recv_pipe 0 (nobj sample_host)
      (sample_host\<lparr>heap := h, objs := (objs sample_host)(nobj sample_host \<mapsto> m),
         nobj := Suc (nobj sample_host)\<rparr>))"
    by (rule msg_recv_eq [of sample_host ?dg]) (use host_invD(1) [OF sample_inv] in auto)
  then obtain u where u: "pipe s1 eth_recv_pipe = u # []"
    using s1(1) by (auto simp: write_pipe_def sample_host_def)
  let ?r = "thread sample_link eth_recv_pipe u (s1\<lparr>pipe := (pipe s1)(eth_recv_pipe := [])\<rparr>)"
  have step: "host_step sample_link s1 (Work eth_recv_pipe) ?r" by (rule host_step.work [OF u])
  then have run: "host_run sample_link s1 [Work eth_recv_pipe] ?r"
    by (cases ?r) (auto intro: host_run.intros)
  have inv: "host_inv 1 sample_host" by (rule host_inv_mono [OF sample_inv]) simp
  obtain t where "?r = Inr t"
    using pp_datagram_safe [OF inv sample_quiet _ _ s1(1) run] by auto
  with run s1(1) show ?thesis by auto
qed

text \<open>A datagram shorter than an Ethernet header, which anyone can send, ends the process: the
  thread reads \<open>hlp\<close> through the null pointer \<open>msgStripHdr\<close> returns.\<close>

theorem pp_short_datagram:
  assumes "host_inv 1 s" "pipe s eth_recv_pipe = []" "length dg < 16"
    and "msg_recv (Some dg) s = Inr s1" "host_step c s1 (Work eth_recv_pipe) r"
  shows "r = Inl NullDeref"
proof -
  obtain m h where m: "msg_recv (Some dg) s = Inr (write_pipe eth_recv_pipe 0 (nobj s)
      (s\<lparr>heap := h, objs := (objs s)(nobj s \<mapsto> m), nobj := Suc (nobj s)\<rparr>))"
    "wf_mem h" "wf_msg h m" "msg_bytes h m = take 1024 dg"
    by (rule msg_recv_eq [of s dg]) (use host_invD(1) [OF assms(1)] in auto)
  then have s1: "s1 = write_pipe eth_recv_pipe 0 (nobj s)
      (s\<lparr>heap := h, objs := (objs s)(nobj s \<mapsto> m), nobj := Suc (nobj s)\<rparr>)"
    using assms(4) by simp
  let ?u = "\<lparr>protocol_id = 0, msg = nobj s\<rparr>"
  have u: "pipe s1 eth_recv_pipe = ?u # []" by (simp add: s1 write_pipe_def assms(2))
  let ?s0 = "s1\<lparr>pipe := (pipe s1)(eth_recv_pipe := [])\<rparr>"
  have "mCounter s + 1 < 2 ^ 31" "0 \<le> mCounter s" using host_invD(2,3) [OF assms(1)] by auto
  then have "eth_recv ?u ?s0 = Inl NullDeref"
    using handlesD(1) [OF recv_handles(1), of ?s0 ?u m NullDeref] m assms(3)
    by (simp add: s1 pop_hop_def pop_hdr_def)
  moreover have "r = thread c eth_recv_pipe ?u ?s0"
    using assms(5) u by (auto elim: host_step.cases)
  ultimately show ?thesis by simp
qed

theorem pp_short_datagram_witness:
  "\<exists>s1. msg_recv (Some [Some 1, Some 2]) sample_host = Inr s1
     \<and> (\<exists>r. host_step sample_link s1 (Work eth_recv_pipe) r)
     \<and> (\<nexists>t. host_step sample_link s1 (Work eth_recv_pipe) (Inr t))"
proof -
  have inv: "host_inv 1 sample_host" by (rule host_inv_mono [OF sample_inv]) simp
  obtain m h where m: "msg_recv (Some [Some 1, Some 2]) sample_host = Inr (write_pipe eth_recv_pipe 0
      (nobj sample_host) (sample_host\<lparr>heap := h, objs := (objs sample_host)(nobj sample_host \<mapsto> m),
         nobj := Suc (nobj sample_host)\<rparr>))"
    by (rule msg_recv_eq [of sample_host "[Some 1, Some 2]"]) (use host_invD(1) [OF inv] in auto)
  have empty: "pipe sample_host eth_recv_pipe = []" by (simp add: sample_host_def)
  show ?thesis
    using pp_short_datagram [OF inv empty _ m, of sample_link] m empty
    by (force intro: host_step.work simp: write_pipe_def)
qed

text \<open>An error from \<open>recvfrom\<close> is not noticed: -1 becomes the length of a message, and the
  thread that strips it copies \<open>2^64 - 1\<close> bytes out of the 1024 byte buffer.\<close>

theorem pp_recvfrom_error:
  assumes "host_inv 1 s" "pipe s eth_recv_pipe = []"
    and "msg_recv None s = Inr s1" "host_step c s1 (Work eth_recv_pipe) r"
  shows "r = Inl OutOfBounds"
proof -
  let ?h = "put (replicate 1024 (Some 0)) (heap s)"
  let ?m = "Message_new (brk (heap s), 0) (size_of_int (-1))"
  have s1: "s1 = write_pipe eth_recv_pipe 0 (nobj s)
      (s\<lparr>heap := ?h, objs := (objs s)(nobj s \<mapsto> ?m), nobj := Suc (nobj s)\<rparr>)"
    using assms(3) by (simp add: msg_recv_def alloc_put memset_put recvfrom_def new_Message_def)
  let ?u = "\<lparr>protocol_id = 0, msg = nobj s\<rparr>"
  have u: "pipe s1 eth_recv_pipe = ?u # []" by (simp add: s1 write_pipe_def assms(2))
  have "msgStripHdr ?h ?m 16 = Inl OutOfBounds"
    by (rule msgStripHdr_minus_one [where cs = "replicate 1024 (Some 0)"])
      (use host_invD(1) [OF assms(1)] in simp_all)
  then have "eth_recv ?u (s1\<lparr>pipe := (pipe s1)(eth_recv_pipe := [])\<rparr>) = Inl OutOfBounds"
    by (simp add: eth_recv_def deref_msg_def s1)
  moreover have "r = thread c eth_recv_pipe ?u (s1\<lparr>pipe := (pipe s1)(eth_recv_pipe := [])\<rparr>)"
    using assms(4) u by (auto elim: host_step.cases)
  ultimately show ?thesis by simp
qed

theorem pp_recvfrom_error_witness:
  "\<exists>s1. msg_recv None sample_host = Inr s1
     \<and> (\<exists>r. host_step sample_link s1 (Work eth_recv_pipe) r)
     \<and> (\<nexists>t. host_step sample_link s1 (Work eth_recv_pipe) (Inr t))"
proof -
  have inv: "host_inv 1 sample_host" by (rule host_inv_mono [OF sample_inv]) simp
  have empty: "pipe sample_host eth_recv_pipe = []" by (simp add: sample_host_def)
  obtain s1 where s1: "msg_recv None sample_host = Inr s1" "pipe s1 eth_recv_pipe \<noteq> []"
    by (simp add: msg_recv_def alloc_put memset_put recvfrom_def new_Message_def write_pipe_def)
  then obtain u us where "pipe s1 eth_recv_pipe = u # us" by (auto simp: neq_Nil_conv)
  then show ?thesis
    using pp_recvfrom_error [OF inv empty s1(1), of sample_link] s1(1) host_step.work [of s1 eth_recv_pipe u us]
    by fastforce
qed

text \<open>The constructor either exits or opens the receiving socket on the given port and starts
  all 17 threads on empty pipes; it leaves the global \<open>mCounter\<close> as it was, because the counter
  it sets to 0 is a local variable of the same name.\<close>

theorem pp_constructor:
  assumes "atoi inp = Inr n"
  shows "PerProtocol_new e create inp out s =
    (if 0 \<le> os_socket e \<and> os_bind e (os_socket e) \<lparr>sin_port = htons (word_of_int n), sin_addr = 0\<rparr> = 0
        \<and> (\<forall>k<17. create k = 0)
     then Inr (\<lparr>recv_sock = os_socket e, m_send_port = out\<rparr>, s\<lparr>pipe := (\<lambda>_. [])\<rparr>)
     else Inl (ExitProcess 1))"
proof -
  have "(ucast (word_of_int n :: i32) :: u16) = word_of_int n"
    by (rule bit_word_eqI) (simp add: bit_simps)
  moreover have "list_all (\<lambda>n. create n = 0) [0..<17] \<longleftrightarrow> (\<forall>k<17. create k = 0)"
    by (auto simp: list_all_iff)
  ultimately show ?thesis
    using assms by (auto simp: PerProtocol_new_def start_comm_def udpSocket_def Let_def)
qed

theorem pp_constructor_witness:
  "PerProtocol_new sample_os (\<lambda>_. 0) ''32002'' ''32001'' sample_host
     = Inr (\<lparr>recv_sock = 3, m_send_port = ''32001''\<rparr>, sample_host\<lparr>pipe := (\<lambda>_. [])\<rparr>)"
proof -
  have "atoi ''32002'' = Inr 32002" by code_simp
  from pp_constructor [OF this] show ?thesis by (simp add: sample_os_def)
qed

end
