(* ===== verification/SpeedTest.thy ===== *)
theory SpeedTest
  imports PerMessage Runs
begin

text \<open>
  The speed test (\<open>SpeedTest.cc\<close>): four threads, one per application, each of which sends the same
  text of 100 letters 100 times, either through the send functions of \<open>PerMessage.h\<close> or by writing
  units into the pipes of a \<open>PerProtocol\<close> object. One round of a thread, from \<open>new Message\<close> to
  \<open>usleep\<close>, is one step: the threads share memory and the socket, but each works on a message and
  headers of its own.
\<close>

section \<open>The text and the threads\<close>

definition SIZE :: nat where
  "SIZE = 100"

definition fill_text :: "nat \<Rightarrow> mem \<Rightarrow> ptr \<Rightarrow> nat \<Rightarrow> mem res" where
  "fill_text = fill_chars 116"

definition new_text :: "mem \<Rightarrow> (ptr \<times> mem) res" where
  "new_text h = (let (buf, h) = alloc SIZE h in rbind (fill_text SIZE h buf 0) (\<lambda>h. Inr (buf, h)))"

text \<open>One round of each thread that uses \<open>PerMessage\<close>.\<close>

definition perMessageFTP :: "os \<Rightarrow> permessage \<Rightarrow> ptr \<Rightarrow> world \<Rightarrow> world res" where
  "perMessageFTP e pm buf w =
     (let mesg = Message_new buf (word_of_nat SIZE) in
      rbind (ftpSend e pm FTP_ID mesg w) (\<lambda>(mesg, w). Inr w))"

definition perMessageTelnet :: "os \<Rightarrow> permessage \<Rightarrow> ptr \<Rightarrow> world \<Rightarrow> world res" where
  "perMessageTelnet e pm buf w =
     (let mesg = Message_new buf (word_of_nat SIZE) in
      rbind (telnetSend e pm TELNET_ID mesg w) (\<lambda>(mesg, w). Inr w))"

definition perMessageDNS :: "os \<Rightarrow> permessage \<Rightarrow> ptr \<Rightarrow> world \<Rightarrow> world res" where
  "perMessageDNS e pm buf w =
     (let mesg = Message_new buf (word_of_nat SIZE) in
      rbind (dnsSend e pm DNS_ID mesg w) (\<lambda>(mesg, w). Inr w))"

definition perMessageRDP :: "os \<Rightarrow> permessage \<Rightarrow> ptr \<Rightarrow> world \<Rightarrow> world res" where
  "perMessageRDP e pm buf w =
     (let mesg = Message_new buf (word_of_nat SIZE) in
      rbind (rdpSend e pm RDP_ID mesg w) (\<lambda>(mesg, w). Inr w))"

fun message_round :: "app \<Rightarrow> os \<Rightarrow> permessage \<Rightarrow> ptr \<Rightarrow> world \<Rightarrow> world res" where
  "message_round FTP = perMessageFTP" | "message_round Telnet = perMessageTelnet"
| "message_round DNS = perMessageDNS" | "message_round RDP = perMessageRDP"

text \<open>One round of each thread that uses \<open>PerProtocol\<close>; the ids are those in the code.\<close>

definition perProtocolFTP :: "ptr \<Rightarrow> host \<Rightarrow> host" where
  "perProtocolFTP buf s =
     (let (m, s) = new_Message buf (word_of_nat SIZE) s in write_pipe ftp_send_pipe 5 m s)"

definition perProtocolTelnet :: "ptr \<Rightarrow> host \<Rightarrow> host" where
  "perProtocolTelnet buf s =
     (let (m, s) = new_Message buf (word_of_nat SIZE) s in write_pipe tel_send_pipe 6 m s)"

definition perProtocolDNS :: "ptr \<Rightarrow> host \<Rightarrow> host" where
  "perProtocolDNS buf s =
     (let (m, s) = new_Message buf (word_of_nat SIZE) s in write_pipe dns_send_pipe 5 m s)"

definition perProtocolRDP :: "ptr \<Rightarrow> host \<Rightarrow> host" where
  "perProtocolRDP buf s =
     (let (m, s) = new_Message buf (word_of_nat SIZE) s in write_pipe rdp_send_pipe 5 m s)"

fun protocol_round :: "app \<Rightarrow> ptr \<Rightarrow> host \<Rightarrow> host" where
  "protocol_round FTP = perProtocolFTP" | "protocol_round Telnet = perProtocolTelnet"
| "protocol_round DNS = perProtocolDNS" | "protocol_round RDP = perProtocolRDP"

text \<open>A schedule is the list of the threads whose round is next; in a complete one every thread has
  done its 100 rounds, so \<open>main\<close> gets past its joins.\<close>

definition complete :: "app list \<Rightarrow> bool" where
  "complete as \<longleftrightarrow> list_all (\<lambda>a. count_list as a = SIZE) [FTP, Telnet, DNS, RDP]"

fun message_run :: "os \<Rightarrow> permessage \<Rightarrow> ptr \<Rightarrow> app list \<Rightarrow> world \<Rightarrow> world res" where
  "message_run e pm buf [] w = Inr w"
| "message_run e pm buf (a # as) w =
     rbind (message_round a e pm buf w) (message_run e pm buf as)"

text \<open>The \<open>PerProtocol\<close> threads run at the same time as those of the host they write to; the list
  says whose rounds are done.\<close>

inductive protocol_run :: "link \<Rightarrow> ptr \<Rightarrow> host \<Rightarrow> app list \<Rightarrow> host res \<Rightarrow> bool" for c and buf where
  rest: "protocol_run c buf s [] (Inr s)"
| put: "protocol_run c buf (protocol_round a buf s) as r \<Longrightarrow> protocol_run c buf s (a # as) r"
| work: "host_step c s (Work p) (Inr t) \<Longrightarrow> protocol_run c buf t as r \<Longrightarrow> protocol_run c buf s as r"
| crash: "host_step c s (Work p) (Inl e) \<Longrightarrow> protocol_run c buf s [] (Inl e)"

section \<open>The text\<close>

abbreviation text_cells :: "cell list" where
  "text_cells \<equiv> replicate SIZE (Some 116)"

definition is_text :: "mem \<Rightarrow> ptr \<Rightarrow> bool" where
  "is_text h buf \<longleftrightarrow> readable h buf SIZE \<and> cells h buf SIZE = text_cells"

lemma new_text_spec:
  assumes "wf_mem h"
  shows "new_text h = Inr ((brk h, 0), put text_cells h) \<and> wf_mem (put text_cells h)
    \<and> mem_ext {} h (put text_cells h) \<and> is_text (put text_cells h) (brk h, 0)"
  using fill_chars_put [of 0 SIZE "undef_cells SIZE" 116 h] assms
  by (simp add: new_text_def fill_text_def alloc_put is_text_def readable_def cells_def)

lemma is_text_keep: "is_text h buf \<Longrightarrow> mem_ext {} h h' \<Longrightarrow> is_text h' buf"
  by (simp add: is_text_def mem_ext_readable mem_ext_cells)

section \<open>The process per message phase\<close>

text \<open>The peer's name resolves and \<open>sendto\<close> does not fail.\<close>

definition network_up :: "os \<Rightarrow> permessage \<Rightarrow> sockaddr_in \<Rightarrow> bool" where
  "network_up e pm dest \<longleftrightarrow> (\<exists>addr. os_gethostbyname e ''localhost'' = Some addr
     \<and> dest = \<lparr>sin_port = htons (ucast (destUdpPort pm)), sin_addr = addr\<rparr>)
     \<and> (\<forall>bs. 0 \<le> os_sendto e (mySock pm) dest bs)"

lemma net_send_up: "network_up e pm dest \<Longrightarrow> net_send e pm bs w = w\<lparr>sent := sent w @ [(dest, bs)]\<rparr>"
  by (auto simp: network_up_def net_send_def Let_def not_less)

definition message_dg :: "app \<Rightarrow> cell list" where
  "message_dg a = wire fs a (int_cells (app_id a)) text_cells"

lemma message_round_eq:
  "message_round a e pm buf w =
     rbind (app_send a e pm (app_id a) (Message_new buf (word_of_nat SIZE)) w) (\<lambda>(m, w). Inr w)"
  by (cases a) (simp_all add: perMessageFTP_def perMessageTelnet_def perMessageDNS_def perMessageRDP_def)

lemma message_round_spec:
  assumes "wf_mem (hp w)" "is_text (hp w) buf" "network_up e pm dest"
  shows "\<exists>h. message_round a e pm buf w = Inr (w\<lparr>sent := sent w @ [(dest, message_dg a)], hp := h\<rparr>)
    \<and> wf_mem h \<and> is_text h buf"
proof -
  let ?m = "Message_new buf (word_of_nat SIZE)"
  have "SIZE < 2 ^ 31" by (simp add: SIZE_def)
  then have m: "wf_msg (hp w) ?m" "msg_bytes (hp w) ?m = text_cells"
    using msg_new_spec [of "hp w" buf SIZE] assms(2) by (simp_all add: is_text_def)
  have "length (message_dg a) \<le> 1024"
    by (cases a) (simp_all add: message_dg_def SIZE_def)
  then obtain m' h where "app_send a e pm (app_id a) ?m w = Inr (m', (net_send e pm (message_dg a) w)\<lparr>hp := h\<rparr>)"
    "wf_mem h" "mem_ext {} (hp w) h"
    using app_sendD(1) [OF assms(1) m(1), of a "app_id a" e pm] m(2)
    by (auto simp: message_dg_def SIZE_def)
  then show ?thesis
    using is_text_keep [OF assms(2)] by (auto simp: message_round_eq net_send_up [OF assms(3)])
qed

lemma message_run_spec:
  assumes "wf_mem (hp w)" "is_text (hp w) buf" "network_up e pm dest"
  shows "\<exists>h. message_run e pm buf as w
    = Inr (w\<lparr>sent := sent w @ map (\<lambda>a. (dest, message_dg a)) as, hp := h\<rparr>) \<and> wf_mem h"
  using assms
proof (induction as arbitrary: w)
  case Nil
  then show ?case by (intro exI [of _ "hp w"]) simp
next
  case (Cons a as)
  obtain h where h: "message_round a e pm buf w = Inr (w\<lparr>sent := sent w @ [(dest, message_dg a)], hp := h\<rparr>)"
    "wf_mem h" "is_text h buf"
    using message_round_spec [OF Cons.prems] by blast
  with Cons.IH [of "w\<lparr>sent := sent w @ [(dest, message_dg a)], hp := h\<rparr>"] Cons.prems(3) show ?case by simp
qed

text \<open>The application can be told from the datagram, since it is delivered there.\<close>

lemma inj_message_dg: "inj message_dg"
proof (rule injI)
  fix a b assume "message_dg a = message_dg b"
  then have "fate sample_link eth_recv_pipe 0 (message_dg a) = fate sample_link eth_recv_pipe 0 (message_dg b)"
    by simp
  then show "a = b" by (simp add: message_dg_def fate_up SIZE_def)
qed

lemma complete_mset:
  "complete as \<Longrightarrow> mset as = replicate_mset SIZE FTP + replicate_mset SIZE Telnet
     + replicate_mset SIZE DNS + replicate_mset SIZE RDP"
proof (rule multiset_eqI)
  fix a assume "complete as"
  then show "Multiset.count (mset as) a = Multiset.count (replicate_mset SIZE FTP + replicate_mset SIZE Telnet
     + replicate_mset SIZE DNS + replicate_mset SIZE RDP) a"
    by (cases a) (simp_all add: complete_def count_mset)
qed

lemma complete_length: "complete as \<Longrightarrow> length as = 400"
proof -
  assume "complete as"
  then have "size (mset as) = 400" by (simp add: complete_mset SIZE_def)
  then show "length as = 400" by simp
qed

text \<open>C23: The process per message phase: however the rounds of the four threads interleave, none
  faults, and once all are done exactly 400 datagrams have been sent to the peer, the buf 100
  times for each application, each in the wire format with the application's id.\<close>

theorem st_message_phase:
  assumes "wf_mem (hp w)" "new_text (hp w) = Inr (buf, h)" "network_up e pm dest" "complete as"
  shows "\<exists>w' dgs. message_run e pm buf as (w\<lparr>hp := h\<rparr>) = Inr w' \<and> diags w' = diags w
    \<and> sent w' = sent w @ map (Pair dest) dgs
    \<and> (\<forall>a. count_list dgs (wire fs a (int_cells (app_id a)) text_cells) = SIZE) \<and> length dgs = 400"
proof -
  have t: "wf_mem h" "is_text h buf" using new_text_spec [OF assms(1)] assms(2) by auto
  obtain h' where run: "message_run e pm buf as (w\<lparr>hp := h\<rparr>)
      = Inr (w\<lparr>sent := sent w @ map (\<lambda>a. (dest, message_dg a)) as, hp := h'\<rparr>)"
    using message_run_spec [of "w\<lparr>hp := h\<rparr>" buf e pm dest as] t assms(3) by auto
  have cnt: "count_list (map message_dg as) (message_dg a) = SIZE" for a
  proof -
    have "count_list (map message_dg as) (message_dg a) = count_list as a"
      by (induction as) (auto dest: injD [OF inj_message_dg])
    then show ?thesis using assms(4) by (cases a) (simp_all add: complete_def)
  qed
  have "length as = 400" by (rule complete_length [OF assms(4)])
  then show ?thesis
    unfolding run by - (rule exI, rule exI [of _ "map message_dg as"], intro conjI, rule refl,
      simp_all add: cnt comp_def flip: message_dg_def)
qed

text \<open>A complete schedule, and the world of the example with the text in it.\<close>

definition sample_rounds :: "app list" where
  "sample_rounds = concat (replicate 100 [FTP, Telnet, DNS, RDP])"

lemma sample_rounds: "complete sample_rounds"
proof -
  have "count_list (concat (replicate n xs)) a = n * count_list xs a" for n and xs :: "app list" and a
    by (induction n) simp_all
  then show ?thesis by (simp add: complete_def sample_rounds_def SIZE_def)
qed

lemma sample_network: "network_up sample_os sample_pm \<lparr>sin_port = htons 45555, sin_addr = 16777343\<rparr>"
  by (simp add: network_up_def sample_os_def sample_pm_def)

theorem st_message_phase_witness:
  "\<exists>w' dgs. message_run sample_os sample_pm (2, 0) sample_rounds (sample_world\<lparr>hp := put text_cells sample_mem\<rparr>) = Inr w'
    \<and> sent w' = map (Pair \<lparr>sin_port = htons 45555, sin_addr = 16777343\<rparr>) dgs \<and> length dgs = 400"
proof -
  have b: "brk sample_mem = 2" by (simp add: sample_mem_def empty_mem_def)
  have wf: "wf_mem (hp sample_world)" by (simp add: sample_msg(1))
  from new_text_spec [OF wf] have t: "new_text (hp sample_world) = Inr ((2, 0), put text_cells sample_mem)"
    by (simp add: b)
  from st_message_phase [OF wf t sample_network sample_rounds] show ?thesis by auto
qed

section \<open>The process per protocol phase\<close>

text \<open>What a turn of a thread of the host leaves: a state of the form the hops have, and memory in
  which every live block is as before.\<close>

lemma work_shape:
  assumes "host_inv k s" "host_step c s (Work p) (Inr t)"
  obtains u us n m' h' where "pipe s p = u # us" "mem_ext {} (heap s) h'"
    "t = after n (msg u) (set_msg (msg u) m' h' (s\<lparr>pipe := (pipe s)(p := us)\<rparr>))"
proof -
  from assms(2) obtain u us where p: "pipe s p = u # us"
    and r: "thread c p u (s\<lparr>pipe := (pipe s)(p := us)\<rparr>) = Inr t"
    by cases auto
  let ?s0 = "s\<lparr>pipe := (pipe s)(p := us)\<rparr>"
  note pop = popped [OF assms(1) p] and D = host_invD [OF assms(1)]
  obtain m where m: "objs s (msg u) = Some m" "wf_msg (heap s) m"
    "length (msg_bytes (heap s) m) + 20 * level p < 2 ^ 31"
    using pop(4) by (auto simp: unit_ok_def split: option.splits)
  have small: "length (msg_bytes (heap s) m) + 20 < 2 ^ 31" using m(3) by (cases p) simp_all
  have "mCounter s + 1 < 2 ^ 31" using D(3) unfolding pop(1) by simp
  note h = handlesD [OF thread_handles, of ?s0 u m c p, simplified, OF D(1) m(1,2)
      small [simplified] D(2) this [simplified], unfolded r]
  show thesis
  proof (cases "hop c p (protocol_id u) (msg_bytes (heap s) m)")
    case (Inr n)
    from h(2) [OF this] show ?thesis using that [OF p] by auto
  qed (use h(1) in auto)
qed

definition protocol_dg :: "app \<Rightarrow> cell list" where
  "protocol_dg a = wire (undef_cells 8) a (undef_cells 4) text_cells"

lemma protocol_round_eq:
  "protocol_round a buf s = (case new_Message buf (word_of_nat SIZE) s of (m, s) \<Rightarrow>
     write_pipe (send_pipe a) (if a = Telnet then 6 else 5) m s)"
  by (cases a) (simp_all add: perProtocolFTP_def perProtocolTelnet_def perProtocolDNS_def
      perProtocolRDP_def Let_def)

lemma protocol_round_spec:
  fixes c :: link
  assumes "host_inv (Suc k) s" "is_text (heap s) buf"
  shows "host_inv k (protocol_round a buf s)" "heap (protocol_round a buf s) = heap s"
    and "account c (protocol_round a buf s) = add_mset (sent_fate c (protocol_dg a)) (account c s)"
proof -
  obtain m s1 where new: "new_Message buf (word_of_nat SIZE) s = (m, s1)" by (cases "new_Message buf (word_of_nat SIZE) s")
  have t: "readable (heap s) buf SIZE" "SIZE + 80 < 2 ^ 31" "cells (heap s) buf SIZE = text_cells"
    using assms(2) by (simp_all add: is_text_def SIZE_def)
  have lev: "level (send_pipe a) = 4" by (cases a) simp_all
  have eq: "protocol_round a buf s = write_pipe (send_pipe a) (if a = Telnet then 6 else 5) m s1"
    by (simp add: protocol_round_eq new)
  show "host_inv k (protocol_round a buf s)"
    "account c (protocol_round a buf s) = add_mset (sent_fate c (protocol_dg a)) (account c s)"
    unfolding eq using put_step [OF assms(1) t(1,2) new lev] t(3)
    by (simp_all only: fate_down protocol_dg_def)
  show "heap (protocol_round a buf s) = heap s"
    using new unfolding eq by (auto simp: new_Message_def)
qed

lemma protocol_run_inv:
  fixes c :: link
  assumes "protocol_run c buf s as r" "host_inv (k + length as) s" "is_text (heap s) buf"
  defines "ends \<equiv> \<lambda>as. image_mset (\<lambda>a. sent_fate c (protocol_dg a)) (mset as)"
  shows "case r of Inl e \<Rightarrow> Inl e \<in># account c s + ends as
    | Inr t \<Rightarrow> host_inv k t \<and> account c t = account c s + ends as"
  using assms(1-3)
proof (induction arbitrary: k rule: protocol_run.induct)
  case (put a s as r)
  have "host_inv (Suc (k + length as)) s" using put.prems(1) by simp
  note r = protocol_round_spec [OF this put.prems(2), where a = a]
  then show ?case
    using put.IH [of k] put.prems(2) r(3) [of c] by (simp add: ends_def split: sum.splits)
next
  case (work s p t as r)
  have "host_inv (k + length as) t" "account c t = account c s"
    using host_step_inv(2) [OF _ work(1), of "k + length as" t] work.prems by simp_all
  moreover have "is_text (heap t) buf"
  proof -
    obtain u us n m' h' where "pipe s p = u # us" "mem_ext {} (heap s) h'"
      "t = after n (msg u) (set_msg (msg u) m' h' (s\<lparr>pipe := (pipe s)(p := us)\<rparr>))"
      by (rule work_shape [OF work.prems(1) work(1)])
    then show ?thesis using is_text_keep [OF work.prems(2)] by (cases n) simp_all
  qed
  ultimately show ?case using work.IH [of k] by (simp split: sum.splits)
next
  case (crash s p e)
  then show ?case using host_step_inv(1) [OF _ crash(1), of k e] by (simp add: ends_def)
qed (simp add: ends_def)

text \<open>All rounds first, then the threads of the host until the pipes are empty: one way a run can go.\<close>

lemma puts_run:
  "protocol_run c buf (foldl (\<lambda>s a. protocol_round a buf s) s as) [] r \<Longrightarrow> protocol_run c buf s as r"
  by (induction as arbitrary: s) (auto intro: protocol_run.put)

lemma works_run: "host_run c s ls (Inr t) \<Longrightarrow> inputs ls = 0 \<Longrightarrow> protocol_run c buf s [] (Inr t)"
proof (induction s ls "Inr t :: host res" rule: host_run.induct)
  case (step s l t' ls)
  then obtain p where "l = Work p" by (cases l) auto
  then show ?case using step by (auto intro: protocol_run.work)
qed (rule protocol_run.rest)

lemma phase_facts:
  fixes c :: link
  assumes "host_inv 400 s" "quiet s" "is_text (heap s) buf" "length as \<le> 400"
    and "\<forall>bs. 0 \<le> os_sendto (os_env c) (upd_sock c) (servaddr c) bs"
  defines "out \<equiv> outcomes s + image_mset (\<lambda>a. Sent (servaddr c) (protocol_dg a)) (mset as)"
  shows "protocol_run c buf s as r \<Longrightarrow> \<exists>t. r = Inr t \<and> host_inv 0 t \<and> account c t = image_mset Inr out"
    and "\<exists>t. protocol_run c buf s as (Inr t) \<and> quiet t"
proof -
  have inv: "host_inv (0 + length as) s" using assms(1,4) by (auto intro: host_inv_mono)
  have fate: "sent_fate c (protocol_dg a) = Inr (Sent (servaddr c) (protocol_dg a))" for a
    using assms(5) by (cases a) (simp_all add: sent_fate_def protocol_dg_def length_wire SIZE_def not_less)
  have run: "\<exists>t. r = Inr t \<and> host_inv 0 t \<and> account c t = image_mset Inr out"
    if "protocol_run c buf s as r" for r
    using protocol_run_inv [OF that inv assms(3), unfolded fate quiet_account [OF assms(2)]]
    by (cases r) (auto simp: out_def image_mset.compositionality comp_def)
  then show "protocol_run c buf s as r \<Longrightarrow> \<exists>t. r = Inr t \<and> host_inv 0 t \<and> account c t = image_mset Inr out" .
  let ?s1 = "foldl (\<lambda>s a. protocol_round a buf s) s as"
  have "protocol_run c buf s as (Inr ?s1)" by (rule puts_run) (rule protocol_run.rest)
  from run [OF this] have s1: "host_inv 0 ?s1" "\<And>e. Inl e \<notin># account c ?s1" by auto
  then obtain ls t where "host_run c ?s1 ls (Inr t)" "inputs ls = 0" "quiet t"
    using host_drains [of 0 ?s1 c] by blast
  then show "\<exists>t. protocol_run c buf s as (Inr t) \<and> quiet t" using puts_run works_run by blast
qed

text \<open>C20: The process per protocol phase: whatever the interleaving of the four threads with the
  threads of the sending host, no step faults, and a run to empty pipes exists; and when the pipes are
  empty, what the host has put out is one datagram per round in the wire format of its application
  (so 100 for each when all rounds are done), although the RDP and DNS threads write the id of FTP
  into their units.\<close>

theorem st_protocol_phase:
  assumes "host_inv 400 s" "quiet s" "is_text (heap s) buf" "length as \<le> 400"
    and "\<forall>bs. 0 \<le> os_sendto (os_env c) (upd_sock c) (servaddr c) bs"
  shows "(\<exists>t. protocol_run c buf s as (Inr t) \<and> quiet t)
    \<and> (\<forall>r. protocol_run c buf s as r \<longrightarrow> (\<exists>t. r = Inr t \<and> (quiet t \<longrightarrow> outcomes t = outcomes s
      + image_mset (\<lambda>a. Sent (servaddr c) (wire (undef_cells 8) a (undef_cells 4) text_cells)) (mset as))))"
proof (intro conjI allI impI)
  note phase = phase_facts [OF assms]
  show "\<exists>t. protocol_run c buf s as (Inr t) \<and> quiet t" by (rule phase(2))
  fix r assume "protocol_run c buf s as r"
  from phase(1) [OF this] obtain t where t: "r = Inr t" "account c t
      = image_mset Inr (outcomes s + image_mset (\<lambda>a. Sent (servaddr c) (protocol_dg a)) (mset as))" by blast
  have "outcomes t = outcomes s + image_mset (\<lambda>a. Sent (servaddr c) (protocol_dg a)) (mset as)" if "quiet t"
    by (rule multiset.inj_map_strong [rotated, OF t(2) [unfolded quiet_account [OF that]]]) simp
  then show "\<exists>t. r = Inr t \<and> (quiet t \<longrightarrow> outcomes t = outcomes s
      + image_mset (\<lambda>a. Sent (servaddr c) (wire (undef_cells 8) a (undef_cells 4) text_cells)) (mset as))"
    by (simp add: t(1) protocol_dg_def)
qed

text \<open>A host at rest with the text in memory, and room for the 400 messages.\<close>

definition sample_sender :: host where
  "sample_sender = sample_host\<lparr>heap := put text_cells (heap sample_host)\<rparr>"

lemma sample_sender:
  "host_inv 400 sample_sender" "quiet sample_sender" "is_text (heap sample_sender) (1, 0)"
  "outcomes sample_sender = {#}"
proof -
  have wf: "wf_mem (heap sample_host)" using sample_inv by (rule host_invD)
  have b: "brk (heap sample_host) = 1" by (simp add: sample_host_def empty_mem_def)
  have q: "quiet sample_sender" using sample_quiet by (simp add: quiet_def sample_sender_def)
  then show "quiet sample_sender" .
  show "host_inv 400 sample_sender"
    using quiet_units [OF q] wf by (simp add: host_inv_def) (simp add: sample_sender_def sample_host_def)
  show "is_text (heap sample_sender) (1, 0)"
    using new_text_spec [OF wf] by (simp add: sample_sender_def b)
  show "outcomes sample_sender = {#}" by (simp add: sample_sender_def)
qed

theorem st_protocol_phase_witness:
  "\<exists>t. protocol_run sample_link (1, 0) sample_sender sample_rounds (Inr t) \<and> quiet t
    \<and> size (outcomes t) = 400"
proof -
  have "length sample_rounds \<le> 400" using complete_length [OF sample_rounds] by simp
  moreover have "\<forall>bs. 0 \<le> os_sendto (os_env sample_link) (upd_sock sample_link) (servaddr sample_link) bs"
    by (simp add: sample_link_def sample_os_def)
  ultimately have "(\<exists>t. protocol_run sample_link (1, 0) sample_sender sample_rounds (Inr t) \<and> quiet t)
    \<and> (\<forall>r. protocol_run sample_link (1, 0) sample_sender sample_rounds r \<longrightarrow>
        (\<exists>t. r = Inr t \<and> (quiet t \<longrightarrow> outcomes t = outcomes sample_sender
      + image_mset (\<lambda>a. Sent (servaddr sample_link) (wire (undef_cells 8) a (undef_cells 4) text_cells))
          (mset sample_rounds))))"
    by (rule st_protocol_phase [OF sample_sender(1-3)])
  then show ?thesis using complete_length [OF sample_rounds] by (force simp: sample_sender(4))
qed

end
