(* ===== verification/Counter.thy ===== *)
theory Counter
  imports Prelude
begin

text \<open>
  The global counters. \<open>mCounter++\<close> (\<open>PerProtocol.h\<close>) is executed by the four application
  threads of a host, \<open>rCounter++\<close> (\<open>PerMessage.h\<close>) by any worker of the pool, without a common
  lock: each is a load and a store, and \<open>SpeedTest.cc\<close> polls the counter. Here every thread
  has a number of increments to do, and any thread may take its next load or store.
\<close>

record race =
  count :: nat                     \<comment> \<open>the global\<close>
  loaded :: "nat \<Rightarrow> nat option"    \<comment> \<open>what a thread between load and store has read\<close>
  todo :: "nat \<Rightarrow> nat"             \<comment> \<open>increments a thread has not finished\<close>

definition race_init :: "nat \<Rightarrow> nat \<Rightarrow> race" where
  "race_init n k = \<lparr>count = 0, loaded = (\<lambda>_. None), todo = (\<lambda>t. if t < n then k else 0)\<rparr>"

definition incr_step :: "nat \<Rightarrow> race \<Rightarrow> race option" where
  "incr_step t s = (if todo s t = 0 then None else case loaded s t of
       None \<Rightarrow> Some (s\<lparr>loaded := (loaded s)(t \<mapsto> count s)\<rparr>)
     | Some v \<Rightarrow> Some (s\<lparr>count := Suc v, loaded := (loaded s)(t := None),
                        todo := (todo s)(t := todo s t - 1)\<rparr>))"

fun race_run :: "nat list \<Rightarrow> race \<Rightarrow> race option" where
  "race_run [] s = Some s"
| "race_run (t # ts) s = Option.bind (incr_step t s) (race_run ts)"

definition finished :: "nat \<Rightarrow> race \<Rightarrow> bool" where
  "finished n s \<longleftrightarrow> list_all (\<lambda>t. todo s t = 0) [0..<n]"

text \<open>The test that ends the polling loop of \<open>main\<close>.\<close>

definition THRESHOLD :: nat where "THRESHOLD = 390"

definition poll_ends :: "race \<Rightarrow> bool" where
  "poll_ends s \<longleftrightarrow> THRESHOLD \<le> count s"

section \<open>The counter never runs ahead\<close>

definition race_inv :: "nat \<Rightarrow> nat \<Rightarrow> race \<Rightarrow> bool" where
  "race_inv n N s \<longleftrightarrow> count s + (\<Sum>t<n. todo s t) \<le> N \<and> (\<forall>t\<ge>n. todo s t = 0)
     \<and> (\<forall>t v. loaded s t = Some v \<longrightarrow> 0 < todo s t \<and> v + (\<Sum>t<n. todo s t) \<le> N)"

lemma sum_todo:
  "(t :: nat) < n \<Longrightarrow> 0 < f t \<Longrightarrow> (\<Sum>i<n. (f(t := f t - 1)) i) + 1 = (\<Sum>i<n. f i :: nat)"
  using sum_fun_upd [of t n "\<lambda>x. x" f "f t - 1"] by simp

lemma incr_step_inv:
  assumes "incr_step t s = Some s'" "race_inv n N s"
  shows "race_inv n N s'"
proof (cases "loaded s t")
  case None
  then show ?thesis using assms by (auto simp: incr_step_def race_inv_def split: if_splits)
next
  case (Some v)
  then have s': "s' = s\<lparr>count := Suc v, loaded := (loaded s)(t := None), todo := (todo s)(t := todo s t - 1)\<rparr>"
    and pos: "0 < todo s t"
    using assms(1) by (auto simp: incr_step_def split: if_splits)
  have t: "t < n" using assms(2) pos by (auto simp: race_inv_def not_less [symmetric])
  have "(\<Sum>i<n. todo s' i) + 1 = (\<Sum>i<n. todo s i)" using sum_todo [of t n "todo s"] t pos by (simp add: s')
  moreover have "v + (\<Sum>i<n. todo s i) \<le> N" using assms(2) Some by (auto simp: race_inv_def)
  ultimately show ?thesis
    using assms(2) unfolding race_inv_def by (force simp: s' split: if_splits)
qed

lemma race_run_inv: "race_run ts s = Some s' \<Longrightarrow> race_inv n N s \<Longrightarrow> race_inv n N s'"
  by (induction ts s rule: race_run.induct) (auto split: bind_splits dest: incr_step_inv)

section \<open>How far it can fall behind\<close>

text \<open>Once any increment is done the counter is not 0 again, and a thread that does its second one
  has loaded at least 1.\<close>

definition low_inv :: "nat \<Rightarrow> nat \<Rightarrow> race \<Rightarrow> bool" where
  "low_inv n k s \<longleftrightarrow> (\<forall>t\<ge>n. todo s t = 0) \<and> (\<forall>t<n. todo s t < k \<longrightarrow> 1 \<le> count s)
     \<and> (\<forall>t<n. \<forall>v. loaded s t = Some v \<longrightarrow> todo s t < k \<longrightarrow> 1 \<le> v) \<and> ((\<forall>t<n. todo s t = 0) \<longrightarrow> 2 \<le> count s)"

lemma incr_step_low:
  assumes "incr_step t s = Some s'" "low_inv n k s" "2 \<le> k"
  shows "low_inv n k s'"
proof (cases "loaded s t")
  case None
  then show ?thesis using assms by (auto simp: incr_step_def low_inv_def split: if_splits)
next
  case (Some v)
  then have s': "s' = s\<lparr>count := Suc v, loaded := (loaded s)(t := None), todo := (todo s)(t := todo s t - 1)\<rparr>"
    and pos: "0 < todo s t"
    using assms(1) by (auto simp: incr_step_def split: if_splits)
  have t: "t < n" using assms(2) pos by (auto simp: low_inv_def not_less [symmetric])
  have "1 \<le> v" if "todo s t < k" using assms(2) Some t that by (auto simp: low_inv_def)
  moreover have "todo s t < k" if "todo s' t = 0" using that assms(3) by (simp add: s')
  ultimately show ?thesis using assms(2) t unfolding low_inv_def by (auto simp: s')
qed

lemma race_run_low: "race_run ts s = Some s' \<Longrightarrow> low_inv n k s \<Longrightarrow> 2 \<le> k \<Longrightarrow> low_inv n k s'"
  by (induction ts s rule: race_run.induct) (auto split: bind_splits dest: incr_step_low)

lemma race_run_append: "race_run (ts @ us) s = Option.bind (race_run ts s) (race_run us)"
  by (induction ts arbitrary: s) (auto split: bind_splits)

text \<open>Increments of one thread while no other takes a step.\<close>

definition alone :: "nat \<Rightarrow> nat \<Rightarrow> nat list" where
  "alone j t = concat (replicate j [t, t])"

lemma alone_run:
  "loaded s t = None \<Longrightarrow> j \<le> todo s t \<Longrightarrow>
    race_run (alone j t) s = Some (s\<lparr>count := count s + j, todo := (todo s)(t := todo s t - j)\<rparr>)"
proof (induction j arbitrary: s)
  case (Suc j)
  let ?s = "s\<lparr>count := Suc (count s), todo := (todo s)(t := todo s t - 1)\<rparr>"
  have "(loaded s)(t := None) = loaded s" using Suc.prems(1) by (simp add: fun_upd_idem)
  then have "race_run [t, t] s = Some ?s" using Suc.prems by (simp add: incr_step_def)
  moreover have "race_run (alone j t) ?s = Some (?s\<lparr>count := count ?s + j, todo := (todo ?s)(t := todo ?s t - j)\<rparr>)"
    using Suc.prems by (intro Suc.IH) simp_all
  moreover have "alone (Suc j) t = [t, t] @ alone j t" by (simp add: alone_def)
  ultimately show ?case by (simp only: race_run_append) (simp add: fun_upd_def cong: if_cong)
qed (simp add: alone_def)

text \<open>The first thread stores a 1 over all the others have done but one increment, and the last of
  these a 2 over all the first still has to do.\<close>

definition worst :: "nat list" where
  "worst = [0] @ alone 99 1 @ alone 100 2 @ alone 100 3 @ [0, 1] @ alone 99 0 @ [1]"

lemma worst_run:
  "race_run worst (race_init 4 100) = Some \<lparr>count = 2, loaded = (\<lambda>_. None), todo = (\<lambda>_. 0)\<rparr>"
  by (simp add: worst_def race_run_append alone_run incr_step_def race_init_def) (auto simp: fun_eq_iff)

section \<open>Properties\<close>

text \<open>C40: The counter is never more than the increments finished, and it can fall far behind: when all
  threads have finished it is at least 2, and with the four threads and 100 messages each of the
  speed test there is a run that ends with 2, so that the polling loop, which waits for 390, never
  ends although every message has been received.\<close>

theorem counter_lost_updates:
  "(\<forall>ts s. race_run ts (race_init n k) = Some s \<longrightarrow> count s + (\<Sum>t<n. todo s t) \<le> n * k)
   \<and> (0 < n \<and> 2 \<le> k \<longrightarrow> (\<forall>ts s. race_run ts (race_init n k) = Some s \<and> finished n s \<longrightarrow> 2 \<le> count s))
   \<and> (\<exists>ts s. race_run ts (race_init 4 100) = Some s \<and> finished 4 s \<and> count s = 2 \<and> \<not> poll_ends s)"
proof (intro conjI allI impI)
  fix ts s assume "race_run ts (race_init n k) = Some s"
  moreover have "race_inv n (n * k) (race_init n k)" by (simp add: race_inv_def race_init_def)
  ultimately show "count s + (\<Sum>t<n. todo s t) \<le> n * k" using race_run_inv by (auto simp: race_inv_def)
next
  fix ts s assume a: "0 < n \<and> 2 \<le> k" and s: "race_run ts (race_init n k) = Some s \<and> finished n s"
  then have "low_inv n k (race_init n k)" by (auto simp: low_inv_def race_init_def)
  with a s have "low_inv n k s" using race_run_low by blast
  then show "2 \<le> count s" using s by (auto simp: low_inv_def finished_def list_all_iff)
next
  show "\<exists>ts s. race_run ts (race_init 4 100) = Some s \<and> finished 4 s \<and> count s = 2 \<and> \<not> poll_ends s"
    using worst_run by (intro exI conjI) (auto simp: poll_ends_def THRESHOLD_def finished_def list_all_iff)
qed

text \<open>Two threads that increment at the same time: one of the two updates is lost. And a run to the end.\<close>

theorem counter_lost_updates_witness:
  "(\<exists>s. race_run [0, 1, 0, 1] (race_init 4 100) = Some s \<and> count s = 1 \<and> (\<Sum>t<4. todo s t) = 398
     \<and> count s + (\<Sum>t<4. todo s t) \<le> 400)
   \<and> (\<exists>s. race_run worst (race_init 4 100) = Some s \<and> finished 4 s \<and> 2 \<le> count s \<and> \<not> poll_ends s)"
proof
  have t: "4 = Suc (Suc (Suc (Suc 0)))" by simp
  have "\<exists>s. race_run [0, 1, 0, 1] (race_init 4 100) = Some s \<and> count s = 1 \<and> (\<Sum>t<4. todo s t) = 398"
    by (simp add: race_init_def incr_step_def t del: One_nat_def)
  with counter_lost_updates [of 4 100]
  show "\<exists>s. race_run [0, 1, 0, 1] (race_init 4 100) = Some s \<and> count s = 1 \<and> (\<Sum>t<4. todo s t) = 398
     \<and> count s + (\<Sum>t<4. todo s t) \<le> 400" by fastforce
  let ?s = "\<lparr>count = 2, loaded = (\<lambda>_. None), todo = (\<lambda>_. 0)\<rparr> :: race"
  have "finished 4 ?s" "\<not> poll_ends ?s" by (simp_all add: finished_def list_all_iff poll_ends_def THRESHOLD_def)
  with counter_lost_updates [of 4 100] worst_run
  show "\<exists>s. race_run worst (race_init 4 100) = Some s \<and> finished 4 s \<and> 2 \<le> count s \<and> \<not> poll_ends s"
    by (intro exI [of _ ?s]) simp
qed

end
