(* ===== verification/Polling.thy ===== *)
theory Polling
  imports SpeedTest Counter
begin

text \<open>
  The receiver of the speed test and the loop in which \<open>main\<close> polls its counter: a \<open>PerProtocol\<close> host
  (\<open>host_step\<close>) whose four application threads execute \<open>mCounter++\<close> behind each text they take as
  a load and a store (\<open>incr_step\<close>), interleaved in any way with the other threads and each other.
  (The field \<open>mCounter\<close> of a host only counts the increments.)
\<close>

section \<open>The receiver with its counter\<close>

fun app_no :: "app \<Rightarrow> nat" where
  "app_no FTP = 0" | "app_no Telnet = 1" | "app_no RDP = 2" | "app_no DNS = 3"

fun recv_pipe :: "app \<Rightarrow> pipe_id" where
  "recv_pipe FTP = ftp_recv_pipe" | "recv_pipe Telnet = tel_recv_pipe"
| "recv_pipe RDP = rdp_recv_pipe" | "recv_pipe DNS = dns_recv_pipe"

text \<open>A thread that has not finished its increment does not read its pipe.\<close>

definition mid_increment :: "pipe_id \<Rightarrow> race \<Rightarrow> bool" where
  "mid_increment p r \<longleftrightarrow> list_ex (\<lambda>a. p = recv_pipe a \<and> 0 < todo r (app_no a)) [FTP, Telnet, RDP, DNS]"

text \<open>The increments that are due after a turn: one for each text taken in it.\<close>

definition due :: "host \<Rightarrow> host \<Rightarrow> race \<Rightarrow> race" where
  "due s t r = r\<lparr>todo := (\<lambda>i. todo r i
     + length (filter (\<lambda>(a, bs). app_no a = i) (drop (length (taken s)) (taken t))))\<rparr>"

inductive counting :: "link \<Rightarrow> host \<Rightarrow> race \<Rightarrow> label list \<Rightarrow> host \<Rightarrow> race \<Rightarrow> bool" for c where
  rest: "counting c s r [] s r"
| turn: "host_step c s l (Inr t) \<Longrightarrow> (\<And>p. l = Work p \<Longrightarrow> \<not> mid_increment p r) \<Longrightarrow>
    counting c t (due s t r) ls u r' \<Longrightarrow> counting c s r (l # ls) u r'"
| incr: "incr_step (app_no a) r = Some r1 \<Longrightarrow> counting c s r1 ls u r' \<Longrightarrow> counting c s r ls u r'"

definition race_start :: race where
  "race_start = \<lparr>count = 0, loaded = (\<lambda>_. None), todo = (\<lambda>_. 0)\<rparr>"

lemma counting_host: "counting c s r ls t r' \<Longrightarrow> host_run c s ls (Inr t)"
  by (induction rule: counting.induct) (auto intro: host_run.intros)

section \<open>The counter and the texts taken\<close>

lemma app_no_less: "app_no a < 4"
  by (cases a) simp_all

lemma sum_apps: "(\<Sum>i<4. length (filter (\<lambda>(a, bs). app_no a = i) xs)) = length xs"
proof (induction xs)
  case (Cons x xs)
  have "(\<Sum>i<4. length (filter (\<lambda>(a, bs). app_no a = i) (x # xs)))
      = (\<Sum>i<4. (if i = app_no (fst x) then 1 else 0) + length (filter (\<lambda>(a, bs). app_no a = i) xs))"
    by (intro sum.cong) (auto split: prod.splits)
  then show ?case using Cons app_no_less [of "fst x"] by (simp add: sum.distrib)
qed simp

lemma due_inv:
  assumes "race_inv 4 (length (taken s)) r" "taken t = taken s @ new"
  shows "race_inv 4 (length (taken t)) (due s t r)"
proof -
  have "(\<Sum>i<4. todo (due s t r) i) = (\<Sum>i<4. todo r i) + length new"
    using assms(2) by (simp add: due_def sum.distrib sum_apps)
  moreover have "todo (due s t r) i = 0" if "4 \<le> i" for i
  proof -
    have "app_no a \<noteq> i" for a using app_no_less [of a] that by simp
    then show ?thesis using assms that by (auto simp: due_def race_inv_def)
  qed
  ultimately show ?thesis
    using assms unfolding race_inv_def by (auto simp: due_def)
qed

text \<open>A turn takes at most one text, and none if it is not that of an application.\<close>

lemma host_step_taken:
  fixes c :: link
  assumes "host_step c s l (Inr t)" "host_inv (if is_input l then Suc k else k) s" "proper l"
  obtains new where "taken t = taken s @ new" "length new \<le> 1"
proof (cases l)
  case (Work p)
  with assms have step: "host_step c s (Work p) (Inr t)" "host_inv k s" by simp_all
  obtain u us n m' h' where "pipe s p = u # us" "mem_ext {} (heap s) h'"
    and t: "t = after n (msg u) (set_msg (msg u) m' h' (s\<lparr>pipe := (pipe s)(p := us)\<rparr>))"
    by (rule work_shape [OF step(2,1)])
  show thesis
  proof (cases n)
    case (Next q i bs)
    then show thesis using t that [of "[]"] by (simp add: write_pipe_def set_msg_def)
  next
    case (End x)
    then show thesis using t that [of "[]"] that by (cases x) (auto simp: set_msg_def)
  qed
next
  case (Arrive dg)
  with assms obtain bs where "dg = Some bs" by auto
  with Arrive assms(1) have r: "msg_recv (Some bs) s = Inr t" by auto
  obtain m h where "msg_recv (Some bs) s = Inr (write_pipe eth_recv_pipe 0 (nobj s)
      (s\<lparr>heap := h, objs := (objs s)(nobj s \<mapsto> m), nobj := Suc (nobj s)\<rparr>))"
    using msg_recv_eq [OF host_invD(1) [OF assms(2)]] by metis
  with r show thesis using that [of "[]"] by (auto simp: write_pipe_def)
next
  case (Submit bs i)
  with assms(1) show thesis using that [of "[]"] by (auto simp: new_Message_def msg_send_def write_pipe_def)
qed

lemma host_step_next:
  fixes c :: link
  assumes "host_step c s l (Inr t)" "host_inv (k + inputs (l # ls)) s" "list_all proper (l # ls)"
  shows "host_inv (k + inputs ls) t" "\<exists>new. taken t = taken s @ new \<and> length new \<le> 1"
proof -
  have inv: "host_inv (if is_input l then Suc (k + inputs ls) else k + inputs ls) s" and p: "proper l"
    using assms(2,3) by (simp_all split: if_splits)
  show "host_inv (k + inputs ls) t" using host_step_inv(2) [OF inv assms(1) p] by simp
  show "\<exists>new. taken t = taken s @ new \<and> length new \<le> 1" using host_step_taken [OF assms(1) inv p] by blast
qed

lemma counting_inv:
  fixes c :: link
  assumes "counting c s r ls t r'" "host_inv (k + inputs ls) s" "list_all proper ls" "race_inv 4 (length (taken s)) r"
  shows "race_inv 4 (length (taken t)) r'"
  using assms
proof (induction rule: counting.induct)
  case (turn s l t r ls u r')
  note n = host_step_next [OF turn.hyps(1) turn.prems(1,2)]
  then obtain new where "taken t = taken s @ new" by blast
  from due_inv [OF turn.prems(3) this] show ?case using turn.IH n(1) turn.prems(2) by simp
next
  case (incr a r r1 s ls u r')
  then show ?case using incr_step_inv by blast
qed

text \<open>When each increment is done before the next text is taken, none is lost.\<close>

definition settled :: "race \<Rightarrow> bool" where
  "settled r \<longleftrightarrow> todo r = (\<lambda>_. 0) \<and> loaded r = (\<lambda>_. None)"

lemma one_increment:
  assumes "settled r"
  shows "\<exists>r1. incr_step (app_no a) (r\<lparr>todo := (todo r)(app_no a := 1)\<rparr>) = Some r1
    \<and> incr_step (app_no a) r1 = Some (r\<lparr>count := count r + 1\<rparr>)"
proof -
  have "(todo r)(app_no a := 0) = todo r" "(loaded r)(app_no a := None) = loaded r"
    using assms by (simp_all add: settled_def fun_upd_idem)
  then show ?thesis using assms by (simp add: incr_step_def settled_def)
qed

lemma due_simps:
  "taken t = taken s \<Longrightarrow> due s t r = r"
  "taken t = taken s @ [(a, bs)] \<Longrightarrow> settled r \<Longrightarrow> due s t r = r\<lparr>todo := (todo r)(app_no a := 1)\<rparr>"
  by (auto simp: due_def settled_def fun_eq_iff intro!: arg_cong [where f = "\<lambda>f. r\<lparr>todo := f\<rparr>"])

lemma no_update_lost:
  fixes c :: link
  assumes "host_run c s ls (Inr t)" "host_inv (k + inputs ls) s" "list_all proper ls" "settled r"
  shows "\<exists>r'. counting c s r ls t r' \<and> settled r' \<and> count r' + length (taken s) = count r + length (taken t)"
  using assms
proof (induction s ls "Inr t :: host res" arbitrary: r rule: host_run.induct)
  case (stop s)
  then show ?case by (auto intro: counting.rest)
next
  case (step s l t' ls)
  note n = host_step_next [OF step.hyps(1) step.prems(1,2)]
  have free: "\<not> mid_increment p r" for p using step.prems(3) by (simp add: mid_increment_def settled_def)
  obtain new where new: "taken t' = taken s @ new" "length new \<le> 1" using n(2) by blast
  show ?case
  proof (cases new)
    case Nil
    then have d: "due s t' r = r" using new by (intro due_simps(1)) simp
    then obtain r' where "counting c t' r ls t r'" "settled r'" "count r' + length (taken t') = count r + length (taken t)"
      using step.hyps(3) [OF n(1) _ step.prems(3)] step.prems(2) by auto
    then show ?thesis using counting.turn [OF step.hyps(1), of r ls t r'] free d new Nil by auto
  next
    case (Cons x xs)
    obtain a bs where "new = [(a, bs)]" using new(2) Cons by (cases x) auto
    with new have t': "taken t' = taken s @ [(a, bs)]" by simp
    let ?r = "r\<lparr>count := count r + 1\<rparr>"
    have "settled ?r" using step.prems(3) by (simp add: settled_def)
    then obtain r' where r': "counting c t' ?r ls t r'" "settled r'"
      "count r' + length (taken t') = count ?r + length (taken t)"
      using step.hyps(3) [OF n(1), of ?r] step.prems(2) by auto
    obtain r1 where "incr_step (app_no a) (due s t' r) = Some r1" "incr_step (app_no a) r1 = Some ?r"
      using one_increment [OF step.prems(3), of a] due_simps(2) [OF t' step.prems(3)] by auto
    then have "counting c t' (due s t' r) ls t r'" using r'(1) by (auto intro: counting.incr)
    from counting.turn [OF step.hyps(1) _ this] show ?thesis using r'(2,3) free t' by auto
  qed
qed

section \<open>What arrives and what is taken\<close>

lemma taken_outcomes: "length (taken s) = size (filter_mset is_got (outcomes s))"
proof -
  have "filter_mset is_got (outcomes s) = image_mset (\<lambda>(a, bs). Got a bs) (mset (taken s))"
    by (simp add: outcomes_def filter_mset_image_mset case_prod_beta' cong: filter_mset_cong)
  then show ?thesis by simp
qed

text \<open>The datagrams of either phase.\<close>

lemma delivered:
  "dg = message_dg \<or> dg = protocol_dg \<Longrightarrow> fate c eth_recv_pipe 0 (take 1024 (dg a)) = Inr (Got a text_cells)"
proof -
  assume "dg = message_dg \<or> dg = protocol_dg"
  then have "length (dg a) \<le> 1024 \<and> fate c eth_recv_pipe 0 (dg a) = Inr (Got a text_cells)"
    by (cases a) (auto simp: message_dg_def protocol_dg_def fate_up length_wire SIZE_def)
  then show ?thesis by simp
qed

lemma arrivals_fate:
  "filter is_input ls = map (\<lambda>a. Arrive (Some (dg a))) as \<Longrightarrow> dg = message_dg \<or> dg = protocol_dg \<Longrightarrow>
     list_all proper ls \<and> inputs ls = length as
     \<and> inputs_fate c ls = image_mset (\<lambda>a. Inr (Got a text_cells)) (mset as)"
proof (induction ls arbitrary: as)
  case (Cons l ls)
  show ?case
  proof (cases "is_input l")
    case True
    with Cons.prems obtain a as' where "as = a # as'" "l = Arrive (Some (dg a))"
      "filter is_input ls = map (\<lambda>a. Arrive (Some (dg a))) as'" by auto
    with Cons.IH [OF this(3) Cons.prems(2)] delivered [OF Cons.prems(2), of c a] show ?thesis by simp
  next
    case False
    then obtain p where "l = Work p" by (cases l) auto
    with Cons show ?thesis by simp
  qed
qed simp

text \<open>No more is taken than has arrived.\<close>

fun got_res :: "outcome res \<Rightarrow> bool" where
  "got_res (Inl e) = False" | "got_res (Inr x) = is_got x"

lemma taken_account: "length (taken s) \<le> size (filter_mset got_res (account c s))"
  by (simp add: account_def filter_mset_image_mset taken_outcomes)

lemma taken_quiet: "quiet s \<Longrightarrow> size (filter_mset got_res (account c s)) = length (taken s)"
  by (simp add: quiet_account filter_mset_image_mset taken_outcomes)

text \<open>Runs exist: the datagrams arrive, then the host's threads work until the pipes are empty.\<close>

lemma arrivals_run:
  fixes c :: link
  assumes "host_inv (k + length as) s" "\<And>e. Inl e \<notin># account c s" "dg = message_dg \<or> dg = protocol_dg"
  shows "\<exists>ls t. host_run c s ls (Inr t) \<and> filter is_input ls = map (\<lambda>a. Arrive (Some (dg a))) as \<and> quiet t"
  using assms(1,2)
proof (induction as arbitrary: s)
  case Nil
  then obtain ls t where "host_run c s ls (Inr t)" "inputs ls = 0" "quiet t"
    using host_drains [of "k + length ([] :: app list)" s c] by blast
  then show ?case by (intro exI [of _ ls] exI [of _ t]) (simp add: inputs_def)
next
  case (Cons a as)
  have "host_inv (Suc (k + length as)) s" using Cons.prems(1) by simp
  then obtain s1 where s1: "msg_recv (Some (dg a)) s = Inr s1" "host_inv (k + length as) s1"
    "account c s1 = account c s + input_fate c (Arrive (Some (dg a)))"
    by (rule arrive_step)
  have "Inl e \<notin># account c s1" for e
    using Cons.prems(2) s1(3) delivered [OF assms(3), of c a] by simp
  from Cons.IH [OF s1(2) this] obtain ls t where ls: "host_run c s1 ls (Inr t)"
    "filter is_input ls = map (\<lambda>a. Arrive (Some (dg a))) as" "quiet t" by blast
  have "host_step c s (Arrive (Some (dg a))) (Inr s1)"
    using host_step.arrive [of c s "Some (dg a)"] s1(1) by simp
  with ls show ?case
    by (intro exI [of _ "Arrive (Some (dg a)) # ls"] exI [of _ t]) (auto intro: host_run.step)
qed

section \<open>Properties\<close>

text \<open>C21: The polling loop: datagrams of the four threads (as either kind of sender puts them on the
  network) arrive at a host at rest whose counter is 0, in any order, and the threads of the host take
  turns and the loads and stores of their increments in any way. Then whenever the loop of \<open>main\<close> finds
  390, at most ten of the 400 texts have not arrived; once the pipes are empty each text that
  arrived has been delivered to its application; and there is a run, in which no update of the counter is lost,
  after which the loop ends if at most ten texts were lost. (In others it need not: C22, C40.)\<close>

theorem st_threshold:
  fixes c :: link
  assumes "host_inv (length as) s" "quiet s" "taken s = []" "dg = message_dg \<or> dg = protocol_dg"
    and "length as + lost = 400"
  defines "inputs_of \<equiv> \<lambda>ls. filter is_input ls = map (\<lambda>a. Arrive (Some (dg a))) as"
  shows "(\<forall>ls t r. inputs_of ls \<and> counting c s race_start ls t r \<longrightarrow> (poll_ends r \<longrightarrow> lost \<le> 10)
      \<and> (quiet t \<longrightarrow> outcomes t = outcomes s + image_mset (\<lambda>a. Got a text_cells) (mset as)))
    \<and> (\<exists>ls t r. inputs_of ls \<and> counting c s race_start ls t r \<and> quiet t \<and> finished 4 r
      \<and> (poll_ends r \<longleftrightarrow> lost \<le> 10))"
proof (intro conjI allI impI; (elim conjE)?)
  have start: "race_inv 4 (length (taken s)) race_start"
    using assms(3) by (simp add: race_inv_def race_start_def)
  have run: "account c t = account c s + image_mset (\<lambda>a. Inr (Got a text_cells)) (mset as)
      \<and> host_inv (0 + inputs ls) s \<and> list_all proper ls"
    if "inputs_of ls" "host_run c s ls (Inr t)" for ls t
    using host_run_inv [OF that(2), of 0] arrivals_fate [OF that(1) [unfolded inputs_of_def] assms(4), of c] assms(1)
    by simp
  show "lost \<le> 10" if "inputs_of ls" "counting c s race_start ls t r" "poll_ends r" for ls t r
  proof -
    note R = run [OF that(1) counting_host [OF that(2)]]
    have "race_inv 4 (length (taken t)) r" using counting_inv [OF that(2) _ _ start] R by blast
    then have "THRESHOLD \<le> length (taken t)" using that(3) by (simp add: race_inv_def poll_ends_def)
    also have "\<dots> \<le> length as"
      using taken_account [of t c] taken_quiet [OF assms(2), of c] assms(3) R by (simp add: filter_mset_image_mset)
    finally show ?thesis using assms(5) by (simp add: THRESHOLD_def)
  qed
  have out: "outcomes t = outcomes s + image_mset (\<lambda>a. Got a text_cells) (mset as)"
    if "inputs_of ls" "host_run c s ls (Inr t)" "quiet t" for ls t
  proof -
    have "image_mset Inr (outcomes t) = (image_mset Inr
        (outcomes s + image_mset (\<lambda>a. Got a text_cells) (mset as)) :: outcome res multiset)"
      using run [OF that(1,2)]
      by (simp add: quiet_account [OF assms(2)] quiet_account [OF that(3)] image_mset.compositionality comp_def)
    then show ?thesis by (rule multiset.inj_map_strong [rotated]) simp
  qed
  then show "outcomes t = outcomes s + image_mset (\<lambda>a. Got a text_cells) (mset as)"
    if "inputs_of ls" "counting c s race_start ls t r" "quiet t" for ls t r
    using that counting_host by blast
  have "\<And>e. Inl e \<notin># account c s" by (auto simp: quiet_account [OF assms(2)])
  then obtain ls t where ls: "host_run c s ls (Inr t)" "inputs_of ls" "quiet t"
    using arrivals_run [of 0 as s c dg] assms(1,4) unfolding inputs_of_def by auto
  have "settled race_start" by (simp add: settled_def race_start_def)
  then obtain r where r: "counting c s race_start ls t r" "settled r" "count r = length (taken t)"
    using no_update_lost [OF ls(1), of 0 race_start] run [OF ls(2,1)] assms(3) by (auto simp: race_start_def)
  have "length (taken t) = length as"
    unfolding taken_outcomes out [OF ls(2,1,3)]
    using assms(3) taken_outcomes [of s] by (simp add: filter_mset_image_mset)
  then have "finished 4 r" "poll_ends r \<longleftrightarrow> lost \<le> 10"
    using r(2,3) assms(5) by (auto simp: finished_def list_all_iff settled_def poll_ends_def THRESHOLD_def)
  with ls r(1) show "\<exists>ls t r. inputs_of ls \<and> counting c s race_start ls t r \<and> quiet t \<and> finished 4 r
      \<and> (poll_ends r \<longleftrightarrow> lost \<le> 10)" by blast
qed

theorem st_threshold_witness:
  "\<exists>ls t r. counting sample_link sample_sender race_start ls t r \<and> quiet t \<and> finished 4 r \<and> poll_ends r
     \<and> size (outcomes t) = 400"
proof -
  have len: "length sample_rounds = 400" by (rule complete_length [OF sample_rounds])
  have "host_inv (length sample_rounds) sample_sender" using sample_sender(1) by (simp add: len)
  moreover have "taken sample_sender = []" by (simp add: sample_sender_def sample_host_def)
  moreover have "length sample_rounds + 0 = 400" by (simp add: len)
  ultimately show ?thesis
    using st_threshold [of sample_rounds sample_sender message_dg 0 sample_link] sample_sender(2,4) len by fastforce
qed

end
