(* ===== verification/SpeedMain.thy ===== *)
theory SpeedMain
  imports Polling
begin

text \<open>
  \<open>main\<close> of \<open>SpeedTest.cc\<close>: its three measurements one after the other, with the clock it reads,
  the two global counters and what it prints. The sending threads, the network and the receivers are
  what \<open>st_protocol_phase\<close>, \<open>st_message_phase\<close> and \<open>st_threshold\<close> show of them: a round of a thread
  sends a text, which gets to the receiver or is lost; there the thread of the application (in
  \<open>PerProtocol\<close>) or a worker of the pool (in \<open>PerMessage\<close>) takes it and increments the counter, which
  is a load and a store between which everything else can happen, the reset by \<open>main\<close> included.
\<close>

section \<open>Time\<close>

record timeval =
  tv_sec :: int
  tv_usec :: int

definition valid_time :: "timeval \<Rightarrow> bool" where
  "valid_time t \<longleftrightarrow> 0 \<le> tv_usec t \<and> tv_usec t < 1000000"

definition usecs :: "timeval \<Rightarrow> int" where
  "usecs t = 1000000 * tv_sec t + tv_usec t"

text \<open>\<open>micros = end.tv_usec - start.tv_usec\<close>, an \<open>int\<close>.\<close>

definition micros :: "timeval \<Rightarrow> timeval \<Rightarrow> i32" where
  "micros s e = word_of_int (tv_usec e - tv_usec s)"

section \<open>main\<close>

datatype phase = Phase1 | Phase2 | Phase3

datatype place =
    Start phase     \<comment> \<open>before the start time is read\<close>
  | Joins phase     \<comment> \<open>the four threads are created, at the joins\<close>
  | Poll phase      \<comment> \<open>in the loop that waits for the counter\<close>
  | Stop phase      \<comment> \<open>before the end time is read\<close>
  | Print phase
  | Over

record speed =
  place :: place
  clock :: timeval                \<comment> \<open>what \<open>gettimeofday\<close> gives\<close>
  start :: timeval
  stop_time :: timeval
  mCount :: nat                   \<comment> \<open>\<open>mCounter\<close>\<close>
  rCount :: nat                   \<comment> \<open>\<open>rCounter\<close>\<close>
  rounds :: "phase \<Rightarrow> app \<Rightarrow> nat" \<comment> \<open>rounds the threads of a phase have to do\<close>
  flying :: "phase \<Rightarrow> app \<Rightarrow> nat" \<comment> \<open>texts sent, not yet taken or lost\<close>
  held :: "phase \<Rightarrow> nat \<Rightarrow> nat option"  \<comment> \<open>what a thread of the receiver has loaded and not yet stored\<close>
  counted :: "phase \<Rightarrow> nat"       \<comment> \<open>texts taken whose increment is done\<close>
  printed :: "i32 list"

definition speed_init :: "timeval \<Rightarrow> speed" where
  "speed_init t = \<lparr>place = Start Phase1, clock = t, start = t, stop_time = t, mCount = 0, rCount = 0,
     rounds = (\<lambda>_ _. 0), flying = (\<lambda>_ _. 0), held = (\<lambda>_ _. None), counted = (\<lambda>_. 0), printed = []\<rparr>"

text \<open>The first and third phase end in a \<open>PerProtocol\<close> host, the second in \<open>PerMessage\<close>.\<close>

definition counter :: "phase \<Rightarrow> speed \<Rightarrow> nat" where
  "counter n s = (if n = Phase2 then rCount s else mCount s)"

text \<open>The second phase reads the end time before it waits, the others after.\<close>

fun main_step :: "place \<Rightarrow> speed \<Rightarrow> speed option" where
  "main_step (Start n) s = Some (s\<lparr>place := Joins n, start := clock s, rounds := (rounds s)(n := \<lambda>_. SIZE)\<rparr>)"
| "main_step (Joins n) s = (if list_all (\<lambda>a. rounds s n a = 0) [FTP, Telnet, DNS, RDP]
     then Some (s\<lparr>place := (if n = Phase2 then Stop n else Poll n)\<rparr>) else None)"
| "main_step (Poll n) s = (if THRESHOLD \<le> counter n s
     then Some (s\<lparr>place := (if n = Phase2 then Print n else Stop n)\<rparr>) else Some s)"
| "main_step (Stop n) s = Some (s\<lparr>place := (if n = Phase2 then Poll n else Print n), stop_time := clock s\<rparr>)"
| "main_step (Print n) s = (let s = s\<lparr>printed := printed s @ [micros (start s) (stop_time s)]\<rparr> in Some (case n of
       Phase1 \<Rightarrow> s\<lparr>place := Start Phase2\<rparr>
     | Phase2 \<Rightarrow> s\<lparr>place := Start Phase3, mCount := 0\<rparr>
     | Phase3 \<Rightarrow> s\<lparr>place := Over\<rparr>))"
| "main_step Over s = None"

definition send_text :: "phase \<Rightarrow> app \<Rightarrow> speed \<Rightarrow> speed" where
  "send_text n a s = s\<lparr>rounds := (rounds s)(n := (rounds s n)(a := rounds s n a - 1)),
     flying := (flying s)(n := (flying s n)(a := flying s n a + 1))\<rparr>"

definition lose_text :: "phase \<Rightarrow> app \<Rightarrow> speed \<Rightarrow> speed" where
  "lose_text n a s = s\<lparr>flying := (flying s)(n := (flying s n)(a := flying s n a - 1))\<rparr>"

text \<open>The thread that takes a text: that of its application, or any of the 25 workers of the pool.\<close>

definition takes :: "phase \<Rightarrow> app \<Rightarrow> nat \<Rightarrow> bool" where
  "takes n a i \<longleftrightarrow> (if n = Phase2 then i < 25 else i = app_no a)"

text \<open>\<open>mCounter++\<close> or \<open>rCounter++\<close>: the thread has a text and loads, and later stores.\<close>

definition load_text :: "phase \<Rightarrow> app \<Rightarrow> nat \<Rightarrow> speed \<Rightarrow> speed" where
  "load_text n a i s = (lose_text n a s)\<lparr>held := (held s)(n := (held s n)(i \<mapsto> counter n s))\<rparr>"

definition store_text :: "phase \<Rightarrow> nat \<Rightarrow> nat \<Rightarrow> speed \<Rightarrow> speed" where
  "store_text n i v s =
     (let s = s\<lparr>held := (held s)(n := (held s n)(i := None)), counted := (counted s)(n := counted s n + 1)\<rparr>
      in if n = Phase2 then s\<lparr>rCount := v + 1\<rparr> else s\<lparr>mCount := v + 1\<rparr>)"

inductive speed_step :: "speed \<Rightarrow> speed \<Rightarrow> bool" where
  main: "main_step (place s) s = Some t \<Longrightarrow> speed_step s t"
| send: "0 < rounds s n a \<Longrightarrow> speed_step s (send_text n a s)"
| load: "0 < flying s n a \<Longrightarrow> takes n a i \<Longrightarrow> held s n i = None \<Longrightarrow> speed_step s (load_text n a i s)"
| store: "held s n i = Some v \<Longrightarrow> speed_step s (store_text n i v s)"
| lose: "0 < flying s n a \<Longrightarrow> speed_step s (lose_text n a s)"
| tick: "valid_time t \<Longrightarrow> usecs (clock s) \<le> usecs t \<Longrightarrow> speed_step s (s\<lparr>clock := t\<rparr>)"

definition speed_reach :: "timeval \<Rightarrow> speed \<Rightarrow> bool" where
  "speed_reach t s \<longleftrightarrow> speed_step\<^sup>*\<^sup>* (speed_init t) s"

lemmas text_defs = send_text_def lose_text_def load_text_def store_text_def counter_def Let_def

section \<open>The counts\<close>

text \<open>The places in the order \<open>main\<close> comes to them.\<close>

fun stage :: "place \<Rightarrow> nat" where
  "stage (Start n) = (case n of Phase1 \<Rightarrow> 0 | Phase2 \<Rightarrow> 5 | Phase3 \<Rightarrow> 10)"
| "stage (Joins n) = (case n of Phase1 \<Rightarrow> 1 | Phase2 \<Rightarrow> 6 | Phase3 \<Rightarrow> 11)"
| "stage (Poll n) = (case n of Phase1 \<Rightarrow> 2 | Phase2 \<Rightarrow> 8 | Phase3 \<Rightarrow> 12)"
| "stage (Stop n) = (case n of Phase1 \<Rightarrow> 3 | Phase2 \<Rightarrow> 7 | Phase3 \<Rightarrow> 13)"
| "stage (Print n) = (case n of Phase1 \<Rightarrow> 4 | Phase2 \<Rightarrow> 9 | Phase3 \<Rightarrow> 14)"
| "stage Over = 15"

text \<open>A counter, and what a thread has loaded of it, is at most the number of texts counted in it so
  far; before the third phase begins that is the first phase alone.\<close>

definition counts_ok :: "speed \<Rightarrow> bool" where
  "counts_ok s \<longleftrightarrow> rCount s \<le> counted s Phase2 \<and> mCount s \<le> counted s Phase1 + counted s Phase3
     \<and> (\<forall>i v. held s Phase2 i = Some v \<longrightarrow> v \<le> counted s Phase2)
     \<and> (\<forall>n i v. n \<noteq> Phase2 \<longrightarrow> held s n i = Some v \<longrightarrow> v \<le> counted s Phase1 + counted s Phase3)"

definition unbegun :: "speed \<Rightarrow> bool" where
  "unbegun s \<longleftrightarrow> counted s Phase3 = 0 \<and> (\<forall>i. held s Phase3 i = None) \<and> (\<forall>a. flying s Phase3 a = 0 \<and> rounds s Phase3 a = 0)"

definition speed_inv :: "speed \<Rightarrow> bool" where
  "speed_inv s \<longleftrightarrow> counts_ok s \<and> (let r = stage (place s) in (r \<le> 10 \<longrightarrow> unbegun s)
     \<and> (3 \<le> r \<longrightarrow> 390 \<le> counted s Phase1) \<and> (9 \<le> r \<longrightarrow> 390 \<le> counted s Phase2))"

lemmas speed_defs = speed_inv_def counts_ok_def unbegun_def Let_def

lemma main_step_inv:
  assumes "main_step (place s) s = Some t" "speed_inv s"
  shows "speed_inv t"
proof (cases "place s")
  case (Poll n)
  then show ?thesis using assms by (cases n) (auto simp: speed_defs counter_def THRESHOLD_def split: if_splits)
qed (use assms in \<open>auto simp: speed_defs split: phase.splits if_splits\<close>)

text \<open>The other steps leave \<open>main\<close> where it is.\<close>

lemma text_place [simp]:
  "place (send_text n a s) = place s" "place (lose_text n a s) = place s" "place (load_text n a i s) = place s"
  "place (store_text n i v s) = place s"
  by (simp_all add: text_defs)

lemma text_counted [simp]:
  "counted (send_text n a s) = counted s" "counted (lose_text n a s) = counted s" "counted (load_text n a i s) = counted s"
  "counted (store_text n i v s) = (counted s)(n := counted s n + 1)"
  by (simp_all add: text_defs)

lemma counts_ok_step:
  assumes "counts_ok s"
  shows "counts_ok (send_text n a s)" "counts_ok (lose_text n a s)" "counts_ok (load_text n a i s)"
    and "held s n i = Some v \<Longrightarrow> counts_ok (store_text n i v s)"
proof -
  show "counts_ok (send_text n a s)" "counts_ok (lose_text n a s)" "counts_ok (load_text n a i s)"
    using assms by (auto simp: counts_ok_def text_defs)
  show "counts_ok (store_text n i v s)" if "held s n i = Some v"
    using assms that by (cases n) (fastforce simp: counts_ok_def text_defs)+
qed

lemma unbegun_step:
  assumes "unbegun s"
  shows "0 < rounds s n a \<Longrightarrow> unbegun (send_text n a s)" "unbegun (lose_text n a s)"
    "0 < flying s n a \<Longrightarrow> unbegun (load_text n a i s)" "held s n i = Some v \<Longrightarrow> unbegun (store_text n i v s)"
  using assms by (auto simp: unbegun_def text_defs)

lemma speed_step_inv: "speed_step s t \<Longrightarrow> speed_inv s \<Longrightarrow> speed_inv t"
proof (induction rule: speed_step.induct)
  case (main s t)
  then show ?case by (rule main_step_inv)
next
  case (tick t s)
  then show ?case by (simp add: speed_defs)
qed (use counts_ok_step unbegun_step in \<open>auto simp: speed_inv_def Let_def\<close>)

lemma speed_reach_inv: "speed_reach t s \<Longrightarrow> speed_inv s"
proof -
  assume "speed_reach t s"
  then have "speed_step\<^sup>*\<^sup>* (speed_init t) s" by (simp add: speed_reach_def)
  moreover have "speed_inv (speed_init t)" by (simp add: speed_init_def speed_defs)
  ultimately show ?thesis by (induction rule: rtranclp_induct) (blast intro: speed_step_inv)+
qed

section \<open>Runs\<close>

text \<open>All rounds of one thread, and of all four.\<close>

lemma sends:
  "rounds s n a = k \<Longrightarrow> speed_step\<^sup>*\<^sup>* s (s\<lparr>rounds := (rounds s)(n := (rounds s n)(a := 0)),
     flying := (flying s)(n := (flying s n)(a := flying s n a + k))\<rparr>)"
proof (induction k arbitrary: s)
  case 0
  then have "(rounds s n)(a := 0) = rounds s n" "(flying s n)(a := flying s n a) = flying s n" by (simp_all add: fun_upd_idem)
  then show ?case by simp
next
  case (Suc k)
  have "speed_step s (send_text n a s)" using Suc.prems by (intro speed_step.send) simp
  moreover have "speed_step\<^sup>*\<^sup>* (send_text n a s) (s\<lparr>rounds := (rounds s)(n := (rounds s n)(a := 0)),
     flying := (flying s)(n := (flying s n)(a := flying s n a + Suc k))\<rparr>)"
    using Suc.IH [of "send_text n a s"] Suc.prems by (simp add: send_text_def del: fun_upd_apply add: fun_upd_same)
  ultimately show ?case by (rule converse_rtranclp_into_rtranclp)
qed

lemma all_apps: "((\<lambda>_. x)(FTP := y, Telnet := y, RDP := y, DNS := y)) = (\<lambda>_. y)"
  by (rule ext, rename_tac a, case_tac a) simp_all

lemma all_sends:
  assumes "rounds s n = (\<lambda>_. SIZE)" "flying s n = (\<lambda>_. 0)"
  shows "speed_step\<^sup>*\<^sup>* s (s\<lparr>rounds := (rounds s)(n := \<lambda>_. 0), flying := (flying s)(n := \<lambda>_. SIZE)\<rparr>)"
proof -
  let ?s = "\<lambda>f g. s\<lparr>rounds := (rounds s)(n := f), flying := (flying s)(n := g)\<rparr>"
  have step: "speed_step\<^sup>*\<^sup>* (?s f g) (?s (f(a := 0)) (g(a := SIZE)))" if "f a = SIZE" "g a = 0" for f g a
    using sends [of "?s f g" n a SIZE] that by (simp del: fun_upd_apply add: fun_upd_same)
  let ?f = "\<lambda>_::app. SIZE" and ?g = "\<lambda>_::app. 0::nat"
  have "speed_step\<^sup>*\<^sup>* (?s ?f ?g) (?s (?f(FTP := 0, Telnet := 0, RDP := 0, DNS := 0))
      (?g(FTP := SIZE, Telnet := SIZE, RDP := SIZE, DNS := SIZE)))"
    by (rule rtranclp_trans [OF step [of ?f FTP ?g] rtranclp_trans [OF
        step [of "?f(FTP := 0)" Telnet "?g(FTP := SIZE)"] rtranclp_trans [OF
        step [of "?f(FTP := 0, Telnet := 0)" RDP "?g(FTP := SIZE, Telnet := SIZE)"]
        step [of "?f(FTP := 0, Telnet := 0, RDP := 0)" DNS "?g(FTP := SIZE, Telnet := SIZE, RDP := SIZE)"]]]]) simp_all
  then have "speed_step\<^sup>*\<^sup>* (?s ?f ?g) (?s (\<lambda>_. 0) (\<lambda>_. SIZE))" unfolding all_apps .
  moreover have "(rounds s)(n := ?f) = rounds s" "(flying s)(n := ?g) = flying s" using assms by (simp_all add: fun_upd_idem)
  ultimately show ?thesis by simp
qed

text \<open>Texts counted by one thread while no other takes a step.\<close>

definition count_texts :: "phase \<Rightarrow> app \<Rightarrow> nat \<Rightarrow> speed \<Rightarrow> speed" where
  "count_texts n a k s = (if n = Phase2 then s\<lparr>rCount := rCount s + k\<rparr> else s\<lparr>mCount := mCount s + k\<rparr>)
     \<lparr>flying := (flying s)(n := (flying s n)(a := flying s n a - k)), counted := (counted s)(n := counted s n + k)\<rparr>"

lemma count_one:
  assumes "0 < flying s n a" "takes n a i" "held s n i = None"
  shows "speed_step\<^sup>*\<^sup>* s (count_texts n a 1 s)"
proof -
  have "(held s n)(i := None) = held s n" using assms(3) by (simp add: fun_upd_idem)
  then have "store_text n i (counter n s) (load_text n a i s) = count_texts n a 1 s"
    by (simp add: text_defs count_texts_def)
  moreover have "speed_step (load_text n a i s) (store_text n i (counter n s) (load_text n a i s))"
    by (rule speed_step.store) (simp add: text_defs)
  ultimately show ?thesis using speed_step.load [OF assms] by (simp add: converse_rtranclp_into_rtranclp)
qed

lemma counts:
  "k \<le> flying s n a \<Longrightarrow> takes n a i \<Longrightarrow> held s n i = None \<Longrightarrow> speed_step\<^sup>*\<^sup>* s (count_texts n a k s)"
proof (induction k)
  case 0
  have "(flying s n)(a := flying s n a) = flying s n" by (simp add: fun_upd_idem)
  then have "count_texts n a 0 s = s" by (simp add: count_texts_def fun_upd_idem)
  then show ?case by simp
next
  case (Suc k)
  let ?s = "count_texts n a k s"
  have "0 < flying ?s n a" "held ?s n i = None" using Suc.prems by (auto simp: count_texts_def)
  then have "speed_step\<^sup>*\<^sup>* ?s (count_texts n a 1 ?s)" using Suc.prems(2) by (intro count_one)
  moreover have "count_texts n a 1 ?s = count_texts n a (Suc k) s" by (simp add: count_texts_def)
  moreover have "speed_step\<^sup>*\<^sup>* s ?s" using Suc by simp
  ultimately show ?case by (metis rtranclp_trans)
qed

text \<open>States of a run in which the clock stands still: \<open>main\<close> at \<open>p\<close>, and for each phase the
  rounds, the texts on their way, what threads hold and what is counted.\<close>

definition run_at :: "timeval \<Rightarrow> place \<Rightarrow> nat \<Rightarrow> nat \<Rightarrow> (app \<Rightarrow> nat) \<times> (app \<Rightarrow> nat) \<times> (app \<Rightarrow> nat) \<Rightarrow>
    (app \<Rightarrow> nat) \<times> (app \<Rightarrow> nat) \<times> (app \<Rightarrow> nat) \<Rightarrow> (nat \<Rightarrow> nat option) \<Rightarrow> nat \<times> nat \<times> nat \<Rightarrow> nat \<Rightarrow> speed" where
  "run_at t p mc rc r f h c k =
     \<lparr>place = p, clock = t, start = t, stop_time = t, mCount = mc, rCount = rc,
      rounds = (case r of (a, b, d) \<Rightarrow> case_phase a b d), flying = (case f of (a, b, d) \<Rightarrow> case_phase a b d),
      held = case_phase h (\<lambda>_. None) (\<lambda>_. None), counted = (case c of (a, b, d) \<Rightarrow> case_phase a b d),
      printed = replicate k 0\<rparr>"

lemma phase_upd [simp]:
  "(case_phase a b c)(Phase1 := x) = case_phase x b c" "(case_phase a b c)(Phase2 := x) = case_phase a x c"
  "(case_phase a b c)(Phase3 := x) = case_phase a b x"
  by (auto simp: fun_eq_iff split: phase.split)

abbreviation zero :: "app \<Rightarrow> nat" where "zero \<equiv> \<lambda>_. 0"
abbreviation full :: "app \<Rightarrow> nat" where "full \<equiv> \<lambda>_. SIZE"

lemma at_main:
  "speed_reach t s \<Longrightarrow> main_step (place s) s = Some s' \<Longrightarrow> speed_reach t s'"
  unfolding speed_reach_def by (auto intro: rtranclp.rtrancl_into_rtrancl speed_step.main)

lemma at_sends:
  "speed_reach t s \<Longrightarrow> rounds s n = full \<Longrightarrow> flying s n = zero \<Longrightarrow>
    s' = s\<lparr>rounds := (rounds s)(n := zero), flying := (flying s)(n := full)\<rparr> \<Longrightarrow> speed_reach t s'"
  unfolding speed_reach_def by (auto intro: rtranclp_trans all_sends)

lemma at_counts:
  "speed_reach t s \<Longrightarrow> k \<le> flying s n a \<Longrightarrow> takes n a i \<Longrightarrow> held s n i = None \<Longrightarrow> s' = count_texts n a k s \<Longrightarrow> speed_reach t s'"
  unfolding speed_reach_def by (auto intro: rtranclp_trans counts)

lemma at_load:
  "speed_reach t s \<Longrightarrow> 0 < flying s n a \<Longrightarrow> takes n a i \<Longrightarrow> held s n i = None \<Longrightarrow> s' = load_text n a i s \<Longrightarrow> speed_reach t s'"
  unfolding speed_reach_def by (auto intro: rtranclp.rtrancl_into_rtrancl speed_step.load)

lemma at_store:
  "speed_reach t s \<Longrightarrow> held s n i = Some v \<Longrightarrow> s' = store_text n i v s \<Longrightarrow> speed_reach t s'"
  unfolding speed_reach_def by (auto intro: rtranclp.rtrancl_into_rtrancl speed_step.store)

lemmas run_simps = run_at_def SIZE_def THRESHOLD_def micros_def replicate_append_same text_defs count_texts_def takes_def

text \<open>The first phase, to the polling loop with all texts on their way.\<close>

lemma first_phase:
  "speed_reach t (run_at t (Poll Phase1) 0 0 (zero, zero, zero) (full, zero, zero) Map.empty (0, 0, 0) 0)"
proof -
  note r [simp] = run_simps
  have "speed_init t = run_at t (Start Phase1) 0 0 (zero, zero, zero) (zero, zero, zero) Map.empty (0, 0, 0) 0"
    by (auto simp: speed_init_def fun_eq_iff split: phase.split)
  then have "speed_reach t (run_at t (Start Phase1) 0 0 (zero, zero, zero) (zero, zero, zero) Map.empty (0, 0, 0) 0)"
    by (metis speed_reach_def rtranclp.rtrancl_refl)
  then have "speed_reach t (run_at t (Joins Phase1) 0 0 (full, zero, zero) (zero, zero, zero) Map.empty (0, 0, 0) 0)"
    by (rule at_main) simp_all
  then have "speed_reach t (run_at t (Joins Phase1) 0 0 (zero, zero, zero) (full, zero, zero) Map.empty (0, 0, 0) 0)"
    by (rule at_sends [where n = Phase1]) simp_all
  then show ?thesis by (rule at_main) simp_all
qed

text \<open>A text of the first phase is counted while \<open>main\<close> resets the counter: the third phase ends at once.\<close>

lemma late_store:
  "speed_reach t (run_at t Over 400 400 (zero, zero, zero) (zero, zero, full) Map.empty (400, 400, 0) 3)"
proof -
  note r [simp] = run_simps
  let ?f1 = "full(Telnet := 0)" let ?f2 = "?f1(RDP := 0)" let ?f3 = "?f2(DNS := 0)" let ?f4 = "?f3(FTP := 1)"
  let ?h = "[0 \<mapsto> 399] :: nat \<Rightarrow> nat option"
  have z: "?f4(FTP := 0) = zero" by (rule ext, rename_tac a, case_tac a) simp_all
  note first_phase [of t]
  then have "speed_reach t (run_at t (Poll Phase1) 100 0 (zero, zero, zero) (?f1, zero, zero) Map.empty (100, 0, 0) 0)"
    by (rule at_counts [where n = Phase1 and a = Telnet and k = 100 and i = 1]) simp_all
  then have "speed_reach t (run_at t (Poll Phase1) 200 0 (zero, zero, zero) (?f2, zero, zero) Map.empty (200, 0, 0) 0)"
    by (rule at_counts [where n = Phase1 and a = RDP and k = 100 and i = 2]) simp_all
  then have "speed_reach t (run_at t (Poll Phase1) 300 0 (zero, zero, zero) (?f3, zero, zero) Map.empty (300, 0, 0) 0)"
    by (rule at_counts [where n = Phase1 and a = DNS and k = 100 and i = 3]) simp_all
  then have "speed_reach t (run_at t (Poll Phase1) 399 0 (zero, zero, zero) (?f4, zero, zero) Map.empty (399, 0, 0) 0)"
    by (rule at_counts [where n = Phase1 and a = FTP and k = 99 and i = 0]) simp_all
  then have "speed_reach t (run_at t (Poll Phase1) 399 0 (zero, zero, zero) (zero, zero, zero) ?h (399, 0, 0) 0)"
    by (rule at_load [where n = Phase1 and a = FTP and i = 0]) (simp_all add: z [simplified])
  then have "speed_reach t (run_at t (Stop Phase1) 399 0 (zero, zero, zero) (zero, zero, zero) ?h (399, 0, 0) 0)"
    by (rule at_main) simp_all
  then have "speed_reach t (run_at t (Print Phase1) 399 0 (zero, zero, zero) (zero, zero, zero) ?h (399, 0, 0) 0)"
    by (rule at_main) simp_all
  then have "speed_reach t (run_at t (Start Phase2) 399 0 (zero, zero, zero) (zero, zero, zero) ?h (399, 0, 0) 1)"
    by (rule at_main) simp_all
  then have "speed_reach t (run_at t (Joins Phase2) 399 0 (zero, full, zero) (zero, zero, zero) ?h (399, 0, 0) 1)"
    by (rule at_main) simp_all
  then have "speed_reach t (run_at t (Joins Phase2) 399 0 (zero, zero, zero) (zero, full, zero) ?h (399, 0, 0) 1)"
    by (rule at_sends [where n = Phase2]) simp_all
  then have "speed_reach t (run_at t (Joins Phase2) 399 100 (zero, zero, zero) (zero, ?f1, zero) ?h (399, 100, 0) 1)"
    by (rule at_counts [where n = Phase2 and a = Telnet and k = 100 and i = 0]) simp_all
  then have "speed_reach t (run_at t (Joins Phase2) 399 200 (zero, zero, zero) (zero, ?f2, zero) ?h (399, 200, 0) 1)"
    by (rule at_counts [where n = Phase2 and a = RDP and k = 100 and i = 0]) simp_all
  then have "speed_reach t (run_at t (Joins Phase2) 399 300 (zero, zero, zero) (zero, ?f3, zero) ?h (399, 300, 0) 1)"
    by (rule at_counts [where n = Phase2 and a = DNS and k = 100 and i = 0]) simp_all
  then have "speed_reach t (run_at t (Joins Phase2) 399 399 (zero, zero, zero) (zero, ?f4, zero) ?h (399, 399, 0) 1)"
    by (rule at_counts [where n = Phase2 and a = FTP and k = 99 and i = 0]) simp_all
  then have "speed_reach t (run_at t (Joins Phase2) 399 400 (zero, zero, zero) (zero, zero, zero) ?h (399, 400, 0) 1)"
    by (rule at_counts [where n = Phase2 and a = FTP and k = 1 and i = 0]) (simp_all add: z [simplified])
  then have "speed_reach t (run_at t (Stop Phase2) 399 400 (zero, zero, zero) (zero, zero, zero) ?h (399, 400, 0) 1)"
    by (rule at_main) simp_all
  then have "speed_reach t (run_at t (Poll Phase2) 399 400 (zero, zero, zero) (zero, zero, zero) ?h (399, 400, 0) 1)"
    by (rule at_main) simp_all
  then have "speed_reach t (run_at t (Print Phase2) 399 400 (zero, zero, zero) (zero, zero, zero) ?h (399, 400, 0) 1)"
    by (rule at_main) simp_all
  then have "speed_reach t (run_at t (Start Phase3) 0 400 (zero, zero, zero) (zero, zero, zero) ?h (399, 400, 0) 2)"
    by (rule at_main) (simp_all add: numeral_2_eq_2)
  then have "speed_reach t (run_at t (Start Phase3) 400 400 (zero, zero, zero) (zero, zero, zero) Map.empty (400, 400, 0) 2)"
    by (rule at_store [where n = Phase1 and i = 0 and v = 399]) simp_all
  then have "speed_reach t (run_at t (Joins Phase3) 400 400 (zero, zero, full) (zero, zero, zero) Map.empty (400, 400, 0) 2)"
    by (rule at_main) simp_all
  then have "speed_reach t (run_at t (Joins Phase3) 400 400 (zero, zero, zero) (zero, zero, full) Map.empty (400, 400, 0) 2)"
    by (rule at_sends [where n = Phase3]) simp_all
  then have "speed_reach t (run_at t (Poll Phase3) 400 400 (zero, zero, zero) (zero, zero, full) Map.empty (400, 400, 0) 2)"
    by (rule at_main) simp_all
  then have "speed_reach t (run_at t (Stop Phase3) 400 400 (zero, zero, zero) (zero, zero, full) Map.empty (400, 400, 0) 2)"
    by (rule at_main) simp_all
  then have "speed_reach t (run_at t (Print Phase3) 400 400 (zero, zero, zero) (zero, zero, full) Map.empty (400, 400, 0) 2)"
    by (rule at_main) simp_all
  then show ?thesis by (rule at_main) (simp_all add: eval_nat_numeral)
qed

text \<open>One thread stores over the 300 texts the others have counted: all 400 are taken and the counter is at 100.\<close>

lemma lost_store:
  "speed_reach t (run_at t (Poll Phase1) 100 0 (zero, zero, zero) (zero, zero, zero) Map.empty (400, 0, 0) 0)"
proof -
  note r [simp] = run_simps
  let ?f0 = "full(FTP := 99)" let ?f1 = "?f0(Telnet := 0)" let ?f2 = "?f1(RDP := 0)" let ?f3 = "?f2(DNS := 0)"
  let ?h = "[0 \<mapsto> 0] :: nat \<Rightarrow> nat option"
  have z: "?f3(FTP := 0) = zero" by (rule ext, rename_tac a, case_tac a) simp_all
  note first_phase [of t]
  then have "speed_reach t (run_at t (Poll Phase1) 0 0 (zero, zero, zero) (?f0, zero, zero) ?h (0, 0, 0) 0)"
    by (rule at_load [where n = Phase1 and a = FTP and i = 0]) simp_all
  then have "speed_reach t (run_at t (Poll Phase1) 100 0 (zero, zero, zero) (?f1, zero, zero) ?h (100, 0, 0) 0)"
    by (rule at_counts [where n = Phase1 and a = Telnet and k = 100 and i = 1]) simp_all
  then have "speed_reach t (run_at t (Poll Phase1) 200 0 (zero, zero, zero) (?f2, zero, zero) ?h (200, 0, 0) 0)"
    by (rule at_counts [where n = Phase1 and a = RDP and k = 100 and i = 2]) simp_all
  then have "speed_reach t (run_at t (Poll Phase1) 300 0 (zero, zero, zero) (?f3, zero, zero) ?h (300, 0, 0) 0)"
    by (rule at_counts [where n = Phase1 and a = DNS and k = 100 and i = 3]) simp_all
  then have "speed_reach t (run_at t (Poll Phase1) 1 0 (zero, zero, zero) (?f3, zero, zero) Map.empty (301, 0, 0) 0)"
    by (rule at_store [where n = Phase1 and i = 0 and v = 0]) simp_all
  then show ?thesis
    by (rule at_counts [where n = Phase1 and a = FTP and k = 99 and i = 0]) (simp_all add: z [simplified])
qed

text \<open>Nothing is left that could raise the counter.\<close>

definition stuck :: "speed \<Rightarrow> bool" where
  "stuck s \<longleftrightarrow> place s = Poll Phase1 \<and> mCount s < THRESHOLD \<and> rounds s = (\<lambda>_. zero) \<and> flying s = (\<lambda>_. zero)
     \<and> held s = (\<lambda>_ _. None)"

lemma stuck_step: "speed_step s u \<Longrightarrow> stuck s \<Longrightarrow> stuck u"
  by (induction rule: speed_step.induct) (auto simp: stuck_def counter_def)

lemma stuck_forever: "speed_step\<^sup>*\<^sup>* s u \<Longrightarrow> stuck s \<Longrightarrow> stuck u"
  by (induction rule: rtranclp_induct) (auto intro: stuck_step)

section \<open>Properties\<close>

text \<open>What is printed is the time that has passed only when it begins and ends in the same second;
  otherwise it is too small by the seconds, and can be negative.\<close>

theorem micros_elapsed:
  assumes "valid_time s" "valid_time e"
  shows "sint (micros s e) = usecs e - usecs s - 1000000 * (tv_sec e - tv_sec s)"
proof -
  have "tv_usec e - tv_usec s < 2 ^ 31" "- (2 ^ 31) \<le> tv_usec e - tv_usec s"
    using assms by (simp_all add: valid_time_def)
  then have "sint (word_of_int (tv_usec e - tv_usec s) :: i32) = tv_usec e - tv_usec s"
    by (simp add: signed_of_int signed_take_bit_int_eq_self del: of_int_diff)
  then show ?thesis by (simp add: micros_def usecs_def)
qed

text \<open>C22: When \<open>main\<close> ends, at least 390 texts of each of the first two measurements have been taken
  and counted; but it can end with none of the third taken, because a thread that has loaded \<open>mCounter\<close> for
  a text of the first stores behind its reset; and it can poll for ever, although nothing was lost and all 400
  texts of the first measurement have been taken and counted, because one of the stores came late.\<close>

theorem sm_texts:
  "(\<forall>s. speed_reach t s \<and> place s = Over \<longrightarrow> 390 \<le> counted s Phase1 \<and> 390 \<le> counted s Phase2)
   \<and> (\<exists>s. speed_reach t s \<and> place s = Over \<and> counted s Phase3 = 0)
   \<and> (\<exists>s. speed_reach t s \<and> counted s Phase1 = 400 \<and> (\<forall>u. speed_step\<^sup>*\<^sup>* s u \<longrightarrow> place u = Poll Phase1))"
proof (intro conjI allI impI)
  fix s assume s: "speed_reach t s \<and> place s = Over"
  then have "speed_inv s" using speed_reach_inv by blast
  with s show "390 \<le> counted s Phase1" "390 \<le> counted s Phase2" by (auto simp: speed_inv_def)
next
  let ?s = "run_at t Over 400 400 (zero, zero, zero) (zero, zero, full) Map.empty (400, 400, 0) 3"
  have "place ?s = Over" "counted ?s Phase3 = 0" by (simp_all add: run_at_def)
  then show "\<exists>s. speed_reach t s \<and> place s = Over \<and> counted s Phase3 = 0" using late_store [of t] by blast
next
  let ?s = "run_at t (Poll Phase1) 100 0 (zero, zero, zero) (zero, zero, zero) Map.empty (400, 0, 0) 0"
  have "stuck ?s" by (auto simp: stuck_def run_at_def THRESHOLD_def fun_eq_iff split: phase.split)
  then have "\<forall>u. speed_step\<^sup>*\<^sup>* ?s u \<longrightarrow> place u = Poll Phase1" using stuck_forever by (auto simp: stuck_def)
  moreover have "counted ?s Phase1 = 400" by (simp add: run_at_def)
  ultimately show "\<exists>s. speed_reach t s \<and> counted s Phase1 = 400 \<and> (\<forall>u. speed_step\<^sup>*\<^sup>* s u \<longrightarrow> place u = Poll Phase1)"
    using lost_store [of t] by blast
qed

theorem sm_texts_witness:
  "\<exists>s. speed_reach \<lparr>tv_sec = 0, tv_usec = 0\<rparr> s \<and> place s = Over \<and> 390 \<le> counted s Phase1
     \<and> 390 \<le> counted s Phase2 \<and> counted s Phase3 = 0"
  using sm_texts [of "\<lparr>tv_sec = 0, tv_usec = 0\<rparr>"] by blast

end
