(* ===== verification/PipeLocks.thy ===== *)
theory PipeLocks
  imports Runs
begin

text \<open>
  The threads of \<open>PerProtocol.h\<close> with the mutexes around the pipes and with pipes of bounded
  capacity. The thread of a pipe unlocks the pipe's mutex (the first time without ever having locked
  it), reads a unit, locks the mutex again and keeps it while it works on the message, then locks the
  mutex of the next pipe, writes, and unlocks it; callers of \<open>msg_send\<close> and the thread on the
  receiving socket write in the same way. Every one of these calls is a step. A mutex of the default
  kind is released by whoever unlocks it; \<open>write\<close> blocks while the pipe is full.
\<close>

section \<open>State and steps\<close>

text \<open>The thread that reads a pipe, and the threads that only write.\<close>

datatype tid = Reader pipe_id | Client nat

datatype tpc =
    Outside                        \<comment> \<open>a writer outside its call\<close>
  | AtUnlock                       \<comment> \<open>at the unlock before \<open>read\<close>\<close>
  | AtRead
  | AtLock pipe_unit               \<comment> \<open>at the lock behind \<open>read\<close>\<close>
  | AtTurn pipe_unit               \<comment> \<open>working on the message\<close>
  | AtSend pipe_id pipe_unit       \<comment> \<open>at the lock before \<open>write\<close>\<close>
  | AtWrite pipe_id pipe_unit
  | AtRelease pipe_id              \<comment> \<open>at the unlock behind \<open>write\<close>\<close>

record locked =
  base :: host
  mutex :: "pipe_id \<Rightarrow> tid option"
  tpc :: "tid \<Rightarrow> tpc"

definition locked_init :: "host \<Rightarrow> locked" where
  "locked_init s = \<lparr>base = s, mutex = (\<lambda>_. None),
     tpc = (\<lambda>t. case t of Reader p \<Rightarrow> AtUnlock | Client n \<Rightarrow> Outside)\<rparr>"

definition at_pc :: "tid \<Rightarrow> tpc \<Rightarrow> locked \<Rightarrow> locked" where
  "at_pc t l s = s\<lparr>tpc := (tpc s)(t := l)\<rparr>"

definition set_mutex :: "pipe_id \<Rightarrow> tid option \<Rightarrow> locked \<Rightarrow> locked" where
  "set_mutex p x s = s\<lparr>mutex := (mutex s)(p := x)\<rparr>"

definition set_pipe :: "pipe_id \<Rightarrow> pipe_unit list \<Rightarrow> locked \<Rightarrow> locked" where
  "set_pipe p us s = s\<lparr>base := (base s)\<lparr>pipe := (pipe (base s))(p := us)\<rparr>\<rparr>"

text \<open>The write of a turn, taken out of it: the state without it, and where it goes.\<close>

definition take_out :: "host \<Rightarrow> host \<Rightarrow> host \<times> tpc option" where
  "take_out s t = (t\<lparr>pipe := pipe s\<rparr>, case find (\<lambda>q. pipe t q \<noteq> pipe s q) enum_class.enum of
       None \<Rightarrow> None | Some q \<Rightarrow> Some (AtSend q (last (pipe t q))))"

text \<open>One step of a thread, for pipes that hold \<open>cap\<close> units; \<open>None\<close>: it blocks (or is outside).\<close>

definition thread_step :: "link \<Rightarrow> nat \<Rightarrow> tid \<Rightarrow> locked \<Rightarrow> locked res option" where
  "thread_step c cap t s = (case (tpc s t, t) of
       (AtUnlock, Reader p) \<Rightarrow> Some (Inr (at_pc t AtRead (set_mutex p None s)))
     | (AtRead, Reader p) \<Rightarrow> (case pipe (base s) p of
           [] \<Rightarrow> None
         | u # us \<Rightarrow> Some (Inr (at_pc t (AtLock u) (set_pipe p us s))))
     | (AtLock u, Reader p) \<Rightarrow>
         if mutex s p = None then Some (Inr (at_pc t (AtTurn u) (set_mutex p (Some t) s))) else None
     | (AtTurn u, Reader p) \<Rightarrow> Some (rbind (thread c p u (base s)) (\<lambda>h.
         case take_out (base s) h of (h, out) \<Rightarrow>
           Inr (at_pc t (case out of None \<Rightarrow> AtUnlock | Some l \<Rightarrow> l) (s\<lparr>base := h\<rparr>))))
     | (AtSend q u, _) \<Rightarrow>
         if mutex s q = None then Some (Inr (at_pc t (AtWrite q u) (set_mutex q (Some t) s))) else None
     | (AtWrite q u, _) \<Rightarrow>
         if length (pipe (base s) q) < cap
         then Some (Inr (at_pc t (AtRelease q) (set_pipe q (pipe (base s) q @ [u]) s))) else None
     | (AtRelease q, _) \<Rightarrow>
         Some (Inr (at_pc t (case t of Reader p \<Rightarrow> AtUnlock | Client n \<Rightarrow> Outside) (set_mutex q None s)))
     | _ \<Rightarrow> None)"

text \<open>A writer's call begins with the input of the host (a message submitted, a datagram received),
  again without its write.\<close>

inductive pl_step :: "link \<Rightarrow> nat \<Rightarrow> nat \<Rightarrow> locked \<Rightarrow> label option \<Rightarrow> locked res \<Rightarrow> bool" for c cap n where
  thread: "t \<in> range Reader \<union> Client ` {..<n} \<Longrightarrow> thread_step c cap t s = Some r \<Longrightarrow> pl_step c cap n s None r"
| enter: "i < n \<Longrightarrow> tpc s (Client i) = Outside \<Longrightarrow> is_input l \<Longrightarrow> host_step c (base s) l (Inr h) \<Longrightarrow>
    take_out (base s) h = (h', out) \<Longrightarrow>
    pl_step c cap n s (Some l) (Inr (at_pc (Client i) (case out of None \<Rightarrow> Outside | Some l \<Rightarrow> l) (s\<lparr>base := h'\<rparr>)))"
| enter_fault: "i < n \<Longrightarrow> tpc s (Client i) = Outside \<Longrightarrow> is_input l \<Longrightarrow> host_step c (base s) l (Inl e) \<Longrightarrow>
    pl_step c cap n s (Some l) (Inl e)"

lemmas pl_defs = at_pc_def set_mutex_def set_pipe_def

section \<open>The pipes as the turns see them\<close>

text \<open>A unit that was read and not yet worked on counts as the first of its pipe, one that waits to be
  written as one of the last.\<close>

definition threads_list :: "nat \<Rightarrow> tid list" where
  "threads_list n = map Reader enum_class.enum @ map Client [0..<n]"

fun holding_unit :: "tpc \<Rightarrow> pipe_unit list" where
  "holding_unit (AtLock u) = [u]" | "holding_unit (AtTurn u) = [u]" | "holding_unit l = []"

fun writing :: "pipe_id \<Rightarrow> tpc \<Rightarrow> pipe_unit list" where
  "writing p (AtSend q u) = (if q = p then [u] else [])"
| "writing p (AtWrite q u) = (if q = p then [u] else [])"
| "writing p l = []"

definition abs_pipe :: "nat \<Rightarrow> locked \<Rightarrow> pipe_id \<Rightarrow> pipe_unit list" where
  "abs_pipe n s p = holding_unit (tpc s (Reader p)) @ pipe (base s) p
     @ concat (map (\<lambda>t. writing p (tpc s t)) (threads_list n))"

definition abs_host :: "nat \<Rightarrow> locked \<Rightarrow> host" where
  "abs_host n s = (base s)\<lparr>pipe := abs_pipe n s\<rparr>"

text \<open>Two hosts that differ in the order of units within a pipe only.\<close>

definition same_units :: "host \<Rightarrow> host \<Rightarrow> bool" where
  "same_units s t \<longleftrightarrow> s\<lparr>pipe := pipe t\<rparr> = t \<and> (\<forall>p. mset (pipe s p) = mset (pipe t p))"

lemma same_units_refl [simp]: "same_units s s"
  by (simp add: same_units_def)

lemma same_unitsD:
  assumes "same_units s t"
  shows "host_inv k s = host_inv k t" "account c s = account c t" "turns s = turns t" "quiet s = quiet t"
proof -
  have t: "t = s\<lparr>pipe := pipe t\<rparr>" and m: "\<And>p. mset (pipe s p) = mset (pipe t p)"
    using assms by (simp_all add: same_units_def)
  have f: "heap t = heap s" "objs t = objs s" "nobj t = nobj s" "mCounter t = mCounter s" "outcomes t = outcomes s"
    by (subst t, simp)+
  have u: "units t = units s" by (simp add: units_def m)
  have "unit_ok t = unit_ok s" "unit_fate c t = unit_fate c s" by (rule unit_cong; simp add: f)+
  then show "host_inv k s = host_inv k t" "account c s = account c t" "turns s = turns t"
    by (simp_all add: host_inv_def account_def turns_def u f)
  have "pipe s p = [] \<longleftrightarrow> pipe t p = []" for p using m [of p] by (metis mset_zero_iff_right mset.simps(1))
  then show "quiet s = quiet t" by (simp add: quiet_def)
qed

section \<open>Turns do not look into the pipes\<close>

text \<open>The result of a turn on a host with other pipes: the same, appended to the other pipes.\<close>

definition repipe :: "host \<Rightarrow> (pipe_id \<Rightarrow> pipe_unit list) \<Rightarrow> host \<Rightarrow> host" where
  "repipe s f t = t\<lparr>pipe := (\<lambda>q. f q @ drop (length (pipe s q)) (pipe t q))\<rparr>"

lemma repipe_write [simp]:
  "pipe t = pipe s \<Longrightarrow> repipe s f (write_pipe q i m t) = write_pipe q i m (t\<lparr>pipe := f\<rparr>)"
  by (auto simp: repipe_def write_pipe_def fun_eq_iff)

lemma repipe_same [simp]: "pipe t = pipe s \<Longrightarrow> repipe s f t = t\<lparr>pipe := f\<rparr>"
  by (simp add: repipe_def)

lemma set_msg_pipe [simp]:
  "set_msg i m h (s\<lparr>pipe := f\<rparr>) = (set_msg i m h s)\<lparr>pipe := f\<rparr>"
  "set_msg i m h (s\<lparr>pipe := f, diags := d\<rparr>) = (set_msg i m h (s\<lparr>diags := d\<rparr>))\<lparr>pipe := f\<rparr>"
  "set_msg i m h (s\<lparr>pipe := f, sent := x\<rparr>) = (set_msg i m h (s\<lparr>sent := x\<rparr>))\<lparr>pipe := f\<rparr>"
  "deref_msg (s\<lparr>pipe := f\<rparr>) i = deref_msg s i"
  by (simp_all add: set_msg_def deref_msg_def)

lemmas turn_defs = FTP_send_def tel_send_def RDP_send_def DNS_send_def TCP_send_def UDP_send_def IP_send_def
  eth_send_def eth_recv_def IP_recv_def TCP_recv_def UDP_recv_def FTP_recv_def tel_recv_def RDP_recv_def
  DNS_recv_def app_recv_def

lemma thread_repipe:
  "thread c p u (s\<lparr>pipe := f\<rparr>) = rbind (thread c p u s) (\<lambda>t. Inr (repipe s f t))"
  by (cases p) (auto simp: turn_defs Let_def rbind_assoc split: prod.splits intro!: rbind_cong_right)

text \<open>What a turn or an input writes: nothing, or one unit at the end of one pipe.\<close>

definition writes :: "host \<Rightarrow> host \<Rightarrow> (pipe_id \<times> pipe_unit) option \<Rightarrow> bool" where
  "writes s t w \<longleftrightarrow> (case w of None \<Rightarrow> pipe t = pipe s
     | Some (q, v) \<Rightarrow> pipe t = (pipe s)(q := pipe s q @ [v]))"

definition writes_below :: "nat \<Rightarrow> host \<Rightarrow> host \<Rightarrow> bool" where
  "writes_below l s t \<longleftrightarrow> (\<exists>w. writes s t w \<and> (\<forall>q v. w = Some (q, v) \<longrightarrow> level q < l))"

lemma writes_belowI:
  "pipe t = pipe s \<Longrightarrow> writes_below l s t"
  "level q < l \<Longrightarrow> pipe s' = pipe s \<Longrightarrow> writes_below l s (write_pipe q i m s')"
proof -
  show "writes_below l s t" if "pipe t = pipe s"
    unfolding writes_below_def using that by (intro exI [of _ None]) (simp add: writes_def)
  show "writes_below l s (write_pipe q i m s')" if "level q < l" "pipe s' = pipe s"
    unfolding writes_below_def using that
    by (intro exI [of _ "Some (q, \<lparr>protocol_id = i, msg = m\<rparr>)"]) (simp add: writes_def write_pipe_def)
qed

lemma thread_writes: "thread c p u s = Inr t \<Longrightarrow> writes_below (level p) s t"
  by (cases p) (auto simp: turn_defs Let_def res_simps alloc_put intro!: writes_belowI(2) intro: writes_belowI(1) split: if_splits)

lemma input_writes:
  assumes "host_step c s l (Inr t)" "is_input l"
  shows "writes_below 5 s t"
  using assms(1)
proof (cases rule: host_step.cases)
  case (arrive dg)
  then have "msg_recv dg s = Inr t" by simp
  then show ?thesis
    by (auto simp: msg_recv_def Let_def res_simps alloc_put new_Message_def intro!: writes_belowI(2))
next
  case (submit p n m s' i)
  then show ?thesis by (auto simp: msg_send_def new_Message_def intro!: writes_belowI(2) intro: writes_belowI(1))
qed (use assms(2) in simp)

lemma input_repipe:
  assumes "host_step c s l r" "is_input l"
  shows "host_step c (s\<lparr>pipe := f\<rparr>) l (map_sum id (repipe s f) r)"
  using assms(1)
proof (cases rule: host_step.cases)
  case (arrive dg)
  have "msg_recv dg (s\<lparr>pipe := f\<rparr>) = rbind (msg_recv dg s) (\<lambda>t. Inr (repipe s f t))"
    by (auto simp: msg_recv_def Let_def rbind_assoc new_Message_def split: prod.splits intro!: rbind_cong_right)
      (simp add: write_pipe_def)
  then have "msg_recv dg (s\<lparr>pipe := f\<rparr>) = map_sum id (repipe s f) r"
    unfolding arrive(2) by (cases "msg_recv dg s") simp_all
  then show ?thesis using host_step.arrive [of c "s\<lparr>pipe := f\<rparr>" dg] arrive by simp
next
  case (submit p n m s' i)
  have new: "new_Message p (word_of_nat n) (s\<lparr>pipe := f\<rparr>) = (m, s'\<lparr>pipe := f\<rparr>)" and s': "pipe s' = pipe s"
    using submit by (auto simp: new_Message_def)
  have "msg_send m i (s'\<lparr>pipe := f\<rparr>) = repipe s f (msg_send m i s')"
    using s' by (simp add: msg_send_def)
  then show ?thesis
    using host_step.submit [of "s\<lparr>pipe := f\<rparr>" p n m "s'\<lparr>pipe := f\<rparr>" c i] submit new by simp
qed (use assms(2) in simp)

lemma repipe_writes:
  "writes s t w \<Longrightarrow> repipe s f t = t\<lparr>pipe := (case w of None \<Rightarrow> f | Some (q, v) \<Rightarrow> f(q := f q @ [v]))\<rparr>"
  by (auto simp: writes_def repipe_def fun_eq_iff split: option.splits)

lemma take_out_writes:
  assumes "writes s t w"
  shows "take_out s t = (t\<lparr>pipe := pipe s\<rparr>, map_option (\<lambda>(q, v). AtSend q v) w)"
proof (cases w)
  case None
  then have "find (\<lambda>q. pipe t q \<noteq> pipe s q) enum_class.enum = None"
    using assms by (simp add: writes_def find_None_iff)
  then show ?thesis by (simp add: take_out_def None)
next
  case (Some x)
  obtain q v where x: "x = (q, v)" by (cases x)
  then have t: "pipe t = (pipe s)(q := pipe s q @ [v])" using assms Some by (simp add: writes_def)
  have "find (\<lambda>q. pipe t q \<noteq> pipe s q) enum_class.enum = Some q"
  proof (cases "find (\<lambda>q. pipe t q \<noteq> pipe s q) enum_class.enum")
    case None
    then have "q \<notin> set (enum_class.enum :: pipe_id list)" by (auto simp: find_None_iff t)
    then show ?thesis using UNIV_enum by auto
  next
    case (Some r)
    then have "pipe t r \<noteq> pipe s r" by (auto simp: find_Some_iff)
    with Some show ?thesis by (auto simp: t split: if_splits)
  qed
  then show ?thesis by (simp add: take_out_def Some x t)
qed

section \<open>Every step is a turn, an input, or nothing\<close>

lemma set_threads_list: "set (threads_list n) = range Reader \<union> Client ` {..<n}"
  by (auto simp: threads_list_def UNIV_enum [symmetric])

lemma distinct_threads_list: "distinct (threads_list n)"
  by (auto simp: threads_list_def distinct_map enum_distinct inj_on_def)

lemma concat_upd:
  "t \<in> set xs \<Longrightarrow> distinct xs \<Longrightarrow>
     mset (concat (map (\<lambda>x. g ((f(t := l)) x)) xs)) + mset (g (f t))
     = mset (concat (map (\<lambda>x. g (f x)) xs)) + mset (g l)"
proof (induction xs)
  case (Cons x xs)
  show ?case
  proof (cases "x = t")
    case True
    then have "concat (map (\<lambda>x. g ((f(t := l)) x)) xs) = concat (map (\<lambda>x. g (f x)) xs)"
      using Cons.prems by (intro arg_cong [of _ _ concat] map_cong) auto
    then show ?thesis using True by (simp del: fun_upd_apply add: fun_upd_same)
  next
    case False
    then have "mset (concat (map (\<lambda>x. g ((f(t := l)) x)) xs)) + mset (g (f t))
     = mset (concat (map (\<lambda>x. g (f x)) xs)) + mset (g l)" using Cons by simp
    then show ?thesis using False by simp
  qed
qed simp

definition share :: "pipe_id \<Rightarrow> tid \<Rightarrow> tpc \<Rightarrow> pipe_unit multiset" where
  "share p t l = (if t = Reader p then mset (holding_unit l) else {#}) + mset (writing p l)"

lemma abs_change:
  assumes "t \<in> set (threads_list n)" "tpc s' = (tpc s)(t := l)"
  shows "mset (abs_pipe n s' p) + share p t (tpc s t) + mset (pipe (base s) p)
    = mset (abs_pipe n s p) + share p t l + mset (pipe (base s') p)"
proof -
  have "mset (concat (map (\<lambda>x. writing p (tpc s' x)) (threads_list n))) + mset (writing p (tpc s t))
     = mset (concat (map (\<lambda>x. writing p (tpc s x)) (threads_list n))) + mset (writing p l)"
    unfolding assms(2) by (rule concat_upd [OF assms(1) distinct_threads_list])
  then show ?thesis
    by (cases "t = Reader p") (simp_all add: abs_pipe_def share_def assms(2) ac_simps)
qed

text \<open>A step that leaves the rest of the host alone and moves no unit out of a pipe's reach.\<close>

lemma same_unitsI:
  assumes "t \<in> set (threads_list n)" "tpc s' = (tpc s)(t := l)" "(base s)\<lparr>pipe := f\<rparr> = (base s')\<lparr>pipe := f\<rparr>"
    and "\<And>p. share p t (tpc s t) + mset (pipe (base s) p) = share p t l + mset (pipe (base s') p)"
  shows "same_units (abs_host n s) (abs_host n s')"
proof -
  have "mset (abs_pipe n s p) = mset (abs_pipe n s' p)" for p
    using abs_change [OF assms(1,2), of p] assms(4) [of p] by (simp add: add.assoc)
  moreover have "(base s)\<lparr>pipe := g\<rparr> = (base s')\<lparr>pipe := g\<rparr>" for g
    using arg_cong [OF assms(3), of "\<lambda>s. s\<lparr>pipe := g\<rparr>"] by simp
  ultimately show ?thesis by (simp add: same_units_def abs_host_def)
qed

text \<open>A turn or an input on the host without its write, which the thread still has to do.\<close>

lemma same_units_out:
  assumes "t \<in> set (threads_list n)" "writes (base s) h w" "rest \<in> {AtUnlock, Outside}"
    and "tpc s' = (tpc s)(t := case w of None \<Rightarrow> rest | Some (q, v) \<Rightarrow> AtSend q v)"
    and "base s' = h\<lparr>pipe := pipe (base s)\<rparr>"
    and f: "\<And>p. mset (f p) + share p t (tpc s t) = mset (abs_pipe n s p)"
  shows "same_units (repipe (base s) f h) (abs_host n s')"
proof -
  have "mset (pipe (repipe (base s) f h) p) = mset (abs_pipe n s' p)" for p
    using abs_change [OF assms(1,4), of p] assms(3) f [of p, symmetric]
    by (auto simp: repipe_writes [OF assms(2)] assms(5) share_def ac_simps split: option.splits)
  then show ?thesis
    by (simp add: same_units_def abs_host_def repipe_def assms(5))
qed

lemma step_reader_turn:
  assumes pc: "tpc s (Reader p) = AtTurn u"
    and step: "thread_step c cap (Reader p) s = Some r"
  shows "\<exists>r'. host_step c (abs_host n s) (Work p) r' \<and> rel_sum (=) same_units r' (map_sum id (abs_host n) r)"
proof -
  define us where "us = tl (abs_pipe n s p)"
  have us: "abs_pipe n s p = u # us" by (simp add: abs_pipe_def pc us_def)
  let ?f = "(abs_pipe n s)(p := us)"
  have work: "host_step c (abs_host n s) (Work p) (thread c p u ((base s)\<lparr>pipe := ?f\<rparr>))"
    using host_step.work [of "abs_host n s" p u us c] us by (simp add: abs_host_def)
  show ?thesis
  proof (cases "thread c p u (base s)")
    case (Inl e)
    with work step pc show ?thesis
      by (intro exI [of _ "Inl e"]) (auto simp: thread_step_def thread_repipe)
  next
    case (Inr h)
    then obtain w where w: "writes (base s) h w"
      using thread_writes [of c p u "base s" h] by (auto simp: writes_below_def)
    let ?l = "case w of None \<Rightarrow> AtUnlock | Some (q, v) \<Rightarrow> AtSend q v"
    have r: "r = Inr (at_pc (Reader p) ?l (s\<lparr>base := h\<lparr>pipe := pipe (base s)\<rparr>\<rparr>))"
      using step pc Inr take_out_writes [OF w] by (auto simp: thread_step_def split: option.splits)
    have "mset (?f q) + share q (Reader p) (tpc s (Reader p)) = mset (abs_pipe n s q)" for q
      by (cases "q = p") (simp_all add: share_def pc us)
    then have "same_units (repipe (base s) ?f h) (abs_host n (at_pc (Reader p) ?l (s\<lparr>base := h\<lparr>pipe := pipe (base s)\<rparr>\<rparr>)))"
      by (intro same_units_out [OF _ w, of "Reader p" n AtUnlock]) (simp_all add: set_threads_list pl_defs)
    then show ?thesis using work unfolding thread_repipe Inr r
      by (intro exI [of _ "Inr (repipe (base s) ?f h)"]) simp
  qed
qed

lemma step_reader_other:
  assumes step: "thread_step c cap t s = Some r" and t: "t \<in> set (threads_list n)"
    and pc: "\<And>u. tpc s t \<noteq> AtTurn u"
  shows "\<exists>s'. r = Inr s' \<and> same_units (abs_host n s) (abs_host n s')"
proof -
  have "\<exists>s'. r = Inr s' \<and> tpc s' = (tpc s)(t := tpc s' t) \<and> (\<forall>f. (base s)\<lparr>pipe := f\<rparr> = (base s')\<lparr>pipe := f\<rparr>)
      \<and> (\<forall>p. share p t (tpc s t) + mset (pipe (base s) p) = share p t (tpc s' t) + mset (pipe (base s') p))"
    using step pc unfolding thread_step_def
    by (auto simp: pl_defs share_def split: tpc.splits tid.splits list.splits if_splits)
  then obtain s' where "r = Inr s'" "same_units (abs_host n s) (abs_host n s')"
    using same_unitsI [OF t] by blast
  then show ?thesis by blast
qed

lemma pl_sim:
  assumes "pl_step c cap n s l r"
  shows "(l = None \<and> (\<exists>s'. r = Inr s' \<and> same_units (abs_host n s) (abs_host n s')))
    \<or> (\<exists>k r'. host_step c (abs_host n s) k r' \<and> (case l of None \<Rightarrow> k \<in> range Work | Some i \<Rightarrow> k = i)
        \<and> rel_sum (=) same_units r' (map_sum id (abs_host n) r))"
  using assms
proof cases
  case (thread t)
  then have t: "t \<in> set (threads_list n)" by (simp add: set_threads_list)
  show ?thesis
  proof (cases "\<exists>u. tpc s t = AtTurn u")
    case True
    then obtain u p where "tpc s t = AtTurn u" "t = Reader p"
      using thread(3) by (cases t) (auto simp: thread_step_def)
    with step_reader_turn [of s p u c cap r n] thread obtain r' where
      "host_step c (abs_host n s) (Work p) r'" "rel_sum (=) same_units r' (map_sum id (abs_host n) r)" by blast
    then show ?thesis using thread(1) by (intro disjI2 exI [of _ "Work p"] exI [of _ r']) simp
  qed (use step_reader_other [OF thread(3) t] thread in auto)
next
  case (enter i k h h' out)
  obtain w where w: "writes (base s) h w" using input_writes [OF enter(6,5)] by (auto simp: writes_below_def)
  let ?l = "case w of None \<Rightarrow> Outside | Some (q, v) \<Rightarrow> AtSend q v"
  have r: "r = Inr (at_pc (Client i) ?l (s\<lparr>base := h\<lparr>pipe := pipe (base s)\<rparr>\<rparr>))"
    using enter(2,7) take_out_writes [OF w] by (auto split: option.splits)
  have "same_units (repipe (base s) (abs_pipe n s) h) (abs_host n (at_pc (Client i) ?l (s\<lparr>base := h\<lparr>pipe := pipe (base s)\<rparr>\<rparr>)))"
    using enter(3,4) by (intro same_units_out [OF _ w, of "Client i" n Outside])
      (simp_all add: set_threads_list pl_defs share_def)
  moreover have "host_step c (abs_host n s) k (Inr (repipe (base s) (abs_pipe n s) h))"
    using input_repipe [OF enter(6,5), of "abs_pipe n s"] by (simp add: abs_host_def)
  ultimately show ?thesis using enter(1) unfolding r
    by (intro disjI2 exI [of _ k] exI [of _ "Inr (repipe (base s) (abs_pipe n s) h)"]) simp
next
  case (enter_fault i k e)
  then show ?thesis using input_repipe [OF enter_fault(6,5), of "abs_pipe n s"]
    by (intro disjI2 exI [of _ k] exI [of _ "Inl e"]) (simp add: abs_host_def)
qed

end
