(* ===== verification/PipeProgress.thy ===== *)
theory PipeProgress
  imports PipeLocks
begin

text \<open>
  Runs of the threads of \<open>PerProtocol.h\<close> with their mutexes and pipes of bounded capacity: the
  account of the units, who holds a mutex, how long the threads work without input and where they
  stop, and the runs in which a mutex does not exclude or a full pipe stops the host for good.
\<close>

section \<open>Runs and their account\<close>

fun labels :: "label option \<Rightarrow> label list" where
  "labels None = []" | "labels (Some l) = [l]"

inductive pl_run :: "link \<Rightarrow> nat \<Rightarrow> nat \<Rightarrow> locked \<Rightarrow> label list \<Rightarrow> locked res \<Rightarrow> bool" for c cap n where
  stop: "pl_run c cap n s [] (Inr s)"
| fault: "pl_step c cap n s l (Inl e) \<Longrightarrow> pl_run c cap n s (labels l) (Inl e)"
| step: "pl_step c cap n s l (Inr t) \<Longrightarrow> pl_run c cap n t ls r \<Longrightarrow> pl_run c cap n s (labels l @ ls) r"

lemma inputs_append [simp]:
  "inputs (ks @ ls) = inputs ks + inputs ls" "inputs_fate c (ks @ ls) = inputs_fate c ks + inputs_fate c ls"
  by (simp_all add: inputs_def inputs_fate_def)

lemma pl_step_account:
  assumes "pl_step c cap n s l r" "host_inv (k + inputs (labels l)) (abs_host n s)" "list_all proper (labels l)"
  shows "case r of Inl e \<Rightarrow> Inl e \<in># account c (abs_host n s)
    | Inr t \<Rightarrow> host_inv k (abs_host n t) \<and> account c (abs_host n t) = account c (abs_host n s) + inputs_fate c (labels l)"
  using pl_sim [OF assms(1)]
proof (elim disjE exE conjE)
  fix s' assume "l = None" "r = Inr s'" "same_units (abs_host n s) (abs_host n s')"
  then show ?thesis using same_unitsD(1,2) [of "abs_host n s" "abs_host n s'"] assms(2) by simp
next
  fix i r' assume i: "host_step c (abs_host n s) i r'" "case l of None \<Rightarrow> i \<in> range Work | Some j \<Rightarrow> i = j"
    and r': "rel_sum (=) same_units r' (map_sum id (abs_host n) r)"
  have inv: "host_inv (if is_input i then Suc k else k) (abs_host n s)" and p: "proper i"
    and f: "inputs_fate c (labels l) = input_fate c i"
    using assms(2,3) i(2) by (cases l; auto split: if_splits)+
  show ?thesis
  proof (cases r)
    case (Inl e)
    then have "r' = Inl e" using r' by (cases r') auto
    then show ?thesis using host_step_inv(1) [OF inv i(1) p] Inl by simp
  next
    case (Inr t)
    then obtain h where "r' = Inr h" "same_units h (abs_host n t)" using r' by (cases r') auto
    then show ?thesis using host_step_inv(2) [OF inv i(1) p] same_unitsD(1,2) [of h "abs_host n t"] f Inr by simp
  qed
qed

lemma pl_run_account:
  assumes "pl_run c cap n s ls r" "host_inv (k + inputs ls) (abs_host n s)" "list_all proper ls"
  shows "case r of Inl e \<Rightarrow> Inl e \<in># account c (abs_host n s) + inputs_fate c ls
    | Inr t \<Rightarrow> host_inv k (abs_host n t) \<and> account c (abs_host n t) = account c (abs_host n s) + inputs_fate c ls"
  using assms
proof (induction arbitrary: k rule: pl_run.induct)
  case (fault s l e)
  then show ?case using pl_step_account [OF fault(1), of k] by simp
next
  case (step s l t ls r)
  have inv: "host_inv (k + inputs ls) (abs_host n t)"
    "account c (abs_host n t) = account c (abs_host n s) + inputs_fate c (labels l)"
    using pl_step_account [OF step(1), of "k + inputs ls"] step.prems by (simp_all add: add.assoc add.commute add.left_commute)
  then show ?case using step.IH [of k] step.prems by (simp add: add.assoc split: sum.splits)
qed simp

section \<open>Who holds a mutex\<close>

text \<open>Where a thread may be, and where it is while a mutex it locked is locked.\<close>

fun pc_ok :: "tid \<Rightarrow> tpc \<Rightarrow> bool" where
  "pc_ok (Reader p) Outside = False"
| "pc_ok (Reader p) (AtSend q u) = (level q < level p)"
| "pc_ok (Reader p) (AtWrite q u) = (level q < level p)"
| "pc_ok (Reader p) (AtRelease q) = (level q < level p)"
| "pc_ok (Reader p) l = True"
| "pc_ok (Client i) l = (case l of Outside \<Rightarrow> True | AtSend q u \<Rightarrow> True | AtWrite q u \<Rightarrow> True | AtRelease q \<Rightarrow> True | _ \<Rightarrow> False)"

fun owns :: "tid \<Rightarrow> pipe_id \<Rightarrow> tpc \<Rightarrow> bool" where
  "owns t p (AtWrite q u) = (q = p \<or> t = Reader p)"
| "owns t p (AtRelease q) = (q = p \<or> t = Reader p)"
| "owns t p (AtTurn u) = (t = Reader p)"
| "owns t p (AtSend q u) = (t = Reader p)"
| "owns t p AtUnlock = (t = Reader p)"
| "owns t p l = False"

definition locks_ok :: "nat \<Rightarrow> locked \<Rightarrow> bool" where
  "locks_ok n s \<longleftrightarrow> (\<forall>t. pc_ok t (tpc s t))
     \<and> (\<forall>p t. mutex s p = Some t \<longrightarrow> t \<in> set (threads_list n) \<and> owns t p (tpc s t))"

text \<open>Every thread that is between its lock and its unlock of the mutex of a pipe does hold it. (Before its
  first unlock the reader is there without having locked.)\<close>

definition exclusive :: "pipe_id \<Rightarrow> locked \<Rightarrow> bool" where
  "exclusive p s \<longleftrightarrow> (\<forall>t. owns t p (tpc s t) \<longrightarrow> mutex s p = Some t)"

lemma at_turn:
  assumes "tpc s t = AtTurn u" "thread_step c cap t s = Some (Inr s')"
  obtains p h w where "t = Reader p" "thread c p u (base s) = Inr h" "writes (base s) h w"
    "\<And>q v. w = Some (q, v) \<Longrightarrow> level q < level p"
    "s' = at_pc t (case w of None \<Rightarrow> AtUnlock | Some (q, v) \<Rightarrow> AtSend q v) (s\<lparr>base := h\<lparr>pipe := pipe (base s)\<rparr>\<rparr>)"
proof -
  obtain p where p: "t = Reader p" using assms by (cases t) (auto simp: thread_step_def)
  obtain h where h: "thread c p u (base s) = Inr h"
    using assms p by (cases "thread c p u (base s)") (auto simp: thread_step_def)
  then obtain w where w: "writes (base s) h w" "\<And>q v. w = Some (q, v) \<Longrightarrow> level q < level p"
    using thread_writes [OF h] by (auto simp: writes_below_def)
  show thesis
    using assms p h take_out_writes [OF w(1)] by (intro that [OF p h w]) (auto simp: thread_step_def split: option.splits)
qed

lemma enter_step:
  assumes "host_step c (base s) l (Inr h)" "is_input l" "take_out (base s) h = (h', out)"
  obtains w where "writes (base s) h w" "h' = h\<lparr>pipe := pipe (base s)\<rparr>" "out = map_option (\<lambda>(q, v). AtSend q v) w"
  using input_writes [OF assms(1,2)] take_out_writes assms(3) that by (fastforce simp: writes_below_def)

text \<open>A step of one thread changes its own place, and gives or takes mutexes only for itself.\<close>

lemma locks_ok_upd:
  assumes "locks_ok n s" "t \<in> set (threads_list n)" "tpc s' = (tpc s)(t := l)" "pc_ok t l"
    and "\<And>p. mutex s' p = Some t \<Longrightarrow> owns t p l"
    and "\<And>p t'. t' \<noteq> t \<Longrightarrow> mutex s' p = Some t' \<Longrightarrow> mutex s p = Some t'"
  shows "locks_ok n s'"
proof -
  have "t' \<in> set (threads_list n) \<and> owns t' p (tpc s' t')" if "mutex s' p = Some t'" for p t'
  proof (cases "t' = t")
    case True
    then show ?thesis using assms(2,3,5) that by simp
  next
    case False
    then have "mutex s p = Some t'" using assms(6) that by blast
    then show ?thesis using assms(1,3) False by (simp add: locks_ok_def)
  qed
  then show ?thesis using assms(1,3,4) by (simp add: locks_ok_def)
qed

lemma exclusive_upd:
  assumes "exclusive p s" "tpc s' = (tpc s)(t := l)" "owns t p l \<Longrightarrow> mutex s' p = Some t"
    and "\<And>t'. t' \<noteq> t \<Longrightarrow> mutex s p = Some t' \<Longrightarrow> mutex s' p = Some t'"
  shows "exclusive p s'"
  using assms unfolding exclusive_def by auto

lemma thread_step_locks:
  assumes "thread_step c cap t s = Some (Inr s')" "pc_ok t (tpc s t)" "tpc s' t = l"
  shows "tpc s' = (tpc s)(t := l)" "pc_ok t l"
    and "t' \<noteq> t \<Longrightarrow> mutex s' p = Some t' \<Longrightarrow> mutex s p = Some t'"
    and "mutex s' p = Some t \<Longrightarrow> (mutex s p = Some t \<longrightarrow> owns t p (tpc s t)) \<Longrightarrow> owns t p l"
    and "owns t p l \<Longrightarrow> (owns t p (tpc s t) \<longrightarrow> mutex s p = Some t) \<Longrightarrow> mutex s' p = Some t"
    and "(owns t p (tpc s t) \<longrightarrow> mutex s p = Some t) \<Longrightarrow> t' \<noteq> t \<Longrightarrow> mutex s p = Some t' \<Longrightarrow> mutex s' p = Some t'"
proof -
  have "tpc s' = (tpc s)(t := l) \<and> pc_ok t l
     \<and> (t' \<noteq> t \<longrightarrow> mutex s' p = Some t' \<longrightarrow> mutex s p = Some t')
     \<and> (mutex s' p = Some t \<longrightarrow> (mutex s p = Some t \<longrightarrow> owns t p (tpc s t)) \<longrightarrow> owns t p l)
     \<and> (owns t p l \<longrightarrow> (owns t p (tpc s t) \<longrightarrow> mutex s p = Some t) \<longrightarrow> mutex s' p = Some t)
     \<and> ((owns t p (tpc s t) \<longrightarrow> mutex s p = Some t) \<longrightarrow> t' \<noteq> t \<longrightarrow> mutex s p = Some t' \<longrightarrow> mutex s' p = Some t')"
  proof (cases "\<exists>u. tpc s t = AtTurn u")
    case True
    then obtain u where u: "tpc s t = AtTurn u" by auto
    show ?thesis
      by (rule at_turn [OF u assms(1)]) (use u assms(3) in \<open>auto simp: pl_defs split: option.splits\<close>)
  next
    case False
    then show ?thesis using assms unfolding thread_step_def
      by (cases t) (auto simp: pl_defs split: tpc.splits list.splits if_splits)
  qed
  then show "tpc s' = (tpc s)(t := l)" "pc_ok t l"
    and "t' \<noteq> t \<Longrightarrow> mutex s' p = Some t' \<Longrightarrow> mutex s p = Some t'"
    and "mutex s' p = Some t \<Longrightarrow> (mutex s p = Some t \<longrightarrow> owns t p (tpc s t)) \<Longrightarrow> owns t p l"
    and "owns t p l \<Longrightarrow> (owns t p (tpc s t) \<longrightarrow> mutex s p = Some t) \<Longrightarrow> mutex s' p = Some t"
    and "(owns t p (tpc s t) \<longrightarrow> mutex s p = Some t) \<Longrightarrow> t' \<noteq> t \<Longrightarrow> mutex s p = Some t' \<Longrightarrow> mutex s' p = Some t'"
    by blast+
qed

lemma locks_ok_step:
  assumes "locks_ok n s" "pl_step c cap n s l (Inr s')"
  shows "locks_ok n s'"
  using assms(2)
proof (cases rule: pl_step.cases)
  case (thread t)
  have t: "t \<in> set (threads_list n)" using thread by (simp add: set_threads_list)
  have pc: "pc_ok t (tpc s t)" and m: "mutex s p = Some t \<longrightarrow> owns t p (tpc s t)" for p
    using assms(1) by (simp_all add: locks_ok_def)
  note L = thread_step_locks [OF thread(3) pc refl]
  show ?thesis by (rule locks_ok_upd [OF assms(1) t L(1,2) L(4) L(3)]) (assumption | rule m)+
next
  case (enter i l h h' out)
  have m: "mutex s p \<noteq> Some (Client i)" for p
  proof
    assume "mutex s p = Some (Client i)"
    then have "owns (Client i) p (tpc s (Client i))" using assms(1) by (simp add: locks_ok_def)
    then show False using enter by simp
  qed
  show ?thesis
    by (rule enter_step [OF enter(6,5,7)], rule locks_ok_upd [OF assms(1), of "Client i"])
      (use m enter(2,3) in \<open>auto simp: set_threads_list pl_defs split: option.splits\<close>)
qed

lemma exclusive_step:
  assumes "locks_ok n s" "exclusive p s" "pl_step c cap n s l (Inr s')"
  shows "exclusive p s'"
  using assms(3)
proof (cases rule: pl_step.cases)
  case (thread t)
  have pc: "pc_ok t (tpc s t)" using assms(1) by (simp add: locks_ok_def)
  have m: "owns t p (tpc s t) \<longrightarrow> mutex s p = Some t"
    using assms(2) by (simp add: exclusive_def)
  note L = thread_step_locks [OF thread(3) pc refl]
  show ?thesis by (rule exclusive_upd [OF assms(2) L(1) L(5) L(6)]) (assumption | rule m)+
next
  case (enter i l h h' out)
  show ?thesis
  proof (rule enter_step [OF enter(6,5,7)])
    fix w assume w: "h' = h\<lparr>pipe := pipe (base s)\<rparr>" "out = map_option (\<lambda>(q, v). AtSend q v) w"
    let ?l = "case w of None \<Rightarrow> Outside | Some (q, v) \<Rightarrow> AtSend q v"
    have s': "tpc s' = (tpc s)(Client i := ?l)" "mutex s' = mutex s"
      using enter(2) w by (auto simp: pl_defs split: option.splits)
    have "\<not> owns (Client i) p ?l" by (simp split: option.splits)
    then show ?thesis by (intro exclusive_upd [OF assms(2) s'(1)]) (simp_all add: s'(2))
  qed
qed

lemma locks_run:
  assumes "pl_run c cap n s ls (Inr t)" "locks_ok n s"
  shows "locks_ok n t" "exclusive p s \<Longrightarrow> exclusive p t"
  using assms
  by (induction s ls "Inr t :: locked res" rule: pl_run.induct)
    (auto dest: locks_ok_step exclusive_step)

section \<open>Where the threads stop\<close>

definition idle :: "link \<Rightarrow> nat \<Rightarrow> nat \<Rightarrow> locked \<Rightarrow> bool" where
  "idle c cap n s \<longleftrightarrow> (\<forall>t\<in>set (threads_list n). thread_step c cap t s = None)"

lemma size_units: "size (units s) = (\<Sum>p\<in>UNIV. length (pipe s p))"
  by (simp add: units_def size_multiset_sum)

text \<open>A unit that waits to be written is not in its pipe yet.\<close>

lemma room_to_write:
  assumes "t \<in> set (threads_list n)" "tpc s t = AtWrite q u" "size (units (abs_host n s)) \<le> cap"
  shows "length (pipe (base s) q) < cap"
proof -
  have "u \<in> set (writing q (tpc s t))" using assms(2) by simp
  then have "u \<in> set (concat (map (\<lambda>t. writing q (tpc s t)) (threads_list n)))"
    using assms(1) unfolding set_concat set_map image_image by (intro UN_I [of t])
  then have "0 < length (concat (map (\<lambda>t. writing q (tpc s t)) (threads_list n)))"
    by (metis length_pos_if_in_set)
  then have "length (pipe (base s) q) < length (abs_pipe n s q)" by (simp add: abs_pipe_def)
  also have "\<dots> \<le> size (units (abs_host n s))"
    unfolding size_units abs_host_def
    using member_le_sum [of q UNIV "\<lambda>p. length (abs_pipe n s p)"] by simp
  finally show ?thesis using assms(3) by simp
qed

text \<open>A thread that cannot move waits for input, or for a mutex; the holder of that mutex is a reader
  further down that waits for a mutex too.\<close>

lemma stuck_cases:
  assumes ok: "locks_ok n s" and small: "size (units (abs_host n s)) \<le> cap"
    and t: "t \<in> set (threads_list n)" "thread_step c cap t s = None"
  shows "tpc s t = Outside \<or> (\<exists>p. t = Reader p \<and> tpc s t = AtRead \<and> pipe (base s) p = [])
    \<or> (\<exists>p u. t = Reader p \<and> tpc s t = AtLock u \<and> mutex s p \<noteq> None)
    \<or> (\<exists>q u. tpc s t = AtSend q u \<and> mutex s q \<noteq> None)"
proof -
  have pc: "pc_ok t (tpc s t)" using ok by (simp add: locks_ok_def)
  have "length (pipe (base s) q) < cap" if "tpc s t = AtWrite q u" for q u
    by (rule room_to_write [OF t(1) that small])
  with t(2) pc show ?thesis
    by (cases t) (auto simp: thread_step_def split: tpc.splits list.splits if_splits)
qed

lemma owner_moves:
  assumes ok: "locks_ok n s" and small: "size (units (abs_host n s)) \<le> cap"
    and idle: "idle c cap n s" and m: "mutex s p = Some t"
  shows "t = Reader p \<and> (\<exists>q u. tpc s t = AtSend q u \<and> level q < level p \<and> mutex s q \<noteq> None)"
proof -
  have t: "t \<in> set (threads_list n)" "owns t p (tpc s t)" "pc_ok t (tpc s t)"
    using ok m by (auto simp: locks_ok_def)
  have "thread_step c cap t s = None" using idle t(1) by (simp add: idle_def)
  from stuck_cases [OF ok small t(1) this] t(2,3) show ?thesis by auto
qed

lemma idle_unlocked:
  assumes "locks_ok n s" "size (units (abs_host n s)) \<le> cap" "idle c cap n s"
  shows "mutex s p = None"
proof (induction "level p" arbitrary: p rule: less_induct)
  case less
  show ?case
  proof (rule ccontr)
    assume "mutex s p \<noteq> None"
    then obtain t where "mutex s p = Some t" by auto
    from owner_moves [OF assms this] obtain q where "level q < level p" "mutex s q \<noteq> None" by auto
    then show False using less [of q] by simp
  qed
qed

lemma idle_quiet:
  assumes "locks_ok n s" "size (units (abs_host n s)) \<le> cap" "idle c cap n s"
  shows "quiet (abs_host n s)" "pipe (base s) p = []" "t \<in> set (threads_list n) \<Longrightarrow> tpc s t \<in> {AtRead, Outside}"
proof -
  note free = idle_unlocked [OF assms]
  have at: "tpc s t = Outside \<or> (\<exists>p. t = Reader p \<and> tpc s t = AtRead \<and> pipe (base s) p = [])"
    if "t \<in> set (threads_list n)" for t
    using stuck_cases [OF assms(1,2) that] assms(3) that free by (auto simp: idle_def)
  then show "tpc s t \<in> {AtRead, Outside}" if "t \<in> set (threads_list n)" using that by auto
  have p: "tpc s (Reader p) = AtRead \<and> pipe (base s) p = []" for p
  proof -
    have "pc_ok (Reader p) (tpc s (Reader p))" using assms(1) by (simp add: locks_ok_def)
    then show ?thesis using at [of "Reader p"] by (auto simp: set_threads_list)
  qed
  then show "pipe (base s) p = []" by simp
  have "writing q (tpc s t) = []" if "t \<in> set (threads_list n)" for t q using at [OF that] by auto
  then show "quiet (abs_host n s)" by (simp add: quiet_def abs_host_def abs_pipe_def p)
qed

section \<open>How long the threads work\<close>

fun rank :: "tid \<Rightarrow> tpc \<Rightarrow> nat" where
  "rank (Reader p) (AtLock u) = 8 * level p - 1"
| "rank (Reader p) (AtTurn u) = 8 * level p - 2"
| "rank t (AtSend q u) = 8 * level q + 4"
| "rank t (AtWrite q u) = 8 * level q + 3"
| "rank t (AtRelease q) = 2"
| "rank t AtUnlock = 1"
| "rank t l = 0"

text \<open>Eight calls for each pipe a unit still has to pass.\<close>

definition effort :: "nat \<Rightarrow> locked \<Rightarrow> nat" where
  "effort n s = (\<Sum>p\<in>UNIV. 8 * level p * length (pipe (base s) p)) + (\<Sum>t\<leftarrow>threads_list n. rank t (tpc s t))"

lemma sum_upd:
  "t \<in> set xs \<Longrightarrow> distinct xs \<Longrightarrow>
     (\<Sum>x\<leftarrow>xs. g x ((f(t := l)) x)) + g t (f t) = (\<Sum>x\<leftarrow>xs. g x (f x)) + (g t l :: nat)"
proof (induction xs)
  case (Cons x xs)
  show ?case
  proof (cases "x = t")
    case True
    then have "(\<Sum>x\<leftarrow>xs. g x ((f(t := l)) x)) = (\<Sum>x\<leftarrow>xs. g x (f x))"
      using Cons.prems by (intro arg_cong [of _ _ sum_list] map_cong) auto
    then show ?thesis using True by (simp del: fun_upd_apply add: fun_upd_same)
  next
    case False
    then show ?thesis using Cons by simp
  qed
qed simp

lemma effort_change:
  assumes "t \<in> set (threads_list n)" "tpc s' = (tpc s)(t := l)" "pipe (base s') = (pipe (base s))(p := us)"
    and "8 * level p * length us + rank t l < 8 * level p * length (pipe (base s) p) + rank t (tpc s t)"
  shows "effort n s' < effort n s"
proof -
  have "(\<Sum>q\<in>UNIV. 8 * level q * length (pipe (base s') q)) + 8 * level p * length (pipe (base s) p)
      = (\<Sum>q\<in>UNIV. 8 * level q * length (pipe (base s) q)) + 8 * level p * length us"
    unfolding assms(3) by (simp add: sum.remove [of UNIV p])
  moreover have "(\<Sum>x\<leftarrow>threads_list n. rank x (tpc s' x)) + rank t (tpc s t)
      = (\<Sum>x\<leftarrow>threads_list n. rank x (tpc s x)) + rank t l"
    unfolding assms(2) by (rule sum_upd [OF assms(1) distinct_threads_list])
  ultimately show ?thesis using assms(4) unfolding effort_def by linarith
qed

lemma effort_same:
  assumes "t \<in> set (threads_list n)" "tpc s' = (tpc s)(t := l)" "pipe (base s') = pipe (base s)"
    and "rank t l < rank t (tpc s t)"
  shows "effort n s' < effort n s"
  using effort_change [OF assms(1,2), where p = eth_send_pipe and us = "pipe (base s) eth_send_pipe"] assms(3,4)
  by simp

lemma level_pos: "1 \<le> level p"
  by (cases p) simp_all

lemma effort_step:
  assumes "thread_step c cap t s = Some (Inr s')" "t \<in> set (threads_list n)" "pc_ok t (tpc s t)"
  shows "effort n s' < effort n s"
proof (cases "\<exists>u. tpc s t = AtTurn u")
  case True
  then obtain u where u: "tpc s t = AtTurn u" by auto
  show ?thesis
  proof (rule at_turn [OF u assms(1)])
    fix p h w assume w: "t = Reader p" "\<And>q v. w = Some (q, v) \<Longrightarrow> level q < level p"
      "s' = at_pc t (case w of None \<Rightarrow> AtUnlock | Some (q, v) \<Rightarrow> AtSend q v) (s\<lparr>base := h\<lparr>pipe := pipe (base s)\<rparr>\<rparr>)"
    let ?l = "case w of None \<Rightarrow> AtUnlock | Some (q, v) \<Rightarrow> AtSend q v"
    have "rank t ?l < rank t (tpc s t)"
    proof (cases w)
      case (Some x)
      then obtain q v where x: "w = Some (q, v)" by (cases x) simp
      then have "level q < level p" by (rule w(2))
      then show ?thesis using u w(1) x by simp
    qed (use u w(1) level_pos [of p] in simp)
    then show ?thesis using w(3)
      by (intro effort_change [OF assms(2), of s' s ?l p "pipe (base s) p"]) (simp_all add: pl_defs)
  qed
next
  case False
  show ?thesis
  proof (cases "tpc s t")
    case (AtLock u)
    then obtain p where p: "t = Reader p" using assms(3) by (cases t) simp_all
    then show ?thesis
      using assms(1) AtLock level_pos [of p] by (intro effort_same [OF assms(2), of s' s "tpc s' t"])
        (auto simp: thread_step_def pl_defs split: if_splits)
  next
    case (AtWrite q u)
    then show ?thesis using assms(1)
      by (intro effort_change [OF assms(2), of s' s "AtRelease q" q "pipe (base s) q @ [u]"])
        (auto simp: thread_step_def pl_defs algebra_simps split: if_splits)
  next
    case AtRead
    then obtain p where p: "t = Reader p" using assms(3) by (cases t) simp_all
    then show ?thesis
      using assms(1) AtRead level_pos [of p]
      by (intro effort_change [OF assms(2), of s' s "tpc s' t" p "tl (pipe (base s) p)"])
        (auto simp: thread_step_def pl_defs split: list.splits)
  next
    case (AtTurn u)
    then show ?thesis using False by simp
  next
    case Outside
    then show ?thesis using assms(1,3) by (cases t) (simp_all add: thread_step_def)
  next
    case AtUnlock
    then show ?thesis using assms(1,3)
      by (cases t; intro effort_same [OF assms(2), of s' s "tpc s' t"]) (auto simp: thread_step_def pl_defs)
  next
    case (AtSend q u)
    then show ?thesis using assms(1)
      by (intro effort_same [OF assms(2), of s' s "AtWrite q u"])
        (auto simp: thread_step_def pl_defs split: if_splits)
  next
    case (AtRelease q)
    then show ?thesis using assms(1)
      by (cases t; intro effort_same [OF assms(2), of s' s "tpc s' t"]) (auto simp: thread_step_def pl_defs)
  qed
qed

text \<open>A step without input does not add units.\<close>

lemma writes_units:
  assumes "writes s t w"
  shows "units t = (case w of None \<Rightarrow> units s | Some x \<Rightarrow> add_mset x (units s))"
proof (cases w)
  case None
  then have "units t = units s" using assms by (intro units_cong) (simp add: writes_def)
  then show ?thesis using None by simp
next
  case (Some x)
  obtain q v where x: "x = (q, v)" by (cases x)
  have "units t = units (s\<lparr>pipe := (pipe s)(q := pipe s q @ [v])\<rparr>)"
    using assms by (intro units_cong) (simp add: writes_def Some x)
  then show ?thesis by (simp add: Some x units_upd units_split [of s q])
qed

lemma work_units:
  assumes "host_step c s (Work p) (Inr t)"
  shows "size (units t) \<le> size (units s)"
proof -
  from assms obtain u us where p: "pipe s p = u # us"
    and t: "thread c p u (s\<lparr>pipe := (pipe s)(p := us)\<rparr>) = Inr t" by auto
  obtain w where "writes (s\<lparr>pipe := (pipe s)(p := us)\<rparr>) t w"
    using thread_writes [OF t] by (auto simp: writes_below_def)
  from writes_units [OF this] show ?thesis by (simp add: units_pop [OF p] split: option.splits)
qed

lemma same_units_units: "same_units s t \<Longrightarrow> units s = units t"
  by (simp add: same_units_def units_def)

lemma pl_work_units:
  assumes "pl_step c cap n s None (Inr t)"
  shows "size (units (abs_host n t)) \<le> size (units (abs_host n s))"
  using pl_sim [OF assms]
proof (elim disjE exE conjE)
  fix i r' assume i: "host_step c (abs_host n s) i r'" "case None of None \<Rightarrow> i \<in> range Work | Some j \<Rightarrow> i = j"
    and r': "rel_sum (=) same_units r' (map_sum id (abs_host n) (Inr t))"
  then obtain h where "r' = Inr h" "same_units h (abs_host n t)" by (cases r') auto
  then show ?thesis using i work_units [of c "abs_host n s" _ h] same_units_units by fastforce
qed (auto dest: same_units_units)

section \<open>The threads alone\<close>

definition pl_work :: "link \<Rightarrow> nat \<Rightarrow> nat \<Rightarrow> locked \<Rightarrow> locked \<Rightarrow> bool" where
  "pl_work c cap n s t \<longleftrightarrow> pl_step c cap n s None (Inr t)"

lemma pl_work_effort:
  assumes "locks_ok n s" "pl_work c cap n s t"
  shows "effort n t < effort n s"
  using assms(2) unfolding pl_work_def
proof (cases rule: pl_step.cases)
  case (thread x)
  then show ?thesis
    using assms(1) by (intro effort_step [of c cap x]) (simp_all add: set_threads_list locks_ok_def)
qed

lemma pl_works:
  assumes "(pl_work c cap n ^^ k) s t" "locks_ok n s"
  shows "locks_ok n t \<and> k + effort n t \<le> effort n s \<and> size (units (abs_host n t)) \<le> size (units (abs_host n s))
    \<and> pl_run c cap n s [] (Inr t)"
  using assms
proof (induction k arbitrary: s)
  case 0
  then show ?case by (auto intro: pl_run.stop)
next
  case (Suc k)
  then obtain u where u: "pl_work c cap n s u" "(pl_work c cap n ^^ k) u t"
    using relpowp_Suc_E2 [OF Suc.prems(1)] by blast
  have step: "pl_step c cap n s None (Inr u)" using u(1) by (simp add: pl_work_def)
  note ok = locks_ok_step [OF Suc.prems(2) step]
  have "pl_run c cap n s (labels None @ []) (Inr t)"
    using Suc.IH [OF u(2) ok] by (intro pl_run.step [OF step]) simp
  then show ?case
    using Suc.IH [OF u(2) ok] pl_work_effort [OF Suc.prems(2) u(1)] pl_work_units [OF step] by simp
qed

lemma locks_ok_init: "locks_ok n (locked_init s)"
proof -
  have "pc_ok t (tpc (locked_init s) t)" for t by (cases t) (simp_all add: locked_init_def)
  then show ?thesis by (simp add: locks_ok_def locked_init_def)
qed

lemma abs_host_init: "abs_host n (locked_init s) = s"
proof -
  have "writing p (tpc (locked_init s) t) = []" for p t by (cases t) (simp_all add: locked_init_def)
  then have "abs_pipe n (locked_init s) = pipe s" by (simp add: fun_eq_iff abs_pipe_def) (simp add: locked_init_def)
  then show ?thesis by (simp add: abs_host_def) (simp add: locked_init_def)
qed

lemma idle_or_step:
  "idle c cap n s \<or> (\<exists>r. pl_step c cap n s None r)"
proof (cases "idle c cap n s")
  case False
  then obtain t r where "t \<in> set (threads_list n)" "thread_step c cap t s = Some r"
    by (auto simp: idle_def)
  then show ?thesis by (auto simp: set_threads_list intro: pl_step.thread)
qed simp

section \<open>Runs that go wrong\<close>

lemma pl_run_trans:
  assumes "pl_run c cap n s ls (Inr t)" "pl_run c cap n t ks r"
  shows "pl_run c cap n s (ls @ ks) r"
  using assms
  by (induction s ls "Inr t :: locked res" rule: pl_run.induct) (auto intro: pl_run.step)

lemma pl_run_step:
  "pl_step c cap n s l (Inr t) \<Longrightarrow> pl_run c cap n s (labels l) (Inr t)"
  using pl_run.step [OF _ pl_run.stop, of c cap n s l t] by simp

lemma pl_run_thread:
  "thread_step c cap t s = Some (Inr s') \<Longrightarrow> t \<in> set (threads_list n) \<Longrightarrow> pl_run c cap n s [] (Inr s')"
  using pl_run_step [OF pl_step.thread, of t n c cap s s'] by (simp add: set_threads_list)

text \<open>Every reader has made its first unlock, and no writer has begun.\<close>

definition running :: "host \<Rightarrow> locked" where
  "running s = \<lparr>base = s, mutex = (\<lambda>_. None),
     tpc = (\<lambda>t. case t of Reader p \<Rightarrow> AtRead | Client n \<Rightarrow> Outside)\<rparr>"

lemma run_to_running: "pl_run c cap n (locked_init s) [] (Inr (running s))"
proof -
  let ?at = "\<lambda>ps. (running s)\<lparr>tpc := (\<lambda>t. case t of Reader p \<Rightarrow> if p \<in> set ps then AtUnlock else AtRead | Client n \<Rightarrow> Outside)\<rparr>"
  have "distinct ps \<Longrightarrow> pl_run c cap n (?at ps) [] (Inr (?at []))" for ps
  proof (induction ps)
    case (Cons p ps)
    have "at_pc (Reader p) AtRead (set_mutex p None (?at (p # ps))) = ?at ps"
      using Cons.prems by (auto simp: pl_defs running_def fun_eq_iff split: tid.splits)
    moreover have "tpc (?at (p # ps)) (Reader p) = AtUnlock" by simp
    ultimately have "thread_step c cap (Reader p) (?at (p # ps)) = Some (Inr (?at ps))"
      by (simp only: thread_step_def prod.case tpc.case tid.case)
    then have "pl_run c cap n (?at (p # ps)) [] (Inr (?at ps))"
      by (rule pl_run_thread) (simp add: set_threads_list)
    from pl_run_trans [OF this] Cons show ?case by simp
  qed (rule pl_run.stop)
  from this [OF enum_distinct] show ?thesis
    by (simp add: running_def locked_init_def UNIV_enum [symmetric])
qed

lemma running_free: "\<not> owns t p (tpc (running s) t)"
  by (cases t) (simp_all add: running_def)

section \<open>A pipe that is blocked for good\<close>

text \<open>The pipe is full, a writer waits in \<open>write\<close> with the mutex locked, the reader that would make room
  waits for the mutex, and no other thread is between lock and unlock.\<close>

definition wedged :: "nat \<Rightarrow> tid \<Rightarrow> pipe_id \<Rightarrow> locked \<Rightarrow> bool" where
  "wedged cap t p s \<longleftrightarrow> (\<exists>u v. tpc s t = AtWrite p u \<and> tpc s (Reader p) = AtLock v) \<and> mutex s p = Some t
     \<and> cap \<le> length (pipe (base s) p) \<and> (\<forall>t'. owns t' p (tpc s t') \<longrightarrow> t' = t)"

text \<open>A thread changes the contents of a pipe only by a \<open>read\<close> from it or a \<open>write\<close> to it.\<close>

lemma thread_step_pipe:
  assumes "thread_step c cap t s = Some (Inr s')" "t \<noteq> Reader p" "\<And>u. tpc s t \<noteq> AtWrite p u"
  shows "pipe (base s') p = pipe (base s) p"
proof (cases "\<exists>u. tpc s t = AtTurn u")
  case True
  then obtain u where u: "tpc s t = AtTurn u" by auto
  show ?thesis by (rule at_turn [OF u assms(1)]) (simp add: pl_defs)
next
  case False
  moreover have "\<not> (\<exists>u. tpc s t = AtWrite p u)" using assms(3) by blast
  ultimately show ?thesis using assms(1,2) unfolding thread_step_def
    by (auto simp: pl_defs split: tpc.splits tid.splits list.splits if_splits)
qed

lemma wedged_step:
  assumes ok: "locks_ok n s" and w: "wedged cap t p s" and step: "pl_step c cap n s l (Inr s')"
  shows "wedged cap t p s' \<and> tpc s' t = tpc s t \<and> tpc s' (Reader p) = tpc s (Reader p)
    \<and> pipe (base s') p = pipe (base s) p"
  using step
proof (cases rule: pl_step.cases)
  case (thread x)
  from w obtain u v where pc: "tpc s t = AtWrite p u" "tpc s (Reader p) = AtLock v" and m: "mutex s p = Some t"
    and full: "cap \<le> length (pipe (base s) p)" and only: "\<And>t'. owns t' p (tpc s t') \<Longrightarrow> t' = t"
    by (auto simp: wedged_def)
  have "thread_step c cap t s = None" using pc(1) full by (simp add: thread_step_def)
  then have x: "x \<noteq> t" using thread(3) by auto
  have r: "x \<noteq> Reader p" using thread(3) pc(2) m by (auto simp: thread_step_def)
  have free: "\<not> owns x p (tpc s x)" using only x by blast
  have "pc_ok x (tpc s x)" using ok by (simp add: locks_ok_def)
  note L = thread_step_locks [OF thread(3) this refl]
  have m': "mutex s' p = Some t" using L(6) [of p t] free x m by blast
  have "\<not> owns x p (tpc s' x)" using L(5) [of p] free m' x by auto
  moreover have "tpc s' t' = tpc s t'" if "t' \<noteq> x" for t' using L(1) that by (metis fun_upd_other)
  ultimately have pcs: "owns t' p (tpc s' t') \<Longrightarrow> t' = t" "tpc s' t = tpc s t" "tpc s' (Reader p) = tpc s (Reader p)" for t'
    using only x r by metis+
  have "tpc s x \<noteq> AtWrite p w" for w using free by auto
  then have "pipe (base s') p = pipe (base s) p" by (rule thread_step_pipe [OF thread(3) r])
  then show ?thesis using pc full m' pcs by (simp add: wedged_def)
next
  case (enter i k h h' out)
  from w obtain u v where pc: "tpc s t = AtWrite p u" "tpc s (Reader p) = AtLock v" by (auto simp: wedged_def)
  have i: "Client i \<noteq> t" using enter(4) pc(1) by auto
  show ?thesis
  proof (rule enter_step [OF enter(6,5,7)])
    fix x assume x: "h' = h\<lparr>pipe := pipe (base s)\<rparr>" "out = map_option (\<lambda>(q, v). AtSend q v) x"
    let ?l = "case x of None \<Rightarrow> Outside | Some (q, v) \<Rightarrow> AtSend q v"
    have s': "tpc s' = (tpc s)(Client i := ?l)" "mutex s' = mutex s" "pipe (base s') = pipe (base s)"
      using enter(2) x by (auto simp: pl_defs split: option.splits)
    have "\<not> owns (Client i) p ?l" by (simp split: option.splits)
    then show ?thesis using w i unfolding wedged_def s' by auto
  qed
qed

lemma wedged_run:
  "pl_run c cap n s ls (Inr s') \<Longrightarrow> locks_ok n s \<Longrightarrow> wedged cap t p s \<Longrightarrow>
    wedged cap t p s' \<and> tpc s' t = tpc s t \<and> tpc s' (Reader p) = tpc s (Reader p) \<and> pipe (base s') p = pipe (base s) p"
proof (induction s ls "Inr s' :: locked res" rule: pl_run.induct)
  case (step s l u ls)
  have "locks_ok n u" by (rule locks_ok_step [OF step(4,1)])
  with wedged_step [OF step(4,5,1)] step(3) show ?case by simp
qed simp

section \<open>Writers\<close>

text \<open>A writer begins its call with a message for \<open>FTP\<close>, locks, and writes.\<close>

definition sample_bytes :: "cell list" where
  "sample_bytes = [Some 97, Some 98, Some 99]"

lemma client_enter_step:
  assumes "i < n" "tpc s (Client i) = Outside" "heap (base s) = heap sample_host"
  obtains b u where "heap b = heap sample_host" "pipe b = pipe (base s)"
    "pl_step c cap n s (Some (Submit sample_bytes FTP_ID)) (Inr (at_pc (Client i) (AtSend ftp_send_pipe u) (s\<lparr>base := b\<rparr>)))"
proof -
  let ?p = "(0, 0)"
  have rd: "readable (heap (base s)) ?p 3" "cells (heap (base s)) ?p 3 = sample_bytes"
    unfolding assms(3) sample_bytes_def by code_simp+
  obtain m s1 where new: "new_Message ?p (word_of_nat 3) (base s) = (m, s1)" by fastforce
  then have s1: "heap s1 = heap (base s)" "pipe s1 = pipe (base s)" by (auto simp: new_Message_def)
  let ?h = "msg_send m FTP_ID s1" and ?u = "\<lparr>protocol_id = FTP_ID, msg = m\<rparr>"
  have step: "host_step c (base s) (Submit sample_bytes FTP_ID) (Inr ?h)"
    using host_step.submit [OF rd(1) _ new, of c FTP_ID] rd(2) by simp
  have h: "?h = write_pipe ftp_send_pipe FTP_ID m s1" by (simp add: msg_send_def)
  have w: "writes (base s) ?h (Some (ftp_send_pipe, ?u))"
    unfolding h by (simp add: writes_def write_pipe_def s1)
  have "pl_step c cap n s (Some (Submit sample_bytes FTP_ID))
      (Inr (at_pc (Client i) (AtSend ftp_send_pipe ?u) (s\<lparr>base := ?h\<lparr>pipe := pipe (base s)\<rparr>\<rparr>)))"
    using pl_step.enter [OF assms(1,2) _ step take_out_writes [OF w]] by simp
  moreover have "heap ?h = heap sample_host" by (simp add: msg_send_def s1 assms(3))
  ultimately show thesis by (intro that [of "?h\<lparr>pipe := pipe (base s)\<rparr>" ?u]) simp_all
qed

lemma client_enter:
  assumes "i < n" "tpc s (Client i) = Outside" "heap (base s) = heap sample_host"
  obtains b u where "heap b = heap sample_host" "pipe b = pipe (base s)"
    "pl_run c cap n s [Submit sample_bytes FTP_ID] (Inr (at_pc (Client i) (AtSend ftp_send_pipe u) (s\<lparr>base := b\<rparr>)))"
proof (rule client_enter_step [OF assms, of c cap])
  fix b :: host and u assume b: "heap b = heap sample_host" "pipe b = pipe (base s)"
    and step: "pl_step c cap n s (Some (Submit sample_bytes FTP_ID)) (Inr (at_pc (Client i) (AtSend ftp_send_pipe u) (s\<lparr>base := b\<rparr>)))"
  show thesis using pl_run_step [OF step] by (intro that [OF b]) simp
qed

lemma client_lock:
  assumes "i < n" "tpc s (Client i) = Outside" "heap (base s) = heap sample_host" "mutex s ftp_send_pipe = None"
  obtains b u where "heap b = heap sample_host" "pipe b = pipe (base s)"
    "pl_run c cap n s [Submit sample_bytes FTP_ID] (Inr (at_pc (Client i) (AtWrite ftp_send_pipe u)
       (set_mutex ftp_send_pipe (Some (Client i)) (s\<lparr>base := b\<rparr>))))"
proof (rule client_enter [OF assms(1-3), of c cap])
  fix b :: host and u assume b: "heap b = heap sample_host" "pipe b = pipe (base s)"
    and run: "pl_run c cap n s [Submit sample_bytes FTP_ID] (Inr (at_pc (Client i) (AtSend ftp_send_pipe u) (s\<lparr>base := b\<rparr>)))"
  have "thread_step c cap (Client i) (at_pc (Client i) (AtSend ftp_send_pipe u) (s\<lparr>base := b\<rparr>))
      = Some (Inr (at_pc (Client i) (AtWrite ftp_send_pipe u) (set_mutex ftp_send_pipe (Some (Client i)) (s\<lparr>base := b\<rparr>))))"
    using assms(4) by (simp add: thread_step_def pl_defs)
  from pl_run_trans [OF run pl_run_thread [OF this]] show thesis
    using assms(1) by (intro that [OF b]) (simp add: set_threads_list)
qed

lemma client_write:
  assumes "i < n" "tpc s (Client i) = Outside" "heap (base s) = heap sample_host" "mutex s ftp_send_pipe = None"
    and room: "length (pipe (base s) ftp_send_pipe) < cap"
  obtains b u where "heap b = heap sample_host" "pipe b = (pipe (base s))(ftp_send_pipe := pipe (base s) ftp_send_pipe @ [u])"
    "pl_run c cap n s [Submit sample_bytes FTP_ID] (Inr (s\<lparr>base := b\<rparr>))"
proof (rule client_lock [OF assms(1-4), of c cap])
  fix b :: host and u assume b: "heap b = heap sample_host" "pipe b = pipe (base s)"
  let ?s = "at_pc (Client i) (AtWrite ftp_send_pipe u) (set_mutex ftp_send_pipe (Some (Client i)) (s\<lparr>base := b\<rparr>))"
  assume run: "pl_run c cap n s [Submit sample_bytes FTP_ID] (Inr ?s)"
  let ?b = "b\<lparr>pipe := (pipe (base s))(ftp_send_pipe := pipe (base s) ftp_send_pipe @ [u])\<rparr>"
  let ?t = "at_pc (Client i) (AtRelease ftp_send_pipe) (set_mutex ftp_send_pipe (Some (Client i)) (s\<lparr>base := ?b\<rparr>))"
  have c: "Client i \<in> set (threads_list n)" using assms(1) by (simp add: set_threads_list)
  have "thread_step c cap (Client i) ?s = Some (Inr ?t)"
    using room by (simp add: thread_step_def pl_defs b(2))
  note wr = pl_run_thread [OF this c]
  have "s\<lparr>base := ?b, mutex := (mutex s)(ftp_send_pipe := None), tpc := (tpc s)(Client i := Outside)\<rparr> = s\<lparr>base := ?b\<rparr>"
    unfolding fun_upd_idem [of "tpc s", OF assms(2)] fun_upd_idem [of "mutex s", OF assms(4)] by simp
  then have "thread_step c cap (Client i) ?t = Some (Inr (s\<lparr>base := ?b\<rparr>))"
    by (simp add: thread_step_def pl_defs)
  note rel = pl_run_thread [OF this c]
  show thesis using pl_run_trans [OF run pl_run_trans [OF wr rel]] by (intro that [of ?b u]) (simp_all add: b)
qed

section \<open>Properties\<close>

text \<open>C12: whatever the threads and their mutexes do, each step is a turn of one thread on the pipes as
  that turn sees them, or an input, or changes nothing there; and it faults only where that does.\<close>

theorem pl_refines:
  assumes "pl_step c cap n s l r"
  shows "(l = None \<and> (\<exists>s'. r = Inr s' \<and> same_units (abs_host n s) (abs_host n s')))
    \<or> (\<exists>k r'. host_step c (abs_host n s) k r' \<and> (case l of None \<Rightarrow> k \<in> range Work | Some i \<Rightarrow> k = i)
        \<and> rel_sum (=) same_units r' (map_sum id (abs_host n) r))"
  using assms by (rule pl_sim)

theorem pl_refines_witness:
  "\<exists>t r'. pl_step sample_link 4 1 (locked_init sample_host) (Some (Submit sample_bytes FTP_ID)) (Inr t)
     \<and> host_step sample_link sample_host (Submit sample_bytes FTP_ID) r'
     \<and> rel_sum (=) same_units r' (map_sum id (abs_host 1) (Inr t))"
proof (rule client_enter_step [of 0 1 "locked_init sample_host" sample_link 4])
  fix b :: host and u
  let ?t = "at_pc (Client 0) (AtSend ftp_send_pipe u) ((locked_init sample_host)\<lparr>base := b\<rparr>)"
  assume "pl_step sample_link 4 1 (locked_init sample_host) (Some (Submit sample_bytes FTP_ID)) (Inr ?t)"
  from pl_refines [OF this] this show ?thesis
    by (intro exI [of _ ?t]) (simp add: abs_host_init del: map_sum.simps)
qed (simp_all add: locked_init_def)

text \<open>C13: from any state reached in which the pipes have room for all the units there are, the threads
  alone stop after a bounded number of calls, cannot get stuck on the mutexes or fault before, and when
  they stop everything that was put in has come out.\<close>

theorem pl_drains:
  assumes "pl_run c cap n (locked_init h) ls (Inr s)" "host_inv (inputs ls) h" "list_all proper ls"
    and "\<And>e. Inl e \<notin># account c h + inputs_fate c ls"
    and "size (units (abs_host n s)) \<le> cap" "(pl_work c cap n ^^ k) s t"
  shows "k \<le> effort n s \<and> ((\<exists>t'. pl_work c cap n t t')
    \<or> (quiet (abs_host n t) \<and> image_mset Inr (outcomes (base t)) = account c h + inputs_fate c ls))"
proof -
  note ok = locks_run(1) [OF assms(1) locks_ok_init]
  note works = pl_works [OF assms(6) ok]
  have s: "host_inv 0 (abs_host n s)" "account c (abs_host n s) = account c h + inputs_fate c ls"
    using pl_run_account [OF assms(1), of 0] assms(2,3) by (simp_all add: abs_host_init)
  have "pl_run c cap n s [] (Inr t)" using works by simp
  from pl_run_account [OF this, of 0] s have t: "host_inv 0 (abs_host n t)"
    "account c (abs_host n t) = account c h + inputs_fate c ls" by simp_all
  show ?thesis
  proof (cases "idle c cap n t")
    case True
    then have q: "quiet (abs_host n t)" using idle_quiet(1) [of n t cap c] works assms(5) by simp
    have "outcomes (abs_host n t) = outcomes (base t)" by (simp add: abs_host_def)
    then show ?thesis using q quiet_account [OF q, of c] t(2) works by simp
  next
    case False
    then obtain r where r: "pl_step c cap n t None r" using idle_or_step by blast
    have "r \<noteq> Inl e" for e using pl_step_account [OF r, of 0] t assms(4) [of e] by auto
    then obtain t' where "r = Inr t'" by (cases r) auto
    then show ?thesis using works r by (auto simp: pl_work_def)
  qed
qed

theorem pl_drains_witness:
  "\<exists>k t. (pl_work sample_link 1 0 ^^ k) (locked_init sample_busy) t \<and> quiet (abs_host 0 t)
     \<and> image_mset Inr (outcomes (base t)) = ({# Inr (Sent (servaddr sample_link)
         (wire (undef_cells 8) FTP (undef_cells 4) [Some 97, Some 98, Some 99])) #} :: outcome res multiset)"
proof -
  let ?s = "locked_init sample_busy" and ?w = "pl_work sample_link 1 0"
  have run: "pl_run sample_link 1 0 ?s [] (Inr ?s)" by (rule pl_run.stop)
  have inv: "host_inv (inputs []) sample_busy" by (rule host_inv_mono [OF sample_busy(1)]) simp
  have "size (account sample_link sample_busy) = 1" unfolding sample_busy(2) by simp
  then have small: "size (units (abs_host 0 ?s)) \<le> 1" by (simp add: account_def abs_host_init)
  have d: "k \<le> effort 0 ?s \<and> ((\<exists>t'. ?w t t') \<or> (quiet (abs_host 0 t)
      \<and> image_mset Inr (outcomes (base t)) = account sample_link sample_busy))" if "(?w ^^ k) ?s t" for k t
    using pl_drains [OF run inv _ _ small that] by (simp add: sample_busy(2))
  have "\<exists>t. (?w ^^ 0) ?s t" by simp
  moreover have "\<forall>j. (\<exists>t. (?w ^^ j) ?s t) \<longrightarrow> j < Suc (effort 0 ?s)"
    using d by (auto simp: less_Suc_eq_le)
  ultimately obtain k where k: "\<exists>t. (?w ^^ k) ?s t" "\<And>j. \<exists>t. (?w ^^ j) ?s t \<Longrightarrow> j \<le> k"
    using ex_has_greatest_nat [of "\<lambda>k. \<exists>t. (?w ^^ k) ?s t" 0 "\<lambda>j. j" "Suc (effort 0 ?s)"] by blast
  then obtain t where t: "(?w ^^ k) ?s t" by auto
  have "\<not> ?w t t'" for t'
  proof
    assume "?w t t'"
    then have "(?w ^^ Suc k) ?s t'" using t by auto
    then show False using k(2) [of "Suc k"] by auto
  qed
  then show ?thesis using d [OF t] t unfolding sample_busy(2) by auto
qed

text \<open>C14: From any moment on at which no thread is between the lock and the unlock of a pipe's mutex,
  which includes that the pipe's reader has made its first unlock, no two threads are ever there.
  (Without that two can be: \<open>pl_two_writers\<close>.)\<close>

theorem pl_exclusion:
  assumes "pl_run c cap n (locked_init h) ks (Inr s0)" "\<forall>t. \<not> owns t p (tpc s0 t)"
    and "pl_run c cap n s0 ls (Inr s)" "owns t p (tpc s t)" "owns t' p (tpc s t')"
  shows "t = t'"
proof -
  have "locks_ok n s0" by (rule locks_run(1) [OF assms(1) locks_ok_init])
  moreover have "exclusive p s0" using assms(2) by (simp add: exclusive_def)
  ultimately have "exclusive p s" by (rule locks_run(2) [OF assms(3)])
  then have "mutex s p = Some t" "mutex s p = Some t'"
    using assms(4,5) unfolding exclusive_def by blast+
  then show ?thesis by simp
qed

theorem pl_exclusion_witness:
  "\<exists>s. pl_run sample_link 4 2 (locked_init sample_host) [Submit sample_bytes FTP_ID] (Inr s)
     \<and> {t. owns t ftp_send_pipe (tpc s t)} = {Client 0}"
proof (rule client_lock [of 0 2 "running sample_host" sample_link 4])
  fix b :: host and u
  let ?s = "at_pc (Client 0) (AtWrite ftp_send_pipe u)
    (set_mutex ftp_send_pipe (Some (Client 0)) ((running sample_host)\<lparr>base := b\<rparr>))"
  assume run: "pl_run sample_link 4 2 (running sample_host) [Submit sample_bytes FTP_ID] (Inr ?s)"
  have "owns (Client 0) ftp_send_pipe (tpc ?s (Client 0))" by (simp add: pl_defs)
  moreover have "\<forall>t. \<not> owns t ftp_send_pipe (tpc (running sample_host) t)" by (simp add: running_free)
  moreover have "pl_run sample_link 4 2 (locked_init sample_host) ([] @ [Submit sample_bytes FTP_ID]) (Inr ?s)"
    by (rule pl_run_trans [OF run_to_running run])
  ultimately show ?thesis using pl_exclusion [OF run_to_running _ run]
    by (intro exI [of _ ?s]) (simp only: append_Nil, blast)
qed (simp_all add: running_def)

text \<open>a reader's first unlock can release a mutex that a writer has just locked: two writers are
  then at the \<open>write\<close> to one pipe at once.\<close>

theorem pl_two_writers:
  "\<exists>s u v. pl_run c cap 2 (locked_init sample_host) [Submit sample_bytes FTP_ID, Submit sample_bytes FTP_ID] (Inr s)
     \<and> tpc s (Client 0) = AtWrite ftp_send_pipe u \<and> tpc s (Client 1) = AtWrite ftp_send_pipe v"
proof (rule client_lock [of 0 2 "locked_init sample_host" c cap])
  fix b :: host and u assume b: "heap b = heap sample_host"
  let ?s = "at_pc (Client 0) (AtWrite ftp_send_pipe u)
    (set_mutex ftp_send_pipe (Some (Client 0)) ((locked_init sample_host)\<lparr>base := b\<rparr>))"
  let ?t = "at_pc (Reader ftp_send_pipe) AtRead (set_mutex ftp_send_pipe None ?s)"
  assume "pl_run c cap 2 (locked_init sample_host) [Submit sample_bytes FTP_ID] (Inr ?s)"
  moreover have "pl_run c cap 2 ?s [] (Inr ?t)"
    by (rule pl_run_thread [of _ _ "Reader ftp_send_pipe"])
      (simp_all add: thread_step_def pl_defs locked_init_def set_threads_list)
  ultimately have run: "pl_run c cap 2 (locked_init sample_host) ([Submit sample_bytes FTP_ID] @ []) (Inr ?t)"
    by (rule pl_run_trans)
  show ?thesis
  proof (rule client_lock [of 1 2 ?t c cap])
    fix b' :: host and v
    let ?r = "at_pc (Client 1) (AtWrite ftp_send_pipe v) (set_mutex ftp_send_pipe (Some (Client 1)) (?t\<lparr>base := b'\<rparr>))"
    assume "pl_run c cap 2 ?t [Submit sample_bytes FTP_ID] (Inr ?r)"
    from pl_run_trans [OF run this] show ?thesis
      by (intro exI [of _ ?r] exI [of _ u] exI [of _ v]) (simp add: pl_defs)
  qed (simp_all add: pl_defs locked_init_def b)
qed (simp_all add: locked_init_def)

lemma client_fill:
  assumes "k \<le> cap" "tpc s (Client 0) = Outside" "heap (base s) = heap sample_host" "mutex s ftp_send_pipe = None"
    "pipe (base s) ftp_send_pipe = []" "0 < n"
  shows "\<exists>b. heap b = heap sample_host \<and> length (pipe b ftp_send_pipe) = k
    \<and> (\<forall>q. q \<noteq> ftp_send_pipe \<longrightarrow> pipe b q = pipe (base s) q)
    \<and> pl_run c cap n s (replicate k (Submit sample_bytes FTP_ID)) (Inr (s\<lparr>base := b\<rparr>))"
  using assms(1)
proof (induction k)
  case 0
  then show ?case using assms(3,5) pl_run.stop [of c cap n s] by (intro exI [of _ "base s"]) simp
next
  case (Suc k)
  then obtain b where b: "heap b = heap sample_host" "length (pipe b ftp_send_pipe) = k"
    "\<forall>q. q \<noteq> ftp_send_pipe \<longrightarrow> pipe b q = pipe (base s) q"
    and run: "pl_run c cap n s (replicate k (Submit sample_bytes FTP_ID)) (Inr (s\<lparr>base := b\<rparr>))" by auto
  show ?case
  proof (rule client_write [of 0 n "s\<lparr>base := b\<rparr>" cap c])
    fix b' :: host and u assume b': "heap b' = heap sample_host"
      "pipe b' = (pipe (base (s\<lparr>base := b\<rparr>)))(ftp_send_pipe := pipe (base (s\<lparr>base := b\<rparr>)) ftp_send_pipe @ [u])"
      and "pl_run c cap n (s\<lparr>base := b\<rparr>) [Submit sample_bytes FTP_ID] (Inr (s\<lparr>base := b, base := b'\<rparr>))"
    from pl_run_trans [OF run this(3)] show ?case
      using b by (intro exI [of _ b']) (simp add: b' replicate_append_same)
  qed (use assms(2,4,6) b Suc.prems in simp_all)
qed

lemma wedge_reach:
  assumes "0 < n"
  obtains s where "pl_run c (Suc m) n (locked_init sample_host) (replicate (m + 3) (Submit sample_bytes FTP_ID)) (Inr s)"
    "wedged (Suc m) (Client 0) ftp_send_pipe s" "heap (base s) = heap sample_host" "tpc s (Client 1) = Outside"
proof (rule client_write [of 0 n "running sample_host" "Suc m" c])
  let ?S = "Submit sample_bytes FTP_ID"
  fix b :: host and u assume b: "heap b = heap sample_host"
      "pipe b = (pipe (base (running sample_host)))(ftp_send_pipe := pipe (base (running sample_host)) ftp_send_pipe @ [u])"
    and run1: "pl_run c (Suc m) n (running sample_host) [?S] (Inr ((running sample_host)\<lparr>base := b\<rparr>))"
  let ?s = "at_pc (Reader ftp_send_pipe) (AtLock u) (set_pipe ftp_send_pipe [] ((running sample_host)\<lparr>base := b\<rparr>))"
  have p: "pipe b = (\<lambda>_. [])(ftp_send_pipe := [u])" by (simp add: b(2) running_def sample_host_def)
  have "pl_run c (Suc m) n ((running sample_host)\<lparr>base := b\<rparr>) [] (Inr ?s)"
    by (rule pl_run_thread [of _ _ "Reader ftp_send_pipe"])
      (simp_all add: thread_step_def p set_threads_list pl_defs running_def)
  note run2 = pl_run_trans [OF pl_run_trans [OF run_to_running run1] this]
  have s: "tpc ?s (Client 0) = Outside" "heap (base ?s) = heap sample_host" "mutex ?s ftp_send_pipe = None"
    "pipe (base ?s) = (\<lambda>_. [])"
    by (simp_all add: pl_defs running_def b(1) p fun_eq_iff)
  have s4: "pipe (base ?s) ftp_send_pipe = []" unfolding s(4) by simp
  obtain b' where b': "heap b' = heap sample_host" "length (pipe b' ftp_send_pipe) = Suc m"
    and run3: "pl_run c (Suc m) n ?s (replicate (Suc m) ?S) (Inr (?s\<lparr>base := b'\<rparr>))"
    using client_fill [where c = c and n = n, OF order_refl s(1-3) s4 assms] by blast
  show thesis
  proof (rule client_lock [of 0 n "?s\<lparr>base := b'\<rparr>" c "Suc m"])
    fix b'' :: host and v assume b'': "heap b'' = heap sample_host" "pipe b'' = pipe (base (?s\<lparr>base := b'\<rparr>))"
    let ?t = "at_pc (Client 0) (AtWrite ftp_send_pipe v)
      (set_mutex ftp_send_pipe (Some (Client 0)) (?s\<lparr>base := b', base := b''\<rparr>))"
    assume run4: "pl_run c (Suc m) n (?s\<lparr>base := b'\<rparr>) [?S] (Inr ?t)"
    have pcs: "tpc ?t = (tpc (running sample_host))(Reader ftp_send_pipe := AtLock u, Client 0 := AtWrite ftp_send_pipe v)"
      "mutex ?t = (mutex (running sample_host))(ftp_send_pipe := Some (Client 0))" "base ?t = b''"
      by (simp_all add: pl_defs)
    have only: "\<forall>x. owns x ftp_send_pipe (tpc ?t x) \<longrightarrow> x = Client 0"
    proof (intro allI impI)
      fix x assume "owns x ftp_send_pipe (tpc ?t x)"
      then show "x = Client 0" using running_free [of x ftp_send_pipe sample_host] unfolding pcs(1)
        by (cases "x = Client 0"; cases "x = Reader ftp_send_pipe") simp_all
    qed
    have "tpc ?t (Client 0) = AtWrite ftp_send_pipe v" "tpc ?t (Reader ftp_send_pipe) = AtLock u"
      unfolding pcs(1) by simp_all
    moreover have "mutex ?t ftp_send_pipe = Some (Client 0)" "Suc m \<le> length (pipe (base ?t) ftp_send_pipe)"
      unfolding pcs(2,3) using b'(2) b''(2) by simp_all
    ultimately have "wedged (Suc m) (Client 0) ftp_send_pipe ?t"
      unfolding wedged_def using only by blast
    moreover have "heap (base ?t) = heap sample_host" "tpc ?t (Client 1) = Outside"
      unfolding pcs by (simp_all add: b''(1) running_def)
    moreover have "replicate (m + 3) ?S = (([] @ [?S]) @ []) @ replicate (Suc m) ?S @ [?S]"
      by (simp add: numeral_3_eq_3 replicate_append_same)
    ultimately show thesis using pl_run_trans [OF run2 pl_run_trans [OF run3 run4]] by (metis that)
  qed (use s b' assms in \<open>simp_all add: pl_defs\<close>)
qed (use assms in \<open>simp_all add: running_def sample_host_def\<close>)

text \<open>C15: When a pipe is full, a writer waits in \<open>write\<close> with the pipe's mutex locked, the reader is
  behind its \<open>read\<close> and waits for that mutex, and nobody else is between lock and unlock, then both wait
  for ever, whatever the other threads and writers do, and the units in the pipe stay there; and for a pipe of any
  capacity such a state is reached from the start.\<close>

theorem pl_deadlock:
  "(\<forall>ks s ls s'. pl_run c cap n (locked_init h) ks (Inr s) \<and> wedged cap t p s \<and> pl_run c cap n s ls (Inr s') \<longrightarrow>
      wedged cap t p s' \<and> tpc s' t = tpc s t \<and> tpc s' (Reader p) = tpc s (Reader p)
      \<and> pipe (base s') p = pipe (base s) p)
   \<and> (\<exists>s. pl_run c (Suc m) (Suc k) (locked_init sample_host) (replicate (m + 3) (Submit sample_bytes FTP_ID)) (Inr s)
      \<and> wedged (Suc m) (Client 0) ftp_send_pipe s)"
proof (intro conjI)
  show "\<exists>s. pl_run c (Suc m) (Suc k) (locked_init sample_host) (replicate (m + 3) (Submit sample_bytes FTP_ID)) (Inr s)
      \<and> wedged (Suc m) (Client 0) ftp_send_pipe s"
    by (rule wedge_reach [of "Suc k" c m]) auto
qed (use wedged_run locks_run(1) locks_ok_init in blast)

text \<open>A pipe that holds one unit is blocked by three messages; a fourth caller comes and waits too.\<close>

theorem pl_deadlock_witness:
  "\<exists>s s' u. pl_run sample_link 1 2 (locked_init sample_host) (replicate 3 (Submit sample_bytes FTP_ID)) (Inr s)
     \<and> wedged 1 (Client 0) ftp_send_pipe s \<and> pl_run sample_link 1 2 s [Submit sample_bytes FTP_ID] (Inr s')
     \<and> tpc s' (Client 1) = AtSend ftp_send_pipe u \<and> wedged 1 (Client 0) ftp_send_pipe s'
     \<and> pipe (base s') ftp_send_pipe = pipe (base s) ftp_send_pipe"
proof (rule wedge_reach [of 2 sample_link 0])
  fix s assume s: "pl_run sample_link (Suc 0) 2 (locked_init sample_host) (replicate (0 + 3) (Submit sample_bytes FTP_ID)) (Inr s)"
    "wedged (Suc 0) (Client 0) ftp_send_pipe s" "heap (base s) = heap sample_host" "tpc s (Client 1) = Outside"
  show ?thesis
  proof (rule client_enter [OF _ s(4,3), of 2 sample_link "Suc 0"])
    fix b :: host and u
    let ?t = "at_pc (Client 1) (AtSend ftp_send_pipe u) (s\<lparr>base := b\<rparr>)"
    assume run: "pl_run sample_link (Suc 0) 2 s [Submit sample_bytes FTP_ID] (Inr ?t)"
    have "wedged (Suc 0) (Client 0) ftp_send_pipe ?t \<and> pipe (base ?t) ftp_send_pipe = pipe (base s) ftp_send_pipe"
      using pl_deadlock [of sample_link "Suc 0" 2 sample_host "Client 0" ftp_send_pipe 0 0] s(1,2) run by blast
    then show ?thesis using s(1,2) run by (intro exI [of _ s] exI [of _ ?t] exI [of _ u]) (simp add: pl_defs)
  qed simp
qed simp

end
