(* ===== verification/Std_Heap.thy ===== *)
theory Std_Heap
  imports Prelude "HOL-Library.Multiset"
begin

text \<open>
  The heap algorithms of the C++ standard library on a \<open>vector\<close>, with the comparison as an
  argument: \<open>push_heap\<close>, \<open>pop_heap\<close>, \<open>make_heap\<close>. \<open>cmp a b\<close> means that \<open>a\<close> comes out after \<open>b\<close>.
  The locale \<open>weak_order\<close> states what the library requires of the comparison, \<open>heap_ops\<close> what it
  promises of the algorithms; the second is interpreted on the definitions of this theory for
  every comparison that satisfies the first.
\<close>

section \<open>The algorithms\<close>

definition swap_at :: "nat \<Rightarrow> nat \<Rightarrow> 'a list \<Rightarrow> 'a list" where
  "swap_at i j xs = xs[i := xs ! j, j := xs ! i]"

abbreviation parent :: "nat \<Rightarrow> nat" where
  "parent i \<equiv> (i - Suc 0) div 2"

text \<open>Move the element at \<open>i\<close> towards the front while it belongs before its parent.\<close>

fun sift_up :: "('a \<Rightarrow> 'a \<Rightarrow> bool) \<Rightarrow> 'a list \<Rightarrow> nat \<Rightarrow> 'a list" where
  "sift_up cmp xs i =
     (if 0 < i \<and> cmp (xs ! parent i) (xs ! i) then sift_up cmp (swap_at (parent i) i xs) (parent i)
      else xs)"

declare sift_up.simps [simp del]

text \<open>Move the element at \<open>i\<close> towards the back, within the first \<open>n\<close> elements, while a child
  belongs before it.\<close>

definition best_child :: "('a \<Rightarrow> 'a \<Rightarrow> bool) \<Rightarrow> nat \<Rightarrow> 'a list \<Rightarrow> nat \<Rightarrow> nat" where
  "best_child cmp n xs i =
     (if 2 * i + 2 < n \<and> cmp (xs ! (2 * i + 1)) (xs ! (2 * i + 2)) then 2 * i + 2 else 2 * i + 1)"

function sift_down :: "('a \<Rightarrow> 'a \<Rightarrow> bool) \<Rightarrow> nat \<Rightarrow> 'a list \<Rightarrow> nat \<Rightarrow> 'a list" where
  "sift_down cmp n xs i =
     (let c = best_child cmp n xs i in
      if 2 * i + 1 < n \<and> cmp (xs ! i) (xs ! c) then sift_down cmp n (swap_at i c xs) c else xs)"
  by pat_completeness auto
termination
  by (relation "measure (\<lambda>(cmp, n, xs, i). n - i)") (auto simp: best_child_def split: if_splits)

declare sift_down.simps [simp del]

definition push_heap :: "('a \<Rightarrow> 'a \<Rightarrow> bool) \<Rightarrow> 'a list \<Rightarrow> 'a list" where
  "push_heap cmp xs = sift_up cmp xs (length xs - 1)"

definition pop_heap :: "('a \<Rightarrow> 'a \<Rightarrow> bool) \<Rightarrow> 'a list \<Rightarrow> 'a list" where
  "pop_heap cmp xs = sift_down cmp (length xs - 1) (swap_at 0 (length xs - 1) xs) 0"

fun heapify :: "('a \<Rightarrow> 'a \<Rightarrow> bool) \<Rightarrow> 'a list \<Rightarrow> nat \<Rightarrow> 'a list" where
  "heapify cmp xs 0 = xs"
| "heapify cmp xs (Suc i) = heapify cmp (sift_down cmp (length xs) xs i) i"

definition make_heap :: "('a \<Rightarrow> 'a \<Rightarrow> bool) \<Rightarrow> 'a list \<Rightarrow> 'a list" where
  "make_heap cmp xs = heapify cmp xs (length xs div 2)"

section \<open>Elements are only moved\<close>

lemma length_swap_at [simp]: "length (swap_at i j xs) = length xs"
  by (simp add: swap_at_def)

lemma mset_swap_at [simp]: "i < length xs \<Longrightarrow> j < length xs \<Longrightarrow> mset (swap_at i j xs) = mset xs"
  unfolding swap_at_def by (rule mset_swap)

lemma nth_swap_at:
  "i < length xs \<Longrightarrow> j < length xs \<Longrightarrow>
     swap_at i j xs ! k = (if k = j then xs ! i else if k = i then xs ! j else xs ! k)"
  by (auto simp: swap_at_def nth_list_update)

lemma mset_sift_up: "i < length xs \<Longrightarrow> mset (sift_up cmp xs i) = mset xs"
proof (induction cmp xs i rule: sift_up.induct)
  case (1 cmp xs i)
  then show ?case by (subst sift_up.simps) auto
qed

lemma sift_down_frame:
  assumes "n \<le> length xs"
  shows "mset (sift_down cmp n xs i) = mset xs" "n \<le> k \<Longrightarrow> sift_down cmp n xs i ! k = xs ! k"
  using assms
proof (induction cmp n xs i rule: sift_down.induct)
  case (1 cmp n xs i)
  let ?c = "best_child cmp n xs i"
  have c: "2 * i + 1 < n \<Longrightarrow> i < ?c \<and> ?c < n" by (auto simp: best_child_def)
  {
    case 1
    then show ?case
      using c "1.IH"(1) [OF refl] by (subst sift_down.simps) (auto simp: Let_def)
  next
    case 2
    then show ?case
      using c "1.IH"(2) [OF refl] by (subst sift_down.simps) (auto simp: Let_def nth_swap_at)
  }
qed

lemma length_sift_down [simp]: "n \<le> length xs \<Longrightarrow> length (sift_down cmp n xs i) = length xs"
  using sift_down_frame(1) mset_eq_length by blast

lemma mset_heapify: "mset (heapify cmp xs k) = mset xs"
  by (induction k arbitrary: xs) (simp_all add: sift_down_frame(1))

section \<open>The heap property\<close>

text \<open>No element belongs before its parent; \<open>heap_from k\<close> asks it only of parents from \<open>k\<close> on.\<close>

definition heap_from :: "('a \<Rightarrow> 'a \<Rightarrow> bool) \<Rightarrow> nat \<Rightarrow> nat \<Rightarrow> 'a list \<Rightarrow> bool" where
  "heap_from cmp k n xs \<longleftrightarrow> (\<forall>j. 0 < j \<longrightarrow> j < n \<longrightarrow> k \<le> parent j \<longrightarrow> \<not> cmp (xs ! parent j) (xs ! j))"

definition is_heap :: "('a \<Rightarrow> 'a \<Rightarrow> bool) \<Rightarrow> 'a list \<Rightarrow> bool" where
  "is_heap cmp xs \<longleftrightarrow> list_all (\<lambda>j. \<not> cmp (xs ! parent j) (xs ! j)) [1..<length xs]"

lemma is_heap_from: "is_heap cmp xs \<longleftrightarrow> heap_from cmp 0 (length xs) xs"
  by (auto simp: is_heap_def heap_from_def list_all_iff)

text \<open>A comparison the algorithms accept.\<close>

locale weak_order =
  fixes cmp :: "'a \<Rightarrow> 'a \<Rightarrow> bool"
  assumes asym: "cmp a b \<Longrightarrow> \<not> cmp b a"
    and negtrans: "\<not> cmp a b \<Longrightarrow> \<not> cmp b c \<Longrightarrow> \<not> cmp a c"
begin

lemma irrefl: "\<not> cmp a a"
  using asym by blast

lemma sift_down_heap:
  assumes "n \<le> length xs" "k \<le> i"
    and "\<And>j. 0 < j \<Longrightarrow> j < n \<Longrightarrow> k \<le> parent j \<Longrightarrow> parent j \<noteq> i \<Longrightarrow> \<not> cmp (xs ! parent j) (xs ! j)"
    and "\<And>j. 0 < j \<Longrightarrow> j < n \<Longrightarrow> parent j = i \<Longrightarrow> 0 < i \<Longrightarrow> k \<le> parent i \<Longrightarrow> \<not> cmp (xs ! parent i) (xs ! j)"
  shows "heap_from cmp k n (sift_down cmp n xs i)"
  using assms
proof (induction "n - i" arbitrary: xs i rule: less_induct)
  case less
  let ?c = "best_child cmp n xs i"
  show ?case
  proof (cases "2 * i + 1 < n \<and> cmp (xs ! i) (xs ! ?c)")
    case True
    have c: "?c < n" "parent ?c = i" "i < ?c" "?c = 2 * i + 1 \<or> ?c = 2 * i + 2"
      using True by (auto simp: best_child_def)
    have sib: "\<not> cmp (xs ! ?c) (xs ! j)" if "0 < j" "j < n" "parent j = i" for j
    proof -
      have "j = 2 * i + 1 \<or> j = 2 * i + 2" using that by auto
      then show ?thesis using asym irrefl that by (auto simp: best_child_def)
    qed
    have nth: "swap_at i ?c xs ! j = (if j = ?c then xs ! i else if j = i then xs ! ?c else xs ! j)" for j
      using c less.prems(1) by (simp add: nth_swap_at)
    have "heap_from cmp k n (sift_down cmp n (swap_at i ?c xs) ?c)"
    proof (rule less.hyps)
      show "n - ?c < n - i" using c by simp
      show "n \<le> length (swap_at i ?c xs)" "k \<le> ?c" using less.prems(1,2) c by simp_all
    next
      fix j assume j: "0 < j" "j < n" "k \<le> parent j" "parent j \<noteq> ?c"
      show "\<not> cmp (swap_at i ?c xs ! parent j) (swap_at i ?c xs ! j)"
      proof (cases "parent j = i")
        case True
        have "j \<noteq> i" using j(1) True by auto
        then show ?thesis
          using True j sib [OF j(1,2) True] asym \<open>2 * i + 1 < n \<and> cmp (xs ! i) (xs ! ?c)\<close> c(3)
          by (auto simp: nth)
      next
        case False
        then have "j \<noteq> ?c" using c by auto
        then show ?thesis
          using False j less.prems(3) [OF j(1-3) False] less.prems(4) [OF _ c(1,2)] c by (auto simp: nth)
      qed
    next
      fix j assume j: "0 < j" "j < n" "parent j = ?c" "0 < ?c" "k \<le> parent ?c"
      have "j \<noteq> i" "j \<noteq> ?c" "?c \<noteq> i" using j c(3) by auto
      then show "\<not> cmp (swap_at i ?c xs ! parent ?c) (swap_at i ?c xs ! j)"
        using less.prems(3) [OF j(1,2)] j c less.prems(2) by (simp add: nth)
    qed
    then show ?thesis using True by (subst sift_down.simps) (simp add: Let_def)
  next
    case False
    have "\<not> cmp (xs ! i) (xs ! j)" if j: "0 < j" "j < n" "parent j = i" for j
    proof -
      have d: "j = 2 * i + 1 \<or> j = 2 * i + 2" using j by auto
      then have "\<not> cmp (xs ! i) (xs ! ?c)" using False j by auto
      moreover have "\<not> cmp (xs ! ?c) (xs ! j)"
        using d asym irrefl j(2) by (auto simp: best_child_def)
      ultimately show ?thesis by (rule negtrans)
    qed
    then have "heap_from cmp k n xs"
      using less.prems(3) by (auto simp: heap_from_def)
    then show ?thesis using False by (subst sift_down.simps) (auto simp: Let_def)
  qed
qed

lemma heapify_heap: "heap_from cmp k (length xs) xs \<Longrightarrow> heap_from cmp 0 (length xs) (heapify cmp xs k)"
proof (induction k arbitrary: xs)
  case (Suc k)
  have "heap_from cmp k (length xs) (sift_down cmp (length xs) xs k)"
    using Suc.prems by (intro sift_down_heap) (auto simp: heap_from_def)
  with Suc.IH [of "sift_down cmp (length xs) xs k"] show ?case by simp
qed simp

lemma sift_up_heap:
  assumes "i < length xs"
    and "\<And>j. 0 < j \<Longrightarrow> j < length xs \<Longrightarrow> j \<noteq> i \<Longrightarrow> \<not> cmp (xs ! parent j) (xs ! j)"
    and "\<And>j. 0 < j \<Longrightarrow> j < length xs \<Longrightarrow> parent j = i \<Longrightarrow> 0 < i \<Longrightarrow> \<not> cmp (xs ! parent i) (xs ! j)"
  shows "heap_from cmp 0 (length xs) (sift_up cmp xs i)"
  using assms
proof (induction i arbitrary: xs rule: less_induct)
  case (less i)
  let ?p = "parent i"
  show ?case
  proof (cases "0 < i \<and> cmp (xs ! ?p) (xs ! i)")
    case True
    have p: "?p < i" "?p < length xs" using True less.prems(1) by auto
    have nth: "swap_at ?p i xs ! j = (if j = i then xs ! ?p else if j = ?p then xs ! i else xs ! j)" for j
      using less.prems(1) p by (simp add: nth_swap_at)
    have "heap_from cmp 0 (length (swap_at ?p i xs)) (sift_up cmp (swap_at ?p i xs) ?p)"
    proof (rule less.IH [OF p(1)])
      show "?p < length (swap_at ?p i xs)" using p by simp
    next
      fix j assume j: "0 < j" "j < length (swap_at ?p i xs)" "j \<noteq> ?p"
      show "\<not> cmp (swap_at ?p i xs ! parent j) (swap_at ?p i xs ! j)"
      proof (cases "j = i")
        case True
        then show ?thesis using asym \<open>0 < i \<and> cmp (xs ! ?p) (xs ! i)\<close> p(1) by (simp add: nth)
      next
        case False
        have le: "\<not> cmp (xs ! parent j) (xs ! j)" using less.prems(2) j False by simp
        show ?thesis
        proof (cases "parent j = ?p")
          case True
          have "\<not> cmp (xs ! i) (xs ! ?p)" using asym \<open>0 < i \<and> cmp (xs ! ?p) (xs ! i)\<close> by blast
          with le True have "\<not> cmp (xs ! i) (xs ! j)" using negtrans by metis
          then show ?thesis using True False j p(1) by (simp add: nth)
        next
          case False
          then show ?thesis
            using le less.prems(3) [of j] \<open>j \<noteq> i\<close> j \<open>0 < i \<and> cmp (xs ! ?p) (xs ! i)\<close> by (auto simp: nth)
        qed
      qed
    next
      fix j assume j: "0 < j" "j < length (swap_at ?p i xs)" "parent j = ?p" "0 < ?p"
      have gp: "\<not> cmp (xs ! parent ?p) (xs ! ?p)" using less.prems(2) [of ?p] p j by simp
      have lt: "parent ?p < ?p" using j(4) by auto
      have "j \<noteq> ?p" using j by auto
      show "\<not> cmp (swap_at ?p i xs ! parent ?p) (swap_at ?p i xs ! j)"
      proof (cases "j = i")
        case True
        then show ?thesis using gp lt p(1) by (simp add: nth)
      next
        case False
        then have "\<not> cmp (xs ! ?p) (xs ! j)" using less.prems(2) [of j] j by simp
        with gp have "\<not> cmp (xs ! parent ?p) (xs ! j)" by (rule negtrans)
        then show ?thesis using False lt p(1) \<open>j \<noteq> ?p\<close> by (simp add: nth)
      qed
    qed
    then show ?thesis using True by (subst sift_up.simps) simp
  next
    case False
    have "\<not> cmp (xs ! parent j) (xs ! j)" if "0 < j" "j < length xs" for j
      using less.prems(2) that False by (cases "j = i") auto
    then have "heap_from cmp 0 (length xs) xs" by (auto simp: heap_from_def)
    then show ?thesis using False by (subst sift_up.simps) auto
  qed
qed

lemma heap_front:
  assumes "heap_from cmp 0 (length xs) xs" "j < length xs"
  shows "\<not> cmp (xs ! 0) (xs ! j)"
  using assms(2)
proof (induction j rule: less_induct)
  case (less j)
  show ?case
  proof (cases "j = 0")
    case False
    then have "parent j < j" by auto
    then have "\<not> cmp (xs ! 0) (xs ! parent j)" using less by simp
    moreover have "\<not> cmp (xs ! parent j) (xs ! j)"
      using assms(1) less.prems False by (auto simp: heap_from_def)
    ultimately show ?thesis by (rule negtrans)
  qed (simp add: irrefl)
qed

text \<open>An element that does not belong before the front leaves the front in place.\<close>

lemma sift_up_front:
  assumes "0 < i" "i < length xs" "\<not> cmp (xs ! 0) (xs ! i)"
  shows "sift_up cmp xs i ! 0 = xs ! 0"
  using assms
proof (induction i arbitrary: xs rule: less_induct)
  case (less i)
  show ?case
  proof (cases "parent i = 0 \<or> \<not> cmp (xs ! parent i) (xs ! i)")
    case True
    then show ?thesis using less.prems by (subst sift_up.simps) auto
  next
    case False
    then have p: "0 < parent i" "parent i < i" "parent i < length xs" using less.prems by auto
    have nth: "swap_at (parent i) i xs ! 0 = xs ! 0" "swap_at (parent i) i xs ! parent i = xs ! i"
      using p less.prems(1,2) by (simp_all add: nth_swap_at)
    then have "sift_up cmp (swap_at (parent i) i xs) (parent i) ! 0 = xs ! 0"
      using less.IH [OF p(2,1), of "swap_at (parent i) i xs"] p(3) less.prems(3) by simp
    then show ?thesis using False less.prems(1) by (subst sift_up.simps) auto
  qed
qed

lemma push_heap_front:
  assumes "xs \<noteq> []" "\<not> cmp (hd xs) x"
  shows "hd (push_heap cmp (xs @ [x])) = hd xs"
proof -
  have "sift_up cmp (xs @ [x]) (length xs) ! 0 = hd xs"
    using sift_up_front [of "length xs" "xs @ [x]"] assms by (simp add: nth_append hd_conv_nth)
  moreover have "mset (sift_up cmp (xs @ [x]) (length xs)) = mset (xs @ [x])"
    by (rule mset_sift_up) simp
  then have "sift_up cmp (xs @ [x]) (length xs) \<noteq> []" by auto
  ultimately show ?thesis by (simp add: push_heap_def hd_conv_nth)
qed

end

section \<open>What the library promises\<close>

locale heap_ops =
  fixes cmp :: "'a \<Rightarrow> 'a \<Rightarrow> bool"
    and heap :: "'a list \<Rightarrow> bool"
    and push pop make :: "'a list \<Rightarrow> 'a list"
  assumes nil: "heap []"
    and front: "heap xs \<Longrightarrow> x \<in> set xs \<Longrightarrow> \<not> cmp (hd xs) x"
    and push: "heap xs \<Longrightarrow> heap (push (xs @ [x]))" "mset (push (xs @ [x])) = add_mset x (mset xs)"
    and pop: "heap xs \<Longrightarrow> xs \<noteq> [] \<Longrightarrow> heap (butlast (pop xs))"
      "xs \<noteq> [] \<Longrightarrow> pop xs \<noteq> [] \<and> last (pop xs) = hd xs \<and> mset (pop xs) = mset xs"
    and make: "heap (make xs)" "mset (make xs) = mset xs"
begin

lemma pop_rest: "xs \<noteq> [] \<Longrightarrow> add_mset (hd xs) (mset (butlast (pop xs))) = mset xs"
  using pop(2) [of xs] by (metis append_butlast_last_id mset_append mset_single_iff_right
      add_mset_add_single mset.simps)

lemma length_push: "length (push (xs @ [x])) = Suc (length xs)"
  using arg_cong [OF push(2) [of xs x], of size] by simp

lemma length_pop: "xs \<noteq> [] \<Longrightarrow> length (butlast (pop xs)) = length xs - 1"
  using arg_cong [OF pop_rest, of xs size] by simp

end

text \<open>Take the front \<open>k\<close> times.\<close>

fun take_fronts :: "('a list \<Rightarrow> 'a list) \<Rightarrow> nat \<Rightarrow> 'a list \<Rightarrow> 'a list" where
  "take_fronts pop 0 xs = []"
| "take_fronts pop (Suc k) xs = hd xs # take_fronts pop k (butlast (pop xs))"

context heap_ops
begin

lemma take_fronts_sorted:
  "heap xs \<Longrightarrow> length xs = k \<Longrightarrow>
     mset (take_fronts pop k xs) = mset xs \<and> sorted_wrt (\<lambda>a b. \<not> cmp a b) (take_fronts pop k xs)"
proof (induction k arbitrary: xs)
  case (Suc k)
  then have ne: "xs \<noteq> []" by auto
  let ?ys = "butlast (pop xs)"
  have ih: "mset (take_fronts pop k ?ys) = mset ?ys"
    "sorted_wrt (\<lambda>a b. \<not> cmp a b) (take_fronts pop k ?ys)"
    using Suc.IH [OF pop(1) [OF Suc.prems(1) ne]] length_pop [OF ne] Suc.prems(2) by simp_all
  have "set (take_fronts pop k ?ys) \<subseteq> set xs"
    using pop_rest [OF ne] ih(1) by (metis mset_subset_eqD subsetI set_mset_mset insertCI set_mset_add_mset_insert)
  then show ?case
    using front [OF Suc.prems(1)] ih pop_rest [OF ne] by auto
qed simp

end

sublocale weak_order \<subseteq> heap: heap_ops cmp "is_heap cmp" "push_heap cmp" "pop_heap cmp" "make_heap cmp"
proof unfold_locales
  show "is_heap cmp []" by (simp add: is_heap_def)
next
  fix xs x assume "is_heap cmp xs" "x \<in> set xs"
  then show "\<not> cmp (hd xs) x"
    using heap_front [of xs] by (metis hd_conv_nth in_set_conv_nth is_heap_from length_greater_0_conv length_pos_if_in_set)
next
  fix xs x
  show m: "mset (push_heap cmp (xs @ [x])) = add_mset x (mset xs)"
    by (simp add: push_heap_def mset_sift_up)
  assume h: "is_heap cmp xs"
  have len: "length (push_heap cmp (xs @ [x])) = length (xs @ [x])"
    using arg_cong [OF m, of size] by simp
  have "heap_from cmp 0 (length (xs @ [x])) (sift_up cmp (xs @ [x]) (length xs))"
  proof (rule sift_up_heap)
    fix j assume j: "0 < j" "j < length (xs @ [x])" "j \<noteq> length xs"
    then have "j < length xs" "parent j < length xs" by auto
    then show "\<not> cmp ((xs @ [x]) ! parent j) ((xs @ [x]) ! j)"
      using h j by (simp add: is_heap_from heap_from_def nth_append)
  next
    fix j assume "0 < j" "j < length (xs @ [x])" "parent j = length xs"
    then show "\<not> cmp ((xs @ [x]) ! parent (length xs)) ((xs @ [x]) ! j)" by auto
  qed simp
  then show "is_heap cmp (push_heap cmp (xs @ [x]))"
    using len by (simp add: is_heap_from push_heap_def)
next
  fix xs :: "'a list" assume ne: "xs \<noteq> []"
  let ?n = "length xs - 1"
  let ?ys = "swap_at 0 ?n xs"
  have n: "?n < length xs" "0 < length xs" using ne by simp_all
  have frame: "mset (pop_heap cmp xs) = mset ?ys" "pop_heap cmp xs ! ?n = ?ys ! ?n"
    using sift_down_frame [of ?n ?ys] by (simp_all add: pop_heap_def)
  have len: "length (pop_heap cmp xs) = length xs" by (simp add: pop_heap_def)
  have "last (pop_heap cmp xs) = hd xs"
  proof -
    have "pop_heap cmp xs \<noteq> []" using len ne by auto
    then show ?thesis using frame(2) len n ne by (simp add: last_conv_nth nth_swap_at hd_conv_nth)
  qed
  then show "pop_heap cmp xs \<noteq> [] \<and> last (pop_heap cmp xs) = hd xs \<and> mset (pop_heap cmp xs) = mset xs"
    using frame(1) len n ne by auto
  assume h: "is_heap cmp xs"
  have "heap_from cmp 0 ?n (sift_down cmp ?n ?ys 0)"
  proof (rule sift_down_heap)
    fix j assume "0 < j" "j < ?n" "parent j \<noteq> 0"
    then show "\<not> cmp (?ys ! parent j) (?ys ! j)"
      using h n by (auto simp: is_heap_from heap_from_def nth_swap_at)
  qed auto
  then show "is_heap cmp (butlast (pop_heap cmp xs))"
    using len by (auto simp: is_heap_from heap_from_def pop_heap_def nth_butlast)
next
  fix xs
  show m: "mset (make_heap cmp xs) = mset xs" by (simp add: make_heap_def mset_heapify)
  have "heap_from cmp (length xs div 2) (length xs) xs" by (auto simp: heap_from_def)
  then show "is_heap cmp (make_heap cmp xs)"
    using heapify_heap [of "length xs div 2" xs] mset_eq_length [OF m] by (simp add: is_heap_from make_heap_def)
qed

end
