(* ===== verification/EventScheduler.thy ===== *)
theory EventScheduler
  imports Std_Heap "HOL-Library.Signed_Division"
begin

text \<open>
  The event scheduler of \<open>newLibs/eventscheduler.cpp\<close>: a vector of events kept as a heap on the
  time they are due, callers that schedule and cancel, and a dispatcher thread that takes the
  first event out when it is due and hands it to the thread pool. Callers and dispatcher are
  program points; a critical section under \<open>queueLock\<close> (or \<open>idLock\<close>) is one step, and so is every
  access outside a lock. \<open>accepted\<close>, \<open>cancelled\<close>, \<open>fired\<close> and \<open>to_pool\<close> are history variables.
\<close>

section \<open>Events and their order\<close>

record timespec =
  tv_sec :: int
  tv_nsec :: int

record 'j event =
  ev_job :: 'j              \<comment> \<open>\<open>evFunction\<close> with its \<open>arg\<close>\<close>
  eventId :: int
  timeout :: timespec

definition chk_long :: "int \<Rightarrow> int res" where
  "chk_long i = (if - (2 ^ 63) \<le> i \<and> i < 2 ^ 63 then Inr i else Inl SignedOverflow)"

text \<open>The constructor of \<open>event\<close>; \<open>None\<close> is a failing \<open>clock_gettime\<close>.\<close>

definition event_new :: "'j \<Rightarrow> i32 \<Rightarrow> int \<Rightarrow> timespec option \<Rightarrow> 'j event res" where
  "event_new job ms eid clock = (case clock of
       None \<Rightarrow> Inl (ExitProcess 1)
     | Some currentTime \<Rightarrow>
         let timeoutSec = sint ms sdiv 1000 in
         rbind (chk_int (sint ms smod 1000 * 1000000)) (\<lambda>timeoutNSec.
         let (timeoutSec, timeoutNSec) =
           (if timeoutNSec > 1000000000
            then (timeoutSec + timeoutNSec sdiv 1000000000, timeoutNSec smod 1000000000)
            else (timeoutSec, timeoutNSec)) in
         rbind (chk_long (tv_nsec currentTime + timeoutNSec)) (\<lambda>nsec.
         rbind (chk_long (tv_sec currentTime + timeoutSec)) (\<lambda>sec.
         Inr \<lparr>ev_job = job, eventId = eid, timeout = \<lparr>tv_sec = sec, tv_nsec = nsec\<rparr>\<rparr>))))"

definition eventCompare :: "'j event \<Rightarrow> 'j event \<Rightarrow> bool" where
  "eventCompare a b =
     (let aTime = timeout a; bTime = timeout b in
      if tv_sec aTime > tv_sec bTime then True
      else if tv_sec aTime < tv_sec bTime then False
      else tv_nsec aTime > tv_nsec bTime)"

interpretation evq: weak_order "eventCompare :: 'j event \<Rightarrow> 'j event \<Rightarrow> bool"
  by unfold_locales (auto simp: eventCompare_def Let_def split: if_splits)

section \<open>State\<close>

datatype 'j dpc =
    DTest             \<comment> \<open>at the loop test, which reads \<open>terminate\<close> and \<open>numEvents\<close> without the lock\<close>
  | DTurn             \<comment> \<open>constructing \<open>uLock\<close>\<close>
  | DWait int         \<comment> \<open>in \<open>cv.wait_for\<close> with this many nanoseconds\<close>
  | DDispatch "'j event"   \<comment> \<open>after \<open>uLock.unlock()\<close>, calling the pool\<close>
  | DExit

datatype 'j cpc =
    CIdle
  | CTested 'j i32          \<comment> \<open>in \<open>eventSchedule\<close>, the limit tested\<close>
  | CHasId 'j i32 int       \<comment> \<open>the id taken\<close>
  | CHasEvent "'j event"    \<comment> \<open>the event built, at \<open>queueLock.lock()\<close>\<close>
  | CDone int               \<comment> \<open>returned\<close>

record 'j sched =
  nextId :: int
  maxEvents :: size_t
  evq :: "'j event list"    \<comment> \<open>\<open>queue\<close>\<close>
  terminating :: bool       \<comment> \<open>\<open>terminate\<close>\<close>
  numEvents :: "32 word"
  dpc :: "'j dpc"
  cpc :: "nat \<Rightarrow> 'j cpc"
  accepted :: "'j event list"
  cancelled :: "'j event list"
  fired :: "('j event \<times> timespec) list"
  to_pool :: "'j list"

definition EventScheduler_new :: "size_t \<Rightarrow> 'j sched" where
  "EventScheduler_new limit = \<lparr>nextId = 0, maxEvents = limit, evq = make_heap eventCompare [],
     terminating = False, numEvents = 0, dpc = DTest, cpc = (\<lambda>_. CIdle), accepted = [],
     cancelled = [], fired = [], to_pool = []\<rparr>"

section \<open>Operations\<close>

text \<open>The four parts of \<open>eventSchedule\<close>: the test, the id, the event, the insertion.\<close>

definition below_limit :: "'j sched \<Rightarrow> bool" where
  "below_limit s \<longleftrightarrow> ucast (numEvents s) < maxEvents s"

definition take_id :: "'j sched \<Rightarrow> (int \<times> 'j sched) res" where
  "take_id s = rbind (chk_int (nextId s + 1)) (\<lambda>i. Inr (nextId s, s\<lparr>nextId := i\<rparr>))"

definition insert_event :: "'j event \<Rightarrow> 'j sched \<Rightarrow> 'j sched" where
  "insert_event newEvent s = s\<lparr>numEvents := numEvents s + 1,
     evq := push_heap eventCompare (evq s @ [newEvent]), accepted := accepted s @ [newEvent]\<rparr>"

text \<open>A caller alone.\<close>

definition eventSchedule :: "'j \<Rightarrow> i32 \<Rightarrow> timespec option \<Rightarrow> 'j sched \<Rightarrow> (int \<times> 'j sched) res" where
  "eventSchedule job ms clock s =
     (if below_limit s then
        rbind (take_id s) (\<lambda>(eid, s).
        rbind (event_new job ms eid clock) (\<lambda>newEvent.
        Inr (eid, insert_event newEvent s)))
      else Inr (-1, s))"

text \<open>One step of caller \<open>t\<close> inside \<open>eventSchedule\<close>; \<open>None\<close>: it is not inside.\<close>

definition cgoto :: "nat \<Rightarrow> 'j cpc \<Rightarrow> 'j sched \<Rightarrow> 'j sched" where
  "cgoto t l s = s\<lparr>cpc := (cpc s)(t := l)\<rparr>"

definition begin_schedule :: "nat \<Rightarrow> 'j \<Rightarrow> i32 \<Rightarrow> 'j sched \<Rightarrow> 'j sched option" where
  "begin_schedule t job ms s = (case cpc s t of
       CIdle \<Rightarrow> Some (cgoto t (if below_limit s then CTested job ms else CDone (-1)) s)
     | _ \<Rightarrow> None)"

definition caller_step :: "timespec option \<Rightarrow> nat \<Rightarrow> 'j sched \<Rightarrow> 'j sched res option" where
  "caller_step clock t s = (case cpc s t of
       CIdle \<Rightarrow> None
     | CTested job ms \<Rightarrow> Some (rbind (take_id s) (\<lambda>(eid, s). Inr (cgoto t (CHasId job ms eid) s)))
     | CHasId job ms eid \<Rightarrow>
         Some (rbind (event_new job ms eid clock) (\<lambda>e. Inr (cgoto t (CHasEvent e) s)))
     | CHasEvent e \<Rightarrow> Some (Inr (cgoto t (CDone (eventId e)) (insert_event e s)))
     | CDone r \<Rightarrow> Some (Inr (cgoto t CIdle s)))"

fun erase_first :: "int \<Rightarrow> 'j event list \<Rightarrow> ('j event \<times> 'j event list) option" where
  "erase_first eid [] = None"
| "erase_first eid (e # es) =
     (if eventId e = eid then Some (e, es)
      else case erase_first eid es of None \<Rightarrow> None | Some (x, r) \<Rightarrow> Some (x, e # r))"

definition eventCancel :: "int \<Rightarrow> 'j sched \<Rightarrow> 'j sched" where
  "eventCancel eid s = (case erase_first eid (evq s) of
       None \<Rightarrow> s
     | Some (e, rest) \<Rightarrow> s\<lparr>evq := make_heap eventCompare rest, numEvents := numEvents s - 1,
                          cancelled := cancelled s @ [e]\<rparr>)"

text \<open>The destructor up to \<open>pthread_join\<close>, which returns when the dispatcher is at \<open>DExit\<close>.\<close>

definition EventScheduler_destroy :: "'j sched \<Rightarrow> 'j sched" where
  "EventScheduler_destroy s = s\<lparr>terminating := True\<rparr>"

text \<open>The critical section of one turn of \<open>execute\<close>, with the time read in it.\<close>

definition diff_nsec :: "timespec \<Rightarrow> timespec \<Rightarrow> int res" where
  "diff_nsec current next =
     rbind (chk_long (tv_sec current - tv_sec next)) (\<lambda>d.
     rbind (chk_long (d * 1000000000)) (\<lambda>d.
     rbind (chk_long (tv_nsec current - tv_nsec next)) (\<lambda>r. chk_long (d + r))))"

definition turn :: "timespec \<Rightarrow> 'j sched \<Rightarrow> 'j sched res" where
  "turn current s = (case evq s of
       [] \<Rightarrow> Inr (s\<lparr>dpc := DWait 1\<rparr>)
     | myEvent # _ \<Rightarrow>
         let rest = butlast (pop_heap eventCompare (evq s)) in
         rbind (diff_nsec current (timeout myEvent)) (\<lambda>differenceNsec.
         if differenceNsec < 0 then
           Inr (s\<lparr>evq := push_heap eventCompare (rest @ [myEvent]), dpc := DWait (- differenceNsec)\<rparr>)
         else
           Inr (s\<lparr>evq := rest, numEvents := numEvents s - 1, fired := fired s @ [(myEvent, current)],
                  dpc := DDispatch myEvent\<rparr>)))"

definition dispatcher_step :: "timespec \<Rightarrow> 'j sched \<Rightarrow> 'j sched res option" where
  "dispatcher_step current s = (case dpc s of
       DTest \<Rightarrow> Some (Inr (s\<lparr>dpc := if \<not> terminating s \<or> numEvents s > 0 then DTurn else DExit\<rparr>))
     | DTurn \<Rightarrow> Some (turn current s)
     | DWait d \<Rightarrow> Some (Inr (s\<lparr>dpc := DTest\<rparr>))
     | DDispatch e \<Rightarrow> Some (Inr (s\<lparr>to_pool := to_pool s @ [ev_job e], dpc := DTest\<rparr>))
     | DExit \<Rightarrow> None)"

text \<open>What \<open>clock_gettime\<close> returns: nanoseconds within a second, before the year 2106.\<close>

definition valid_clock :: "timespec \<Rightarrow> bool" where
  "valid_clock t \<longleftrightarrow> 0 \<le> tv_sec t \<and> tv_sec t < 2 ^ 32 \<and> 0 \<le> tv_nsec t \<and> tv_nsec t < 1000000000"

text \<open>Any step of the scheduler with \<open>n\<close> calling threads.\<close>

inductive es_step :: "nat \<Rightarrow> 'j sched \<Rightarrow> 'j sched \<Rightarrow> bool" for n where
  dispatcher: "valid_clock now \<Longrightarrow> dispatcher_step now s = Some (Inr s') \<Longrightarrow> es_step n s s'"
| call: "t < n \<Longrightarrow> begin_schedule t job ms s = Some s' \<Longrightarrow> es_step n s s'"
| caller: "t < n \<Longrightarrow> valid_clock now \<Longrightarrow> caller_step (Some now) t s = Some (Inr s') \<Longrightarrow> es_step n s s'"
| cancel: "es_step n s (eventCancel eid s)"
| destroy: "es_step n s (EventScheduler_destroy s)"

definition es_reach :: "nat \<Rightarrow> size_t \<Rightarrow> 'j sched \<Rightarrow> bool" where
  "es_reach n limit s \<longleftrightarrow> (es_step n)\<^sup>*\<^sup>* (EventScheduler_new limit) s"

inductive_cases es_stepE: "es_step n s s'"

section \<open>Time\<close>

definition nsecs :: "timespec \<Rightarrow> int" where
  "nsecs t = tv_sec t * 1000000000 + tv_nsec t"

text \<open>An event as the constructor leaves it: the nanoseconds are not reduced below a second.\<close>

definition event_time_ok :: "'j event \<Rightarrow> bool" where
  "event_time_ok e \<longleftrightarrow> - 2147484 < tv_sec (timeout e) \<and> tv_sec (timeout e) < 2 ^ 32 + 2147484
     \<and> - 1000000000 < tv_nsec (timeout e) \<and> tv_nsec (timeout e) < 2 * 1000000000"

lemma sdiv_1000: "(i :: int) sdiv 1000 = (if 0 \<le> i then i div 1000 else - (- i div 1000))"
  "(i :: int) smod 1000 = (if 0 \<le> i then i mod 1000 else - (- i mod 1000))"
  by (auto simp: signed_divide_int_def signed_modulo_int_def sgn_if)

lemma ms_parts:
  fixes ms :: i32
  shows "- 2147484 < sint ms sdiv 1000" "sint ms sdiv 1000 < 2147484"
    "- 1000 < sint ms smod 1000" "sint ms smod 1000 < 1000"
    "sint ms sdiv 1000 * 1000 + sint ms smod 1000 = sint ms"
    "0 \<le> sint ms \<Longrightarrow> 0 \<le> sint ms smod 1000"
proof -
  show "sint ms sdiv 1000 * 1000 + sint ms smod 1000 = sint ms" by (rule sdiv_mult_smod_eq)
qed (use sint_i32_bounds [of ms] in \<open>auto simp: sdiv_1000 split: if_splits\<close>)

text \<open>The test for a full second of nanoseconds never holds, and nothing overflows.\<close>

lemma event_new_eq:
  assumes "valid_clock now"
  shows "event_new job ms eid (Some now) = Inr \<lparr>ev_job = job, eventId = eid,
    timeout = \<lparr>tv_sec = tv_sec now + sint ms sdiv 1000,
               tv_nsec = tv_nsec now + sint ms smod 1000 * 1000000\<rparr>\<rparr>"
proof -
  have "chk_int (sint ms smod 1000 * 1000000) = Inr (sint ms smod 1000 * 1000000)"
    "\<not> sint ms smod 1000 * 1000000 > 1000000000"
    using ms_parts(3,4) [of ms] by (auto intro!: chk_int_ok)
  moreover have "chk_long (tv_nsec now + sint ms smod 1000 * 1000000)
      = Inr (tv_nsec now + sint ms smod 1000 * 1000000)"
    "chk_long (tv_sec now + sint ms sdiv 1000) = Inr (tv_sec now + sint ms sdiv 1000)"
    using ms_parts(1-4) [of ms] assms by (auto simp: chk_long_def valid_clock_def)
  ultimately show ?thesis by (simp add: event_new_def Let_def)
qed

lemma event_new_time:
  assumes "valid_clock now" "event_new job ms eid (Some now) = Inr e"
  shows "event_time_ok e" "nsecs (timeout e) = nsecs now + sint ms * 1000000" "eventId e = eid"
    "0 \<le> sint ms \<Longrightarrow> 0 \<le> tv_nsec (timeout e)"
proof -
  have e: "eventId e = eid" "tv_sec (timeout e) = tv_sec now + sint ms sdiv 1000"
    "tv_nsec (timeout e) = tv_nsec now + sint ms smod 1000 * 1000000"
    using assms(2) unfolding event_new_eq [OF assms(1)] by auto
  then show "event_time_ok e" "0 \<le> sint ms \<Longrightarrow> 0 \<le> tv_nsec (timeout e)"
    using ms_parts [of ms] assms(1) by (auto simp: event_time_ok_def valid_clock_def)
  have "(sint ms sdiv 1000 * 1000 + sint ms smod 1000) * 1000000 = sint ms * 1000000"
    unfolding ms_parts(5) ..
  then show "nsecs (timeout e) = nsecs now + sint ms * 1000000"
    by (simp add: nsecs_def e algebra_simps)
  show "eventId e = eid" by (rule e)
qed

lemma diff_nsec_eq:
  assumes "valid_clock now" "event_time_ok e"
  shows "diff_nsec now (timeout e) = Inr (nsecs now - nsecs (timeout e))"
  using assms by (auto simp: diff_nsec_def chk_long_def valid_clock_def event_time_ok_def nsecs_def algebra_simps)

text \<open>The order of the heap against the order of time: the first event is due less than a
  second after any other one, and not after it when all nanoseconds are below a second.\<close>

lemma compare_nsecs:
  assumes "\<not> eventCompare a b" "event_time_ok a" "event_time_ok b"
  shows "nsecs (timeout a) < nsecs (timeout b) + 2 * 1000000000"
    "0 \<le> tv_nsec (timeout b) \<Longrightarrow> nsecs (timeout a) < nsecs (timeout b) + 1000000000"
    "0 \<le> tv_nsec (timeout b) \<Longrightarrow> tv_nsec (timeout a) < 1000000000 \<Longrightarrow>
       nsecs (timeout a) \<le> nsecs (timeout b)"
  using assms by (auto simp: eventCompare_def event_time_ok_def nsecs_def Let_def split: if_splits)

section \<open>One turn of the dispatcher\<close>

lemma evq_front: "is_heap eventCompare (e # q) \<Longrightarrow> x \<in> set (e # q) \<Longrightarrow> \<not> eventCompare e x"
  using evq.heap.front [of "e # q" x] by simp

lemma turn_front:
  assumes "valid_clock now" "evq s = e # q" "event_time_ok e"
  shows "turn now s =
    (let rest = butlast (pop_heap eventCompare (e # q)) in
     if nsecs now < nsecs (timeout e)
     then Inr (s\<lparr>evq := push_heap eventCompare (rest @ [e]), dpc := DWait (nsecs (timeout e) - nsecs now)\<rparr>)
     else Inr (s\<lparr>evq := rest, numEvents := numEvents s - 1, fired := fired s @ [(e, now)],
                 dpc := DDispatch e\<rparr>))"
  using assms(2) diff_nsec_eq [OF assms(1,3)] by (simp add: turn_def Let_def)

lemma pop_front:
  "is_heap eventCompare (e # q) \<Longrightarrow> is_heap eventCompare (butlast (pop_heap eventCompare (e # q)))"
  "mset (butlast (pop_heap eventCompare (e # q))) = mset q"
  using evq.heap.pop(1) [of "e # q"] evq.heap.pop_rest [of "e # q"] by simp_all

section \<open>The invariant\<close>

fun held :: "'j cpc \<Rightarrow> int option" where
  "held (CHasId job ms eid) = Some eid" | "held (CHasEvent e) = Some (eventId e)" | "held l = None"

fun inside :: "'j cpc \<Rightarrow> bool" where
  "inside CIdle = False" | "inside (CDone r) = False" | "inside l = True"

definition queue_inv :: "'j sched \<Rightarrow> bool" where
  "queue_inv s \<longleftrightarrow> is_heap eventCompare (evq s) \<and> numEvents s = word_of_nat (length (evq s))"

definition id_inv :: "nat \<Rightarrow> 'j sched \<Rightarrow> bool" where
  "id_inv n s \<longleftrightarrow> 0 \<le> nextId s \<and> distinct (map eventId (accepted s))
     \<and> (\<forall>e\<in>set (accepted s). 0 \<le> eventId e \<and> eventId e < nextId s)
     \<and> (\<forall>t<n. \<forall>i. held (cpc s t) = Some i \<longrightarrow> 0 \<le> i \<and> i < nextId s \<and> i \<notin> eventId ` set (accepted s))
     \<and> (\<forall>t<n. \<forall>t'<n. t \<noteq> t' \<longrightarrow> held (cpc s t) \<noteq> None \<longrightarrow> held (cpc s t) \<noteq> held (cpc s t'))"

definition account_inv :: "'j sched \<Rightarrow> bool" where
  "account_inv s \<longleftrightarrow> mset (evq s) + mset (cancelled s) + mset (map fst (fired s)) = mset (accepted s)"

definition time_inv :: "nat \<Rightarrow> 'j sched \<Rightarrow> bool" where
  "time_inv n s \<longleftrightarrow> (\<forall>e\<in>set (accepted s). event_time_ok e)
     \<and> (\<forall>t<n. \<forall>e. cpc s t = CHasEvent e \<longrightarrow> event_time_ok e)
     \<and> (\<forall>(e, t)\<in>set (fired s). nsecs (timeout e) \<le> nsecs t)"

fun dispatching :: "'j dpc \<Rightarrow> 'j list" where
  "dispatching (DDispatch e) = [ev_job e]" | "dispatching l = []"

definition out_inv :: "'j sched \<Rightarrow> bool" where
  "out_inv s \<longleftrightarrow> map (\<lambda>(e, t). ev_job e) (fired s) = to_pool s @ dispatching (dpc s)"

text \<open>What each operation does to the parts of the state, for all invariants.\<close>

lemma erase_first_Some:
  "erase_first eid es = Some (e, rest) \<Longrightarrow>
     eventId e = eid \<and> mset es = add_mset e (mset rest) \<and> length es = Suc (length rest)"
  by (induction es arbitrary: rest) (auto split: if_splits option.splits)

lemma erase_first_None: "erase_first eid es = None \<longleftrightarrow> eid \<notin> eventId ` set es"
  by (induction es) (auto split: option.splits)

lemma take_id_Inr:
  "take_id s = Inr (eid, s') \<longleftrightarrow> eid = nextId s \<and> - (2 ^ 31) \<le> nextId s + 1 \<and> nextId s + 1 < 2 ^ 31
     \<and> s' = s\<lparr>nextId := nextId s + 1\<rparr>"
  by (auto simp: take_id_def chk_int_def split: if_splits)

lemma caller_step_cases:
  assumes "caller_step clock t s = Some (Inr s')"
  obtains (take) job ms where "cpc s t = CTested job ms"
      "s' = cgoto t (CHasId job ms (nextId s)) (s\<lparr>nextId := nextId s + 1\<rparr>)" "nextId s + 1 < 2 ^ 31"
  | (build) job ms eid e where "cpc s t = CHasId job ms eid" "event_new job ms eid clock = Inr e"
      "s' = cgoto t (CHasEvent e) s"
  | (insert) e where "cpc s t = CHasEvent e" "s' = cgoto t (CDone (eventId e)) (insert_event e s)"
  | (return) r where "cpc s t = CDone r" "s' = cgoto t CIdle s"
  using assms
  by (cases "cpc s t") (auto simp: caller_step_def res_simps take_id_Inr)

lemma dispatcher_step_cases:
  assumes "dispatcher_step now s = Some (Inr s')"
  obtains (test) "dpc s = DTest"
      "s' = s\<lparr>dpc := if \<not> terminating s \<or> numEvents s > 0 then DTurn else DExit\<rparr>"
  | (turn) "dpc s = DTurn" "turn now s = Inr s'"
  | (woken) d where "dpc s = DWait d" "s' = s\<lparr>dpc := DTest\<rparr>"
  | (hand) e where "dpc s = DDispatch e" "s' = s\<lparr>to_pool := to_pool s @ [ev_job e], dpc := DTest\<rparr>"
  using assms by (cases "dpc s") (auto simp: dispatcher_step_def)

lemma turn_cases:
  assumes "turn now s = Inr s'"
  obtains (empty) "evq s = []" "s' = s\<lparr>dpc := DWait 1\<rparr>"
  | (early) e q d where "evq s = e # q" "diff_nsec now (timeout e) = Inr d" "d < 0"
      "s' = s\<lparr>evq := push_heap eventCompare (butlast (pop_heap eventCompare (e # q)) @ [e]), dpc := DWait (- d)\<rparr>"
  | (due) e q d where "evq s = e # q" "diff_nsec now (timeout e) = Inr d" "\<not> d < 0"
      "s' = s\<lparr>evq := butlast (pop_heap eventCompare (e # q)), numEvents := numEvents s - 1,
             fired := fired s @ [(e, now)], dpc := DDispatch e\<rparr>"
proof (cases "evq s")
  case Nil
  then show thesis using empty assms by (simp add: turn_def)
next
  case (Cons e q)
  then obtain d where "diff_nsec now (timeout e) = Inr d"
    using assms by (auto simp: turn_def Let_def res_simps)
  then show thesis
    using Cons early [of e q d] due [of e q d] assms by (cases "d < 0") (simp_all add: turn_def Let_def)
qed

lemmas es_defs = begin_schedule_def cgoto_def insert_event_def EventScheduler_destroy_def

lemma begin_schedule_eq:
  assumes "begin_schedule t job ms s = Some s'"
  shows "cpc s t = CIdle" "s' = cgoto t (if below_limit s then CTested job ms else CDone (-1)) s"
  using assms by (cases "cpc s t"; simp add: begin_schedule_def)+

lemma eventCancel_cases:
  obtains (none) "eid \<notin> eventId ` set (evq s)" "eventCancel eid s = s"
  | (some) e rest where "eventId e = eid" "mset (evq s) = add_mset e (mset rest)"
      "length (evq s) = Suc (length rest)"
      "eventCancel eid s = s\<lparr>evq := make_heap eventCompare rest, numEvents := numEvents s - 1,
                             cancelled := cancelled s @ [e]\<rparr>"
proof (cases "erase_first eid (evq s)")
  case None
  with that(1) show thesis by (auto simp: eventCancel_def erase_first_None)
next
  case (Some p)
  with that(2) erase_first_Some [of eid "evq s"] show thesis
    by (cases p) (auto simp: eventCancel_def)
qed

subsection \<open>The queue is a heap and \<open>numEvents\<close> its length\<close>

lemma queue_inv_insert: "queue_inv s \<Longrightarrow> queue_inv (insert_event e s)"
  by (simp add: queue_inv_def insert_event_def evq.heap.push(1) evq.heap.length_push)

lemma queue_inv_turn: "queue_inv s \<Longrightarrow> turn now s = Inr s' \<Longrightarrow> queue_inv s'"
proof (erule turn_cases)
  fix e q d assume a: "queue_inv s" "evq s = e # q"
    "s' = s\<lparr>evq := push_heap eventCompare (butlast (pop_heap eventCompare (e # q)) @ [e]), dpc := DWait (- d)\<rparr>"
  then show "queue_inv s'"
    using pop_front(1) [of e q] evq.heap.length_pop [of "e # q"]
    by (simp add: queue_inv_def evq.heap.push(1) evq.heap.length_push)
next
  fix e q d assume a: "queue_inv s" "evq s = e # q"
    "s' = s\<lparr>evq := butlast (pop_heap eventCompare (e # q)), numEvents := numEvents s - 1,
             fired := fired s @ [(e, now)], dpc := DDispatch e\<rparr>"
  then show "queue_inv s'"
    using pop_front(1) [of e q] evq.heap.length_pop [of "e # q"] by (simp add: queue_inv_def)
qed (simp add: queue_inv_def)

lemma queue_inv_cancel: "queue_inv s \<Longrightarrow> queue_inv (eventCancel eid s)"
  by (rule eventCancel_cases [of eid s])
    (auto simp: queue_inv_def evq.heap.make(1) mset_eq_length [OF evq.heap.make(2)])

lemma queue_inv_step:
  assumes "es_step n s s'" "queue_inv s"
  shows "queue_inv s'"
  using assms(1)
proof (cases rule: es_step.cases)
  case (dispatcher now)
  from dispatcher(2) assms(2) show ?thesis
    by (elim dispatcher_step_cases) (auto simp: queue_inv_turn, auto simp: queue_inv_def)
next
  case (call t job ms)
  then show ?thesis using assms(2) begin_schedule_eq(2) [OF call(2)] by (simp add: queue_inv_def cgoto_def)
next
  case (caller t now)
  from caller(3) assms(2) show ?thesis
    by (elim caller_step_cases) (use queue_inv_insert in \<open>auto simp: queue_inv_def cgoto_def\<close>)
next
  case (cancel eid)
  then show ?thesis using assms(2) queue_inv_cancel by simp
next
  case destroy
  then show ?thesis using assms(2) by (simp add: queue_inv_def EventScheduler_destroy_def)
qed

subsection \<open>Ids are unique\<close>

lemma id_inv_cgoto:
  assumes "id_inv n s" "held l = None"
  shows "id_inv n (cgoto t l s)"
  using assms by (auto simp: id_inv_def cgoto_def)

lemma id_inv_take:
  assumes "id_inv n s" "held (cpc s t) = None"
  shows "id_inv n (cgoto t (CHasId job ms (nextId s)) (s\<lparr>nextId := nextId s + 1\<rparr>))"
  using assms by (fastforce simp: id_inv_def cgoto_def)

lemma id_inv_build:
  assumes "id_inv n s" "held (cpc s t) = Some (eventId e)"
  shows "id_inv n (cgoto t (CHasEvent e) s)"
proof -
  have "held (cpc (cgoto t (CHasEvent e) s) u) = held (cpc s u)" for u
    using assms(2) by (simp add: cgoto_def)
  moreover have "nextId (cgoto t (CHasEvent e) s) = nextId s" "accepted (cgoto t (CHasEvent e) s) = accepted s"
    by (simp_all add: cgoto_def)
  ultimately show ?thesis using assms(1) unfolding id_inv_def by presburger
qed

lemma id_inv_insert:
  assumes "id_inv n s" "t < n" "held (cpc s t) = Some (eventId e)"
  shows "id_inv n (cgoto t (CDone r) (insert_event e s))"
proof -
  have e: "0 \<le> eventId e" "eventId e < nextId s" "eventId e \<notin> eventId ` set (accepted s)"
    using assms unfolding id_inv_def by blast+
  have "held (cpc s u) \<noteq> Some (eventId e)" if "u < n" "u \<noteq> t" for u
    using assms that unfolding id_inv_def by (metis option.distinct(1))
  then show ?thesis
    using assms(1) e by (auto simp: id_inv_def cgoto_def insert_event_def)
qed

lemma id_inv_same:
  "id_inv n s \<Longrightarrow> nextId s' = nextId s \<Longrightarrow> accepted s' = accepted s \<Longrightarrow> cpc s' = cpc s \<Longrightarrow> id_inv n s'"
  by (simp add: id_inv_def)

lemma turn_same:
  "turn now s = Inr s' \<Longrightarrow> nextId s' = nextId s \<and> accepted s' = accepted s \<and> cpc s' = cpc s
     \<and> cancelled s' = cancelled s \<and> to_pool s' = to_pool s \<and> maxEvents s' = maxEvents s
     \<and> terminating s' = terminating s"
  by (erule turn_cases) simp_all

lemma dispatcher_same:
  "dispatcher_step now s = Some (Inr s') \<Longrightarrow> nextId s' = nextId s \<and> accepted s' = accepted s
     \<and> cpc s' = cpc s \<and> cancelled s' = cancelled s \<and> maxEvents s' = maxEvents s
     \<and> terminating s' = terminating s"
  by (erule dispatcher_step_cases) (simp_all add: turn_same)

lemma cancel_same:
  "nextId (eventCancel eid s) = nextId s" "accepted (eventCancel eid s) = accepted s"
  "cpc (eventCancel eid s) = cpc s" "fired (eventCancel eid s) = fired s"
  "dpc (eventCancel eid s) = dpc s" "to_pool (eventCancel eid s) = to_pool s"
  "maxEvents (eventCancel eid s) = maxEvents s"
  by (rule eventCancel_cases [of eid s]; simp)+

lemma id_inv_step:
  assumes "es_step n s s'" "id_inv n s"
  shows "id_inv n s'"
  using assms(1)
proof (cases rule: es_step.cases)
  case (dispatcher now)
  then show ?thesis using dispatcher_same [OF dispatcher(2)] id_inv_same [OF assms(2)] by simp
next
  case (call t job ms)
  have "held (if below_limit s then CTested job ms else CDone (-1)) = None" by simp
  then show ?thesis using begin_schedule_eq(2) [OF call(2)] id_inv_cgoto [OF assms(2)] by simp
next
  case (caller t now)
  from caller(3) show ?thesis
  proof (cases rule: caller_step_cases)
    case (take job ms)
    then show ?thesis using id_inv_take [OF assms(2)] by simp
  next
    case (build job ms eid e)
    then show ?thesis
      using id_inv_build [OF assms(2), of t e] event_new_time(3) [OF caller(2) build(2)] by simp
  next
    case (insert e)
    then show ?thesis using id_inv_insert [OF assms(2) caller(1)] by simp
  next
    case (return r)
    then show ?thesis using id_inv_cgoto [OF assms(2)] by simp
  qed
next
  case (cancel eid)
  then show ?thesis using id_inv_same [OF assms(2)] by (simp add: cancel_same)
next
  case destroy
  then show ?thesis using id_inv_same [OF assms(2)] by (simp add: EventScheduler_destroy_def)
qed

subsection \<open>Every event is queued, cancelled or fired\<close>

lemma account_turn:
  assumes "turn now s = Inr s'" "account_inv s"
  shows "account_inv s'"
  using assms(1)
proof (cases rule: turn_cases)
  case (early e q d)
  have "mset (evq s') = mset (evq s)"
    using early by (simp add: evq.heap.push(2) pop_front(2))
  then show ?thesis using early assms(2) by (simp add: account_inv_def)
next
  case (due e q d)
  then show ?thesis using assms(2) by (simp add: account_inv_def pop_front(2))
qed (use assms(2) in \<open>simp add: account_inv_def\<close>)

lemma account_step:
  assumes "es_step n s s'" "account_inv s"
  shows "account_inv s'"
  using assms(1)
proof (cases rule: es_step.cases)
  case (dispatcher now)
  from dispatcher(2) assms(2) show ?thesis
    by (elim dispatcher_step_cases) (auto simp: account_turn, auto simp: account_inv_def)
next
  case (call t job ms)
  then show ?thesis using assms(2) begin_schedule_eq(2) [OF call(2)] by (simp add: account_inv_def cgoto_def)
next
  case (caller t now)
  from caller(3) assms(2) show ?thesis
    by (elim caller_step_cases)
      (auto simp: account_inv_def cgoto_def insert_event_def evq.heap.push(2))
next
  case (cancel eid)
  then show ?thesis
    using assms(2) by (cases rule: eventCancel_cases [of eid s])
      (auto simp: account_inv_def evq.heap.make(2))
next
  case destroy
  then show ?thesis using assms(2) by (simp add: account_inv_def EventScheduler_destroy_def)
qed

subsection \<open>Nothing is fired before its time\<close>

lemma account_accepted: "account_inv s \<Longrightarrow> set (evq s) \<subseteq> set (accepted s)"
  unfolding account_inv_def by (metis Un_upper1 le_supI1 set_mset_mset set_mset_union)

lemma time_turn:
  assumes "turn now s = Inr s'" "valid_clock now" "time_inv n s" "account_inv s"
  shows "time_inv n s'"
  using assms(1)
proof (cases rule: turn_cases)
  case (due e q d)
  have "event_time_ok e"
    using account_accepted [OF assms(4)] assms(3) due(1) by (auto simp: time_inv_def)
  then have "nsecs (timeout e) \<le> nsecs now"
    using diff_nsec_eq [OF assms(2), of e] due(2,3) by simp
  then show ?thesis using due assms(3) by (auto simp: time_inv_def)
qed (use assms(3) in \<open>simp_all add: time_inv_def\<close>)

lemma time_step:
  assumes "es_step n s s'" "time_inv n s" "account_inv s"
  shows "time_inv n s'"
  using assms(1)
proof (cases rule: es_step.cases)
  case (dispatcher now)
  from dispatcher(2) show ?thesis
    using time_turn [OF _ dispatcher(1) assms(2,3)] assms(2)
    by (cases rule: dispatcher_step_cases) (simp_all add: time_inv_def)
next
  case (call t job ms)
  then show ?thesis using assms(2) begin_schedule_eq(2) [OF call(2)] by (simp add: time_inv_def cgoto_def)
next
  case (caller t now)
  from caller(3) show ?thesis
    using assms(2) event_new_time(1) [OF caller(2)] caller(1)
    by (cases rule: caller_step_cases) (auto simp: time_inv_def cgoto_def insert_event_def)
next
  case (cancel eid)
  then show ?thesis using assms(2) by (simp add: time_inv_def cancel_same)
next
  case destroy
  then show ?thesis using assms(2) by (simp add: time_inv_def EventScheduler_destroy_def)
qed

lemma out_step:
  assumes "es_step n s s'" "out_inv s"
  shows "out_inv s'"
  using assms(1)
proof (cases rule: es_step.cases)
  case (dispatcher now)
  from dispatcher(2) show ?thesis
  proof (cases rule: dispatcher_step_cases)
    case turn
    from turn(2) show ?thesis
      using assms(2) turn(1) by (cases rule: turn_cases) (simp_all add: out_inv_def)
  qed (use assms(2) in \<open>simp_all add: out_inv_def\<close>)
next
  case (call t job ms)
  then show ?thesis using assms(2) begin_schedule_eq(2) [OF call(2)] by (simp add: out_inv_def cgoto_def)
next
  case (caller t now)
  from caller(3) assms(2) show ?thesis
    by (elim caller_step_cases) (auto simp: out_inv_def cgoto_def insert_event_def)
next
  case (cancel eid)
  then show ?thesis using assms(2) by (simp add: out_inv_def cancel_same)
next
  case destroy
  then show ?thesis using assms(2) by (simp add: out_inv_def EventScheduler_destroy_def)
qed

definition es_inv :: "nat \<Rightarrow> 'j sched \<Rightarrow> bool" where
  "es_inv n s \<longleftrightarrow> queue_inv s \<and> id_inv n s \<and> account_inv s \<and> time_inv n s \<and> out_inv s"

lemma es_inv_step: "es_step n s s' \<Longrightarrow> es_inv n s \<Longrightarrow> es_inv n s'"
  unfolding es_inv_def using queue_inv_step id_inv_step account_step time_step out_step by blast

lemma es_inv_init: "es_inv n (EventScheduler_new limit)"
  by (simp add: es_inv_def EventScheduler_new_def queue_inv_def id_inv_def account_inv_def
      time_inv_def out_inv_def make_heap_def is_heap_def)

lemma es_reach_inv: "es_reach n limit s \<Longrightarrow> es_inv n s"
  unfolding es_reach_def
  by (induction rule: rtranclp_induct) (auto intro: es_inv_step es_inv_init)

subsection \<open>How far the limit can be exceeded\<close>

text \<open>The limit is tested outside the locks, so callers that have all passed the test can each
  add an event.\<close>

definition busy_callers :: "nat \<Rightarrow> 'j sched \<Rightarrow> nat" where
  "busy_callers n s = (\<Sum>t<n. of_bool (inside (cpc s t)))"

definition limit_inv :: "nat \<Rightarrow> 'j sched \<Rightarrow> bool" where
  "limit_inv n s \<longleftrightarrow> length (evq s) + busy_callers n s \<le> unat (maxEvents s) + (n - 1)"

lemma busy_callers_cgoto:
  "t < n \<Longrightarrow> busy_callers n (cgoto t l s) + of_bool (inside (cpc s t)) = busy_callers n s + of_bool (inside l)"
  using sum_fun_upd [of t n "\<lambda>l. of_bool (inside l) :: nat" "cpc s" l]
  by (simp add: busy_callers_def cgoto_def)

lemma busy_callers_le: "busy_callers n s \<le> n"
proof -
  have "busy_callers n s \<le> (\<Sum>t<n. 1)" unfolding busy_callers_def by (rule sum_mono) simp
  then show ?thesis by simp
qed

lemma below_limit_iff:
  assumes "queue_inv s" "length (evq s) < 2 ^ 32"
  shows "below_limit s \<longleftrightarrow> length (evq s) < unat (maxEvents s)"
proof -
  have "unat (numEvents s) = length (evq s)"
    using assms by (simp add: queue_inv_def unsigned_of_nat take_bit_nat_eq_self)
  then have "unat (ucast (numEvents s) :: size_t) = length (evq s)"
    using assms(2) by (simp add: unsigned_ucast_eq take_bit_nat_eq_self)
  then show ?thesis by (simp add: below_limit_def word_less_nat_alt)
qed

lemma limit_step:
  assumes "es_step n s s'" "limit_inv n s" "queue_inv s" "unat (maxEvents s) + n \<le> 2 ^ 32"
  shows "limit_inv n s' \<and> maxEvents s' = maxEvents s"
  using assms(1)
proof (cases rule: es_step.cases)
  case (dispatcher now)
  have "length (evq s') \<le> length (evq s)"
    using dispatcher(2)
  proof (cases rule: dispatcher_step_cases)
    case turn
    from turn(2) show ?thesis
    proof (cases rule: turn_cases)
      case (early e q d)
      then show ?thesis using evq.heap.length_pop [of "e # q"] by (simp add: evq.heap.length_push)
    next
      case (due e q d)
      then show ?thesis using evq.heap.length_pop [of "e # q"] by simp
    qed simp
  qed simp_all
  then show ?thesis
    using dispatcher_same [OF dispatcher(2)] assms(2) by (simp add: limit_inv_def busy_callers_def)
next
  case (call t job ms)
  note c = begin_schedule_eq [OF call(2)]
  define l where "l = (if below_limit s then CTested job ms else CDone (-1))"
  have s': "s' = cgoto t l s" using c(2) by (simp add: l_def)
  have same: "length (evq s') = length (evq s)" "maxEvents s' = maxEvents s"
    by (simp_all add: s' cgoto_def)
  have b: "busy_callers n s' = busy_callers n s + of_bool (inside l)"
    using busy_callers_cgoto [OF call(1), of l s] c(1) s' by simp
  show ?thesis
  proof (cases "below_limit s")
    case True
    have "length (evq s) < 2 ^ 32"
      using assms(2,4) call(1) by (auto simp: limit_inv_def)
    then have "length (evq s) < unat (maxEvents s)" using True below_limit_iff [OF assms(3)] by blast
    then show ?thesis using same busy_callers_le [of n s'] call(1) by (simp add: limit_inv_def)
  next
    case False
    then show ?thesis using same b assms(2) by (simp add: limit_inv_def l_def)
  qed
next
  case (caller t now)
  have bound: "busy_callers n (cgoto t l r) + of_bool (inside (cpc s t)) = busy_callers n s + of_bool (inside l)"
    if "cpc r = cpc s" for l r
    using busy_callers_cgoto [OF caller(1), of l r] that by (simp add: busy_callers_def cgoto_def)
  from caller(3) show ?thesis
  proof (cases rule: caller_step_cases)
    case (take job ms)
    then show ?thesis
      using assms(2) bound [of "s\<lparr>nextId := nextId s + 1\<rparr>" "CHasId job ms (nextId s)"]
      by (simp add: limit_inv_def cgoto_def)
  next
    case (build job ms eid e)
    then show ?thesis
      using assms(2) bound [of s "CHasEvent e"] by (simp add: limit_inv_def cgoto_def)
  next
    case (insert e)
    then show ?thesis
      using assms(2) bound [of "insert_event e s" "CDone (eventId e)"]
      by (simp add: limit_inv_def cgoto_def insert_event_def evq.heap.length_push)
  next
    case (return r)
    then show ?thesis using assms(2) bound [of s CIdle] by (simp add: limit_inv_def cgoto_def)
  qed
next
  case (cancel eid)
  then show ?thesis
    using assms(2) by (cases rule: eventCancel_cases [of eid s])
      (auto simp: limit_inv_def busy_callers_def mset_eq_length [OF evq.heap.make(2)])
next
  case destroy
  then show ?thesis
    using assms(2) by (simp add: limit_inv_def busy_callers_def EventScheduler_destroy_def)
qed

lemma limit_reach:
  assumes "es_reach n limit s" "unat limit + n \<le> 2 ^ 32"
  shows "limit_inv n s \<and> maxEvents s = limit"
  using assms(1) unfolding es_reach_def
proof (induction rule: rtranclp_induct)
  case base
  then show ?case
    by (simp add: limit_inv_def busy_callers_def EventScheduler_new_def make_heap_def)
next
  case (step s s')
  have "es_reach n limit s" using step.hyps(1) by (simp add: es_reach_def)
  then have "queue_inv s" using es_reach_inv es_inv_def by blast
  then show ?case using limit_step [OF step.hyps(2)] step.IH assms(2) by simp
qed

end
