(* ===== verification/Scheduling.thy ===== *)
theory Scheduling
  imports EventScheduler
begin

text \<open>
  What the event scheduler of \<open>EventScheduler\<close> guarantees to its users, and where it does not
  keep what it promises: properties of every reachable state and of every run.
\<close>

section \<open>Runs as lists of actions\<close>

datatype 'j es_action = Disp timespec | Call nat 'j i32 | Caller timespec nat | Cancel int | Destroy_es

definition ok :: "'a res option \<Rightarrow> 'a option" where
  "ok r = (case r of Some (Inr s) \<Rightarrow> Some s | _ \<Rightarrow> None)"

fun es_act :: "nat \<Rightarrow> 'j es_action \<Rightarrow> 'j sched \<Rightarrow> 'j sched option" where
  "es_act n (Disp now) s = (if valid_clock now then ok (dispatcher_step now s) else None)"
| "es_act n (Call t job ms) s = (if t < n then begin_schedule t job ms s else None)"
| "es_act n (Caller now t) s =
     (if t < n \<and> valid_clock now then ok (caller_step (Some now) t s) else None)"
| "es_act n (Cancel eid) s = Some (eventCancel eid s)"
| "es_act n Destroy_es s = Some (EventScheduler_destroy s)"

fun es_exec :: "nat \<Rightarrow> 'j es_action list \<Rightarrow> 'j sched \<Rightarrow> 'j sched option" where
  "es_exec n [] s = Some s"
| "es_exec n (a # as) s = Option.bind (es_act n a s) (es_exec n as)"

lemma ok_eq_Some [simp]: "ok r = Some s \<longleftrightarrow> r = Some (Inr s)"
  by (auto simp: ok_def split: option.splits sum.splits)

lemma ok_simps [simp]: "ok (Some (Inr s)) = Some s" "ok (Some (Inl e)) = None" "ok None = None"
  by (simp_all add: ok_def)

lemma es_act_step: "es_act n a s = Some s' \<Longrightarrow> es_step n s s'"
  by (cases a) (auto split: if_splits intro: es_step.intros)

lemma es_exec_steps: "es_exec n as s = Some s' \<Longrightarrow> (es_step n)\<^sup>*\<^sup>* s s'"
  by (induction as arbitrary: s)
    (auto split: bind_splits intro: converse_rtranclp_into_rtranclp es_act_step)

lemma es_exec_reach: "es_exec n as (EventScheduler_new limit) = Some s \<Longrightarrow> es_reach n limit s"
  unfolding es_reach_def by (rule es_exec_steps)

text \<open>Two callers: the first asks for 500 ms at 10.9 s, the second for 100 ms at 11.0 s. Both
  pass the test of the limit before either inserts.\<close>

abbreviation at :: "int \<Rightarrow> int \<Rightarrow> timespec" where
  "at s ns \<equiv> \<lparr>tv_sec = s, tv_nsec = ns\<rparr>"

definition sample_acts :: "nat es_action list" where
  "sample_acts = [Call 0 7 500, Call 1 8 100,
     Caller (at 10 900000000) 0, Caller (at 10 900000000) 0, Caller (at 10 900000000) 0,
     Caller (at 11 0) 1, Caller (at 11 0) 1, Caller (at 11 0) 1, Disp (at 11 0)]"

definition sample_sched :: "size_t \<Rightarrow> nat sched" where
  "sample_sched limit =
     (let e0 = \<lparr>ev_job = 7, eventId = 0, timeout = at 10 1400000000\<rparr>;
          e1 = \<lparr>ev_job = 8, eventId = 1, timeout = at 11 100000000\<rparr>
      in \<lparr>nextId = 2, maxEvents = limit, evq = [e0, e1], terminating = False, numEvents = 2, dpc = DTurn,
          cpc = (\<lambda>_. CIdle)(0 := CDone 0, 1 := CDone 1), accepted = [e0, e1], cancelled = [], fired = [],
          to_pool = []\<rparr>)"

lemmas sched_eval = es_defs below_limit_def caller_step_def take_id_def valid_clock_def make_heap_def
  push_heap_def sift_up.simps swap_at_def eventCompare_def dispatcher_step_def turn_def diff_nsec_def
  chk_long_def pop_heap_def sift_down.simps best_child_def fun_eq_iff Let_def

lemma sample_sched_reach: "0 < limit \<Longrightarrow> es_reach 2 limit (sample_sched limit)"
proof (rule es_exec_reach)
  assume "0 < limit"
  then show "es_exec 2 sample_acts (EventScheduler_new limit) = Some (sample_sched limit)"
    by (simp add: sched_eval sample_acts_def sample_sched_def EventScheduler_new_def event_new_eq sdiv_1000)
qed

section \<open>What every state satisfies\<close>

text \<open>C25: The state is well formed after any steps of callers, dispatcher and destructor: the
  vector is a heap for \<open>eventCompare\<close>, \<open>numEvents\<close> is its length, and ids are unique, not
  negative and below \<open>nextId\<close>.\<close>

theorem es_well_formed:
  assumes "es_reach n limit s"
  shows "is_heap eventCompare (evq s) \<and> numEvents s = word_of_nat (length (evq s))
    \<and> distinct (map eventId (accepted s)) \<and> (\<forall>e\<in>set (accepted s). 0 \<le> eventId e \<and> eventId e < nextId s)"
  using es_reach_inv [OF assms] by (simp add: es_inv_def queue_inv_def id_inv_def)

theorem es_well_formed_witness:
  "es_reach 2 1 (sample_sched 1) \<and> is_heap eventCompare (evq (sample_sched 1))
     \<and> distinct (map eventId (accepted (sample_sched 1)))"
  using es_well_formed [OF sample_sched_reach, of 1] sample_sched_reach [of 1] by simp

text \<open>C24: No event is lost, duplicated or served twice: every event put into the queue is in exactly
  one place, the queue, the cancelled ones, or the ones taken out for dispatch; and the jobs taken
  out are those handed to the pool, in this order, followed by the one about to be handed over.\<close>

theorem es_account:
  assumes "es_reach n limit s"
  shows "mset (evq s) + mset (cancelled s) + mset (map fst (fired s)) = mset (accepted s)
    \<and> distinct (accepted s) \<and> map (\<lambda>(e, t). ev_job e) (fired s) = to_pool s @ dispatching (dpc s)"
  using es_reach_inv [OF assms]
  by (auto simp: es_inv_def account_inv_def out_inv_def id_inv_def distinct_map)

theorem es_account_witness:
  "es_reach 2 1 (sample_sched 1) \<and> mset (evq (sample_sched 1)) = mset (accepted (sample_sched 1))"
  using es_account [OF sample_sched_reach, of 1] sample_sched_reach [of 1]
  by (simp add: sample_sched_def Let_def)

section \<open>Scheduling and cancelling\<close>

lemma reach_time: "es_reach n limit s \<Longrightarrow> e \<in> set (evq s) \<Longrightarrow> event_time_ok e"
  using es_reach_inv account_accepted unfolding es_inv_def time_inv_def by blast

text \<open>\<open>eventSchedule\<close> by a caller alone: below the limit it returns a new id and adds one event
  with the caller's job that is due exactly \<open>timeout\<close> milliseconds after the time read, otherwise
  it returns -1 and changes nothing.\<close>

theorem es_schedule:
  assumes "es_reach n limit s" "length (evq s) < 2 ^ 32" "valid_clock now" "nextId s < 2 ^ 31 - 1"
  shows "if length (evq s) < unat (maxEvents s)
    then \<exists>s' e. eventSchedule job ms (Some now) s = Inr (nextId s, s')
      \<and> ev_job e = job \<and> eventId e = nextId s \<and> nsecs (timeout e) = nsecs now + sint ms * 1000000
      \<and> mset (evq s') = add_mset e (mset (evq s)) \<and> numEvents s' = numEvents s + 1 \<and> nextId s' = nextId s + 1
    else eventSchedule job ms (Some now) s = Inr (-1, s)"
proof -
  have inv: "queue_inv s" "0 \<le> nextId s"
    using es_reach_inv [OF assms(1)] by (simp_all add: es_inv_def id_inv_def)
  then have t: "take_id s = Inr (nextId s, s\<lparr>nextId := nextId s + 1\<rparr>)"
    using assms(4) by (simp add: take_id_Inr)
  obtain e where e: "event_new job ms (nextId s) (Some now) = Inr e" "ev_job e = job"
    using event_new_eq [OF assms(3), of job ms "nextId s"] by simp
  show ?thesis
    using t e event_new_time(2,3) [OF assms(3) e(1)] below_limit_iff [OF inv(1) assms(2)]
    by (auto simp: eventSchedule_def insert_event_def evq.heap.push(2))
qed

theorem es_schedule_witness:
  "\<exists>s' e. eventSchedule 9 50 (Some (at 11 0)) (sample_sched 5) = Inr (2, s')
     \<and> nsecs (timeout e) = 11050000000 \<and> mset (evq s') = add_mset e (mset (evq (sample_sched 5)))"
proof -
  have "length (evq (sample_sched 5)) = 2" "nextId (sample_sched 5) = 2" "maxEvents (sample_sched 5) = 5"
    by (simp_all add: sample_sched_def Let_def)
  then show ?thesis
    using es_schedule [OF sample_sched_reach, of 5 "at 11 0" 9 50]
    by (fastforce simp: valid_clock_def nsecs_def)
qed

lemma cancelled_mono:
  assumes "es_step n s s'"
  shows "set (cancelled s) \<subseteq> set (cancelled s')"
  using assms
proof (cases rule: es_step.cases)
  case (dispatcher now)
  then show ?thesis by (auto dest: dispatcher_same)
next
  case (call t job ms)
  then show ?thesis using begin_schedule_eq(2) [OF call(2)] by (simp add: cgoto_def)
next
  case (caller t now)
  from caller(3) show ?thesis by (cases rule: caller_step_cases) (simp_all add: cgoto_def insert_event_def)
next
  case (cancel eid)
  then show ?thesis by (cases rule: eventCancel_cases [of eid s]) auto
qed (auto simp: EventScheduler_destroy_def)

lemma distinct_id_eq:
  "distinct (map eventId es) \<Longrightarrow> e \<in> set es \<Longrightarrow> f \<in> set es \<Longrightarrow> eventId e = eventId f \<Longrightarrow> e = f"
  by (meson distinct_map inj_onD)

text \<open>Cancelling a queued event takes exactly this event out of the queue, and whatever happens
  afterwards it is never dispatched; cancelling an id that is not queued changes nothing.\<close>

theorem es_cancel:
  assumes "es_reach n limit s"
  shows "(eid \<notin> eventId ` set (evq s) \<longrightarrow> eventCancel eid s = s)
    \<and> (\<forall>e\<in>set (evq s). eventId e = eid \<longrightarrow> mset (evq s) = add_mset e (mset (evq (eventCancel eid s)))
        \<and> (\<forall>s'. (es_step n)\<^sup>*\<^sup>* (eventCancel eid s) s' \<longrightarrow> e \<notin> fst ` set (fired s')))"
proof (cases rule: eventCancel_cases [of eid s])
  case none
  then show ?thesis by auto
next
  case (some f rest)
  have inv: "es_inv n s" by (rule es_reach_inv [OF assms])
  have f: "f \<in> set (evq s)" using some(2) by (metis set_mset_mset union_single_eq_member)
  have same: "e = f" if "e \<in> set (evq s)" "eventId e = eid" for e
    using that some(1) f inv account_accepted [of s] distinct_id_eq [of "accepted s" e f]
    by (auto simp: es_inv_def id_inv_def)
  have rest: "mset (evq s) = add_mset f (mset (evq (eventCancel eid s)))"
    using some(2,4) by (simp add: evq.heap.make(2))
  have never: "f \<notin> fst ` set (fired s')" if r: "(es_step n)\<^sup>*\<^sup>* (eventCancel eid s) s'" for s'
  proof -
    have "es_inv n s' \<and> f \<in> set (cancelled s')"
      using r
    proof (induction rule: rtranclp_induct)
      case base
      then show ?case using some(4) es_inv_step [OF es_step.cancel inv, of eid] by simp
    next
      case (step a b)
      then show ?case using es_inv_step cancelled_mono by blast
    qed
    then have "distinct (accepted s')" "f \<in> set (cancelled s')"
      "mset (evq s') + mset (cancelled s') + mset (map fst (fired s')) = mset (accepted s')"
      by (auto simp: es_inv_def id_inv_def account_inv_def distinct_map)
    then have "distinct (evq s' @ cancelled s' @ map fst (fired s'))"
      using mset_eq_imp_distinct_iff [of "evq s' @ cancelled s' @ map fst (fired s')" "accepted s'"]
      by (simp add: ac_simps)
    then show ?thesis using \<open>f \<in> set (cancelled s')\<close> by auto
  qed
  show ?thesis
  proof (intro conjI impI ballI)
    assume "eid \<notin> eventId ` set (evq s)"
    then show "eventCancel eid s = s" using some(1) f by blast
  next
    fix e assume "e \<in> set (evq s)" "eventId e = eid"
    then have "e = f" by (rule same)
    then show "mset (evq s) = add_mset e (mset (evq (eventCancel eid s)))"
      "\<forall>s'. (es_step n)\<^sup>*\<^sup>* (eventCancel eid s) s' \<longrightarrow> e \<notin> fst ` set (fired s')"
      using rest never by simp_all
  qed
qed

theorem es_cancel_witness:
  "eventCancel 5 (sample_sched 1) = sample_sched 1
     \<and> mset (evq (sample_sched 1)) = add_mset (evq (sample_sched 1) ! 1) (mset (evq (eventCancel 1 (sample_sched 1))))"
  using es_cancel [OF sample_sched_reach, of 1 5] es_cancel [OF sample_sched_reach, of 1 1]
  by (auto simp: sample_sched_def Let_def)

section \<open>The dispatcher\<close>

text \<open>One turn of the dispatcher, in every reachable state: it never overflows; with an empty
  queue it waits one nanosecond; with a first event not yet due it keeps the queue and waits
  exactly the time that is left; otherwise it takes the first event out for dispatch.\<close>

theorem es_turn:
  assumes "es_reach n limit s" "valid_clock now"
  shows "\<exists>s'. turn now s = Inr s' \<and>
    (case evq s of [] \<Rightarrow> s' = s\<lparr>dpc := DWait 1\<rparr>
     | e # q \<Rightarrow>
        if nsecs now < nsecs (timeout e)
        then mset (evq s') = mset (evq s) \<and> fired s' = fired s \<and> numEvents s' = numEvents s
          \<and> dpc s' = DWait (nsecs (timeout e) - nsecs now)
        else mset (evq s') = mset q \<and> fired s' = fired s @ [(e, now)] \<and> numEvents s' = numEvents s - 1
          \<and> dpc s' = DDispatch e)"
proof (cases "evq s")
  case Nil
  then show ?thesis by (simp add: turn_def)
next
  case (Cons e q)
  have "event_time_ok e" using reach_time [OF assms(1)] Cons by simp
  then show ?thesis
    using turn_front [OF assms(2) Cons] Cons
    by (simp add: Let_def pop_front(2) evq.heap.push(2))
qed

theorem es_turn_witness:
  "\<exists>s'. turn (at 11 200000000) (sample_sched 1) = Inr s' \<and> dpc s' = DWait 200000000"
proof -
  have "valid_clock (at 11 200000000)" by (simp add: valid_clock_def)
  from es_turn [OF sample_sched_reach this, of 1] show ?thesis
    by (auto simp: sample_sched_def nsecs_def Let_def)
qed

text \<open>C26: Punctuality: no event is dispatched before it is due, and no event that is due for two
  seconds (one second, if its nanoseconds are not negative, as is the case for every timeout that
  is not negative) is held back: a turn then dispatches an event that is due.\<close>

theorem es_punctual:
  assumes "es_reach n limit s"
  shows "(\<forall>(e, t)\<in>set (fired s). nsecs (timeout e) \<le> nsecs t)
    \<and> (\<forall>now. \<forall>e\<in>set (evq s). valid_clock now \<longrightarrow>
        nsecs (timeout e) + (if 0 \<le> tv_nsec (timeout e) then 1 else 2) * 1000000000 \<le> nsecs now \<longrightarrow>
        (\<exists>f s'. turn now s = Inr s' \<and> fired s' = fired s @ [(f, now)] \<and> dpc s' = DDispatch f
          \<and> nsecs (timeout f) \<le> nsecs now))"
proof (intro conjI allI ballI impI)
  have inv: "es_inv n s" by (rule es_reach_inv [OF assms])
  then show "\<And>x. x \<in> set (fired s) \<Longrightarrow> case x of (e, t) \<Rightarrow> nsecs (timeout e) \<le> nsecs t"
    by (auto simp: es_inv_def time_inv_def)
  fix now e
  assume a: "e \<in> set (evq s)" "valid_clock now"
    "nsecs (timeout e) + (if 0 \<le> tv_nsec (timeout e) then 1 else 2) * 1000000000 \<le> nsecs now"
  then obtain f q where q: "evq s = f # q" by (cases "evq s") auto
  have ok: "event_time_ok f" "event_time_ok e"
    using reach_time [OF assms] a(1) q by simp_all
  have "\<not> eventCompare f e"
    using inv q a(1) evq_front [of f q e] by (simp add: es_inv_def queue_inv_def)
  then have "nsecs (timeout f) < nsecs (timeout e) + (if 0 \<le> tv_nsec (timeout e) then 1 else 2) * 1000000000"
    using compare_nsecs(1,2) [OF _ ok] by simp
  then have "\<not> nsecs now < nsecs (timeout f)" using a(3) by simp
  then show "\<exists>f s'. turn now s = Inr s' \<and> fired s' = fired s @ [(f, now)] \<and> dpc s' = DDispatch f
      \<and> nsecs (timeout f) \<le> nsecs now"
    using turn_front [OF a(2) q ok(1)] by (simp add: Let_def)
qed

theorem es_punctual_witness:
  "\<exists>f s'. turn (at 12 400000000) (sample_sched 1) = Inr s' \<and> fired s' = [(f, at 12 400000000)]"
proof -
  have r: "es_reach 2 1 (sample_sched 1)" by (rule sample_sched_reach) simp
  have "\<lparr>ev_job = 8, eventId = 1, timeout = at 11 100000000\<rparr> \<in> set (evq (sample_sched 1))"
    "fired (sample_sched 1) = []"
    by (simp_all add: sample_sched_def Let_def)
  with conjunct2 [OF es_punctual [OF r], rule_format, of "\<lparr>ev_job = 8, eventId = 1, timeout = at 11 100000000\<rparr>"
      "at 12 400000000"]
  show ?thesis by (auto simp: valid_clock_def nsecs_def)
qed

text \<open>A due event can be held back by one that is not: the nanoseconds of a due time are not
  carried into its seconds, but the heap compares the seconds first. In a reachable state an
  event is 100 ms late and the dispatcher goes to sleep for another 200 ms, for the sake of an
  event that is due after it.\<close>

theorem es_misordered:
  assumes "0 < limit"
  shows "\<exists>s now e s'. es_reach 2 limit (s :: nat sched) \<and> valid_clock now \<and> dpc s = DTurn \<and> e \<in> set (evq s)
    \<and> nsecs (timeout e) + 100000000 = nsecs now \<and> turn now s = Inr s' \<and> fired s' = fired s
    \<and> dpc s' = DWait 200000000"
proof -
  have r: "es_reach 2 limit (sample_sched limit)" by (rule sample_sched_reach [OF assms])
  have v: "valid_clock (at 11 200000000)" by (simp add: valid_clock_def)
  obtain s' where "turn (at 11 200000000) (sample_sched limit) = Inr s'"
    "fired s' = fired (sample_sched limit)" "dpc s' = DWait 200000000"
    using turn_front [OF v, of "sample_sched limit"]
    by (simp add: sample_sched_def Let_def event_time_ok_def nsecs_def)
  then show ?thesis
    using r v
    by (intro exI [of _ "sample_sched limit"] exI [of _ "at 11 200000000"] exI [of _ s']
          exI [of _ "\<lparr>ev_job = 8, eventId = 1, timeout = at 11 100000000\<rparr>"])
      (simp add: sample_sched_def Let_def nsecs_def)
qed

theorem es_misordered_witness:
  "\<exists>s now e s'. es_reach 2 4 (s :: nat sched) \<and> valid_clock now \<and> dpc s = DTurn \<and> e \<in> set (evq s)
    \<and> nsecs (timeout e) + 100000000 = nsecs now \<and> turn now s = Inr s' \<and> fired s' = fired s
    \<and> dpc s' = DWait 200000000"
  by (rule es_misordered) simp

text \<open>The limit is exceeded by at most one event per further calling thread: the queue never
  holds more than \<open>maxEvents\<close> plus the number of callers less one. (The witness: with two callers
  and a limit of one, two events are queued.)\<close>

theorem es_limit:
  assumes "es_reach n limit s" "unat limit + n \<le> 2 ^ 32"
  shows "length (evq s) \<le> unat limit + (n - 1)"
  using limit_reach [OF assms] by (auto simp: limit_inv_def)

theorem es_limit_witness:
  "es_reach 2 1 (sample_sched 1) \<and> length (evq (sample_sched 1)) = 2 \<and> length (evq (sample_sched 1)) \<le> 1 + (2 - 1)"
  using es_limit [OF sample_sched_reach, of 1] sample_sched_reach [of 1]
  by (simp add: sample_sched_def Let_def)

section \<open>Shutdown\<close>

fun run_dispatcher :: "timespec \<Rightarrow> nat \<Rightarrow> 'j sched \<Rightarrow> 'j sched option" where
  "run_dispatcher now 0 s = Some s"
| "run_dispatcher now (Suc k) s = Option.bind (ok (dispatcher_step now s)) (run_dispatcher now k)"

lemma drain:
  assumes "queue_inv s" "terminating s" "dpc s = DTest" "valid_clock now" "length (evq s) < 2 ^ 32"
    and "\<forall>e\<in>set (evq s). event_time_ok e \<and> nsecs (timeout e) \<le> nsecs now"
  shows "\<exists>s'. run_dispatcher now (3 * length (evq s) + 1) s = Some s' \<and> dpc s' = DExit \<and> evq s' = []
    \<and> to_pool s' = to_pool s @ map ev_job (take_fronts (pop_heap eventCompare) (length (evq s)) (evq s))"
  using assms
proof (induction "length (evq s)" arbitrary: s)
  case 0
  then show ?case by (simp add: dispatcher_step_def queue_inv_def)
next
  case (Suc k)
  then obtain e q where q: "evq s = e # q" by (cases "evq s") auto
  let ?rest = "butlast (pop_heap eventCompare (e # q))"
  define s2 where "s2 = s\<lparr>evq := ?rest, numEvents := numEvents s - 1, fired := fired s @ [(e, now)],
    to_pool := to_pool s @ [ev_job e], dpc := DTest\<rparr>"
  have len: "length ?rest = k" using Suc.hyps(2) q evq.heap.length_pop [of "e # q"] by simp
  have pos: "numEvents s > 0"
  proof -
    have "unat (numEvents s) = Suc k"
      using Suc.prems(1,5) Suc.hyps(2)
      by (simp add: queue_inv_def unsigned_of_nat take_bit_nat_eq_self del: of_nat_Suc)
    then show ?thesis by (simp add: unat_gt_0 word_neq_0_conv [symmetric]) (metis unat_0 nat.distinct(1))
  qed
  have e: "event_time_ok e" "\<not> nsecs now < nsecs (timeout e)" using Suc.prems(6) q by auto
  have t: "turn now (s\<lparr>dpc := DTurn\<rparr>) = Inr (s\<lparr>evq := ?rest, numEvents := numEvents s - 1,
      fired := fired s @ [(e, now)], dpc := DDispatch e\<rparr>)"
    using turn_front [OF Suc.prems(4), of "s\<lparr>dpc := DTurn\<rparr>" e q] q e by (simp add: Let_def)
  have run: "run_dispatcher now (3 + m) s = run_dispatcher now m s2" for m
    using Suc.prems(3) pos t by (simp add: numeral_3_eq_3 dispatcher_step_def ok_def s2_def)
  have "queue_inv s2"
    using Suc.prems(1) q pop_front(1) [of e q] evq.heap.length_pop [of "e # q"]
    by (simp add: queue_inv_def s2_def)
  moreover have "set ?rest \<subseteq> set (evq s)"
    using pop_front(2) q by (metis set_mset_mset set_subset_Cons)
  moreover have s2: "evq s2 = ?rest" "terminating s2" "dpc s2 = DTest"
    using Suc.prems(2) by (simp_all add: s2_def)
  ultimately obtain s' where "run_dispatcher now (3 * k + 1) s2 = Some s'" "dpc s' = DExit" "evq s' = []"
    "to_pool s' = to_pool s2 @ map ev_job (take_fronts (pop_heap eventCompare) k ?rest)"
    using Suc.hyps(1) [of s2] Suc.hyps(2) Suc.prems(4-6) unfolding s2(1) len by fastforce
  then show ?case
    using run [of "3 * k + 1"] Suc.hyps(2) [symmetric] q by (simp add: s2_def)
qed

text \<open>C27: Shutdown: once the destructor has set \<open>terminate\<close> and all queued events are due, the
  dispatcher thread ends after at most three steps per event and one more, having handed every
  queued event to the pool once, so the join of the destructor returns. The order is that of
  \<open>eventCompare\<close>: an event comes before none that was due two seconds earlier, and the order is that of the due
  times if their nanoseconds are all below a second. (They need not be, and then it can be another: the
  events of the witness are due at 11.4 s and 11.1 s, and the first is handed over first.)\<close>

theorem es_shutdown:
  assumes "es_reach n limit s" "terminating s" "dpc s = DTest" "valid_clock now" "length (evq s) < 2 ^ 32"
    and "\<forall>e\<in>set (evq s). nsecs (timeout e) \<le> nsecs now"
  shows "\<exists>s' es. run_dispatcher now (3 * length (evq s) + 1) s = Some s' \<and> dpc s' = DExit \<and> evq s' = []
    \<and> to_pool s' = to_pool s @ map ev_job es \<and> mset es = mset (evq s)
    \<and> sorted_wrt (\<lambda>a b. \<not> eventCompare a b) es
    \<and> sorted_wrt (\<lambda>a b. nsecs (timeout a) < nsecs (timeout b) + 2 * 1000000000) es
    \<and> ((\<forall>e\<in>set (evq s). 0 \<le> tv_nsec (timeout e) \<and> tv_nsec (timeout e) < 1000000000)
      \<longrightarrow> sorted_wrt (\<lambda>a b. nsecs (timeout a) \<le> nsecs (timeout b)) es)"
proof -
  have inv: "queue_inv s" using es_reach_inv [OF assms(1)] by (simp add: es_inv_def)
  then have "is_heap eventCompare (evq s)" by (simp add: queue_inv_def)
  note front = evq.heap.take_fronts_sorted [OF this refl]
  define es where "es = take_fronts (pop_heap eventCompare) (length (evq s)) (evq s)"
  have es: "mset es = mset (evq s)" "sorted_wrt (\<lambda>a b. \<not> eventCompare a b) es"
    using front by (simp_all add: es_def)
  then have ok: "event_time_ok e" if "e \<in> set es" for e
    using that reach_time [OF assms(1)] by (metis mset_eq_setD)
  have "sorted_wrt (\<lambda>a b. nsecs (timeout a) < nsecs (timeout b) + 2 * 1000000000) es"
    by (rule sorted_wrt_mono_rel [OF _ es(2)]) (use ok compare_nsecs(1) in blast)
  moreover have "sorted_wrt (\<lambda>a b. nsecs (timeout a) \<le> nsecs (timeout b)) es"
    if "\<forall>e\<in>set (evq s). 0 \<le> tv_nsec (timeout e) \<and> tv_nsec (timeout e) < 1000000000"
    by (rule sorted_wrt_mono_rel [OF _ es(2)])
      (use ok that mset_eq_setD [OF es(1)] compare_nsecs(3) in blast)
  ultimately show ?thesis
    using drain [OF inv assms(2-5)] assms(6) reach_time [OF assms(1)] es unfolding es_def by blast
qed

theorem es_shutdown_witness:
  "\<exists>s'. run_dispatcher (at 20 0) 7 ((sample_sched 1)\<lparr>terminating := True, dpc := DTest\<rparr>) = Some s'
     \<and> dpc s' = DExit \<and> evq s' = [] \<and> to_pool s' = [7, 8]"
proof -
  let ?s = "(sample_sched 1)\<lparr>terminating := True, dpc := DTest\<rparr>"
  let ?e0 = "\<lparr>ev_job = 7, eventId = 0, timeout = at 10 1400000000\<rparr>" and ?e1 = "\<lparr>ev_job = 8, eventId = 1, timeout = at 11 100000000\<rparr>"
  have "es_exec 2 [Disp (at 11 0), Disp (at 11 0), Destroy_es] (sample_sched 1) = Some ?s"
    by (simp add: sched_eval sample_sched_def)
  from es_exec_steps [OF this] have r: "es_reach 2 1 ?s"
    using sample_sched_reach [of 1] unfolding es_reach_def by (auto intro: rtranclp_trans)
  have q: "evq ?s = [?e0, ?e1]" "to_pool ?s = []" by (simp_all add: sample_sched_def Let_def)
  obtain s' es where s': "run_dispatcher (at 20 0) 7 ?s = Some s'" "dpc s' = DExit" "evq s' = []"
    "to_pool s' = map ev_job es" "mset es = {# ?e0, ?e1 #}" "sorted_wrt (\<lambda>a b. \<not> eventCompare a b) es"
    using es_shutdown [OF r, of "at 20 0"] unfolding q by (auto simp: valid_clock_def nsecs_def sample_sched_def Let_def)
  have "length es = 2" using arg_cong [OF s'(5), of size] by simp
  then obtain a b where ab: "es = [a, b]" by (auto simp: length_Suc_conv numeral_2_eq_2)
  then have "a = ?e0 \<and> b = ?e1 \<or> a = ?e1 \<and> b = ?e0" using s'(5) by (auto simp: add_eq_conv_diff split: if_splits)
  moreover have "\<not> eventCompare a b" "eventCompare ?e1 ?e0" using s'(6) by (simp_all add: ab eventCompare_def)
  ultimately have "es = [?e0, ?e1]" using ab by auto
  then show ?thesis using s'(1-4) by auto
qed

end
