(* ===== verification/EventPool.thy ===== *)
theory EventPool
  imports Scheduling ThreadPool
begin

text \<open>
  The event scheduler together with the thread pool it hands its jobs to
  (\<open>newLibs/eventscheduler.cpp\<close> on \<open>newLibs/threadpool.cpp\<close>): the dispatcher's call of
  \<open>dispatch_thread\<close> puts the job into the queue of the pool, whose workers run independently.
  The scheduler's destructor deletes the pool once the dispatcher thread is joined.
\<close>

definition NUM_THREADS :: nat where
  "NUM_THREADS = 10"

inductive esp_step :: "nat \<Rightarrow> 'j sched \<times> 'j pool \<Rightarrow> 'j sched \<times> 'j pool \<Rightarrow> bool" for n where
  scheduler: "es_step n s s' \<Longrightarrow> to_pool s' = to_pool s \<Longrightarrow> esp_step n (s, p) (s', p)"
| hand_over: "valid_clock now \<Longrightarrow> dispatcher_step now s = Some (Inr s') \<Longrightarrow> to_pool s' = to_pool s @ [j] \<Longrightarrow>
    dispatch_thread j w p = Some p' \<Longrightarrow> esp_step n (s, p) (s', p')"
| pool_worker: "t < threadCount p \<Longrightarrow> worker_step t p = Some p' \<Longrightarrow> esp_step n (s, p) (s, p')"
| pool_wakeup: "t \<in> set (waiters p) \<Longrightarrow> esp_step n (s, p) (s, goto t Woken p)"
| delete_pool: "terminating s \<Longrightarrow> dpc s = DExit \<Longrightarrow> ThreadPool_destroy p = Some p' \<Longrightarrow>
    esp_step n (s, p) (s, p')"

definition esp_reach :: "nat \<Rightarrow> size_t \<Rightarrow> 'j sched \<times> 'j pool \<Rightarrow> bool" where
  "esp_reach n limit sp \<longleftrightarrow> (esp_step n)\<^sup>*\<^sup>* (EventScheduler_new limit, ThreadPool_new NUM_THREADS) sp"

text \<open>A step of the composition is a step (or none) of each part; the jobs handed over are the
  jobs posted.\<close>

lemma esp_step_parts:
  assumes "esp_step n (s, p) (s', p')" "posted p = to_pool s"
  shows "(es_step n)\<^sup>*\<^sup>* s s' \<and> pool_step\<^sup>*\<^sup>* p p' \<and> posted p' = to_pool s'"
  using assms(1)
proof (cases rule: esp_step.cases)
  case scheduler
  then show ?thesis using assms(2) by auto
next
  case (hand_over now j w)
  then have "es_step n s s'" "pool_step p p'" by (auto intro: es_step.dispatcher pool_step.dispatch)
  moreover have "posted p' = posted p @ [j]"
    using hand_over(4) by (auto simp: dispatch_thread_def notify_one_def goto_def split: if_splits option.splits)
  ultimately show ?thesis using hand_over(3) assms(2) by auto
next
  case (pool_worker t)
  then show ?thesis using assms(2) worker_step_queue [of t p p'] by (auto intro: pool_step.worker)
next
  case (pool_wakeup t)
  then show ?thesis using assms(2) pool_step.spurious [of t p] by (auto simp: goto_def)
next
  case delete_pool
  then show ?thesis
    using assms(2) pool_step.destroy [of p p'] by (auto simp: ThreadPool_destroy_def split: if_splits)
qed

lemma esp_reach_parts:
  assumes "esp_reach n limit (s, p)"
  shows "es_reach n limit s \<and> pool_reach NUM_THREADS p \<and> posted p = to_pool s"
proof -
  have "es_reach n limit (fst x) \<and> pool_reach NUM_THREADS (snd x) \<and> posted (snd x) = to_pool (fst x)"
    if "(esp_step n)\<^sup>*\<^sup>* (EventScheduler_new limit, ThreadPool_new NUM_THREADS) x" for x :: "'a sched \<times> 'a pool"
    using that
  proof (induction rule: rtranclp_induct)
    case base
    then show ?case
      by (simp add: es_reach_def pool_reach_def EventScheduler_new_def ThreadPool_new_def)
  next
    case (step x y)
    then show ?case
      using esp_step_parts [of n "fst x" "snd x" "fst y" "snd y"]
      unfolding es_reach_def pool_reach_def by (auto intro: rtranclp_trans)
  qed
  from this [of "(s, p)"] assms show ?thesis by (simp add: esp_reach_def)
qed

section \<open>Jobs of events are started in the order the events were taken out\<close>

text \<open>C19: From the caller to the worker: in every state of scheduler and pool together, the jobs
  workers have taken, followed by the pool's queue and the job being handed over, are the jobs of
  the events the dispatcher took out, in order; and these events, with those still queued and
  those cancelled, are exactly the events ever put in, so every job is started at most once.\<close>

theorem es_jobs_in_order:
  assumes "esp_reach n limit (s, p)"
  shows "started p @ jobs p @ dispatching (dpc s) = map (\<lambda>(e, t). ev_job e) (fired s)
    \<and> mset (evq s) + mset (cancelled s) + mset (map fst (fired s)) = mset (accepted s)"
proof -
  have r: "es_reach n limit s" "pool_reach NUM_THREADS p" "posted p = to_pool s"
    using esp_reach_parts [OF assms] by simp_all
  have "started p @ jobs p = to_pool s"
    using newpool.fifo r(2,3) unfolding pool_reach_def by metis
  then show ?thesis
    using es_reach_inv [OF r(1)] by (auto simp: es_inv_def out_inv_def account_inv_def)
qed

section \<open>Runs as lists of actions\<close>

datatype 'j esp_action = Sched "'j es_action" | Hand timespec "nat option" | PoolWork nat | DeletePool

fun esp_act :: "nat \<Rightarrow> 'j esp_action \<Rightarrow> 'j sched \<times> 'j pool \<Rightarrow> ('j sched \<times> 'j pool) option" where
  "esp_act n (Sched a) (s, p) = Option.bind (es_act n a s) (\<lambda>s'.
     case dpc s of DDispatch e \<Rightarrow> None | _ \<Rightarrow> Some (s', p))"
| "esp_act n (Hand now w) (s, p) = (case dpc s of
       DDispatch e \<Rightarrow> if valid_clock now then Option.bind (ok (dispatcher_step now s)) (\<lambda>s'.
         Option.bind (dispatch_thread (ev_job e) w p) (\<lambda>p'. Some (s', p'))) else None
     | _ \<Rightarrow> None)"
| "esp_act n (PoolWork t) (s, p) =
     (if t < threadCount p then Option.bind (worker_step t p) (\<lambda>p'. Some (s, p')) else None)"
| "esp_act n DeletePool (s, p) = (case dpc s of
       DExit \<Rightarrow> if terminating s then Option.bind (ThreadPool_destroy p) (\<lambda>p'. Some (s, p')) else None
     | _ \<Rightarrow> None)"

fun esp_exec :: "nat \<Rightarrow> 'j esp_action list \<Rightarrow> 'j sched \<times> 'j pool \<Rightarrow> ('j sched \<times> 'j pool) option" where
  "esp_exec n [] sp = Some sp"
| "esp_exec n (a # as) sp = Option.bind (esp_act n a sp) (esp_exec n as)"

lemma es_step_to_pool:
  assumes "es_step n s s'" "\<And>e. dpc s \<noteq> DDispatch e"
  shows "to_pool s' = to_pool s"
  using assms(1)
proof (cases rule: es_step.cases)
  case (dispatcher now)
  from dispatcher(2) show ?thesis
    by (cases rule: dispatcher_step_cases) (use assms(2) turn_same in \<open>auto\<close>)
next
  case (call t job ms)
  then show ?thesis using begin_schedule_eq(2) [OF call(2)] by (simp add: cgoto_def)
next
  case (caller t now)
  from caller(3) show ?thesis by (cases rule: caller_step_cases) (simp_all add: cgoto_def insert_event_def)
qed (simp_all add: cancel_same EventScheduler_destroy_def)

lemma esp_act_step: "esp_act n a sp = Some sp' \<Longrightarrow> esp_step n sp sp'"
proof (cases sp)
  case (Pair s p)
  assume a: "esp_act n a sp = Some sp'"
  show ?thesis
  proof (cases a)
    case (Sched b)
    then obtain s' where "es_act n b s = Some s'" "sp' = (s', p)" "\<And>e. dpc s \<noteq> DDispatch e"
      using a Pair by (auto split: bind_splits dpc.splits)
    then show ?thesis using Pair es_act_step es_step_to_pool by (metis esp_step.scheduler)
  next
    case (Hand now w)
    then obtain e s' p' where h: "dpc s = DDispatch e" "valid_clock now" "dispatcher_step now s = Some (Inr s')"
      "dispatch_thread (ev_job e) w p = Some p'" "sp' = (s', p')"
      using a Pair by (auto split: bind_splits dpc.splits if_splits)
    then have "to_pool s' = to_pool s @ [ev_job e]" by (auto simp: dispatcher_step_def)
    then show ?thesis using h Pair by (auto intro: esp_step.hand_over)
  next
    case (PoolWork t)
    then show ?thesis using a Pair by (auto split: bind_splits if_splits intro: esp_step.pool_worker)
  next
    case DeletePool
    then show ?thesis
      using a Pair by (auto split: bind_splits if_splits dpc.splits intro: esp_step.delete_pool)
  qed
qed

lemma esp_exec_steps: "esp_exec n as sp = Some sp' \<Longrightarrow> (esp_step n)\<^sup>*\<^sup>* sp sp'"
  by (induction as arbitrary: sp)
    (auto split: bind_splits intro: converse_rtranclp_into_rtranclp esp_act_step)

text \<open>One event, scheduled at 11 s with timeout 0; the dispatcher hands it over, the destructor
  runs before any worker has moved, the ten workers leave.\<close>

definition drop_acts :: "nat esp_action list" where
  "drop_acts = map Sched [Call 0 7 0, Caller (at 11 0) 0, Caller (at 11 0) 0, Caller (at 11 0) 0,
       Disp (at 11 0), Disp (at 11 0)]
     @ [Hand (at 11 0) None] @ map Sched [Destroy_es, Disp (at 11 0)] @ [DeletePool]
     @ map PoolWork [0, 1, 2, 3, 4, 5, 6, 7, 8, 9]"

definition drop_event :: "nat event" where
  "drop_event = \<lparr>ev_job = 7, eventId = 0, timeout = at 11 0\<rparr>"

definition drop_sched :: "size_t \<Rightarrow> nat sched" where
  "drop_sched limit = \<lparr>nextId = 1, maxEvents = limit, evq = [], terminating = True, numEvents = 0, dpc = DExit,
     cpc = (\<lambda>_. CIdle)(0 := CDone 0), accepted = [drop_event], cancelled = [],
     fired = [(drop_event, at 11 0)], to_pool = [7]\<rparr>"

definition drop_pool :: "nat pool" where
  "drop_pool = \<lparr>jobs = [7], threadCount = 10, availableThreads = 10, terminate = True, cvLock = None,
     pc = (\<lambda>t. if t < 10 then Exited else Check), posted = [7], started = []\<rparr>"

lemma drop_reach:
  assumes "0 < limit"
  shows "esp_reach 1 limit (drop_sched limit, drop_pool)"
proof -
  have lt: "(t < 10) = (t = 0 \<or> t = 1 \<or> t = 2 \<or> t = 3 \<or> t = 4 \<or> t = 5 \<or> t = 6 \<or> t = 7 \<or> t = 8 \<or> t = (9::nat))" for t
    by auto
  have "esp_exec 1 drop_acts (EventScheduler_new limit, ThreadPool_new NUM_THREADS)
      = Some (drop_sched limit, drop_pool)"
    using assms
    by (simp add: drop_acts_def NUM_THREADS_def sched_eval EventScheduler_new_def event_new_eq sdiv_1000
        drop_sched_def drop_pool_def drop_event_def pool_exec_simps upt_rec lt)
  then show ?thesis
    unfolding esp_reach_def by (rule esp_exec_steps)
qed

theorem es_jobs_in_order_witness:
  "esp_reach 1 4 (drop_sched 4, drop_pool) \<and> started drop_pool @ jobs drop_pool = [7]"
  using es_jobs_in_order [OF drop_reach, of 4] drop_reach [of 4]
  by (simp add: drop_sched_def drop_event_def)

text \<open>C37: An event can be accepted, fall due, be taken out by the dispatcher and still never run: the
  destructor waits for the dispatcher but not for the pool's queue. There is a reachable state in
  which both destructors have been passed (dispatcher and all workers gone), the job was handed to
  the pool, and no step of the pool is left that could start it.\<close>

theorem es_shutdown_drops:
  assumes "0 < limit"
  shows "\<exists>s p. esp_reach 1 limit (s :: nat sched, p) \<and> dpc s = DExit \<and> joinable p \<and> to_pool s = [7]
    \<and> started p = [] \<and> (\<forall>t<threadCount p. worker_step t p = None)"
  using drop_reach [OF assms]
  by (intro exI [of _ "drop_sched limit"] exI [of _ drop_pool])
    (simp add: drop_sched_def drop_pool_def joinable_iff worker_step_def)

theorem es_shutdown_drops_witness:
  "\<exists>s p. esp_reach 1 4 (s :: nat sched, p) \<and> dpc s = DExit \<and> joinable p \<and> to_pool s = [7]
    \<and> started p = [] \<and> (\<forall>t<threadCount p. worker_step t p = None)"
  by (rule es_shutdown_drops) simp

end
