(* ===== verification/OurPools.thy ===== *)
theory OurPools
  imports Pool_Spec
begin

text \<open>
  The two thread pools of \<open>ourLibs\<close>, \<open>ThreadPool.h\<close> and \<open>ThreadPool_new.h\<close>: the same class with a
  different worker loop. The workers never sleep; the first runs a job while it holds the mutex of
  the queue, the second after it has released it. \<open>dispatch_thread\<close> pushes without the mutex, so a
  push is two steps, its beginning and its end. The map of thread ids to mutexes is never used.
  \<open>oposted\<close> and \<open>ostarted\<close> are history variables.
\<close>

section \<open>State\<close>

datatype 'j opc =
    TryLock         \<comment> \<open>at \<open>pthread_mutex_trylock\<close> (\<open>pthread_mutex_lock\<close> in the second pool)\<close>
  | QLocked         \<comment> \<open>holding the mutex, about to test the size of the queue\<close>
  | Popping         \<comment> \<open>between \<open>size() > 0\<close> and \<open>pop()\<close>\<close>
  | RunLocked 'j    \<comment> \<open>calling the job's function, holding the mutex\<close>
  | FoundWork 'j    \<comment> \<open>job popped, still holding the mutex (second pool)\<close>
  | RunFree 'j      \<comment> \<open>calling the job's function, mutex released (second pool)\<close>
  | Unlocking       \<comment> \<open>at \<open>pthread_mutex_unlock\<close> without a job to run\<close>
  | ExitTest        \<comment> \<open>at the test of \<open>m_IsWorkDone\<close>\<close>
  | Gone            \<comment> \<open>after \<open>pthread_exit\<close>\<close>

record 'j opool =
  m_PoolSize :: nat
  m_ThreadPool :: "nat list"                \<comment> \<open>thread ids\<close>
  m_ThreadStatus :: "nat \<rightharpoonup> bool"
  m_WorkQueue :: "'j list"
  m_QueueMutex :: "nat option"              \<comment> \<open>the worker that holds it\<close>
  m_IsWorkDone :: bool
  pushing :: "'j option"                    \<comment> \<open>a job that is being pushed\<close>
  opc :: "nat \<Rightarrow> 'j opc"
  oposted :: "'j list"
  ostarted :: "'j list"

text \<open>
  \<open>initialize_pool\<close>. The id stored for a worker is the value of the variable \<open>thread\<close> before
  \<open>pthread_create\<close> sets it: \<open>ids\<close> is whatever these values are, one per worker.
\<close>

definition initialize_pool :: "nat list \<Rightarrow> 'j opool" where
  "initialize_pool ids = \<lparr>m_PoolSize = length ids, m_ThreadPool = ids,
     m_ThreadStatus = (\<lambda>i. if i \<in> set ids then Some True else None), m_WorkQueue = [],
     m_QueueMutex = None, m_IsWorkDone = False, pushing = None, opc = (\<lambda>_. TryLock),
     oposted = [], ostarted = []\<rparr>"

section \<open>Operations\<close>

definition ogoto :: "nat \<Rightarrow> 'j opc \<Rightarrow> 'j opool \<Rightarrow> 'j opool" where
  "ogoto t l p = p\<lparr>opc := (opc p)(t := l)\<rparr>"

definition set_status :: "nat \<Rightarrow> bool \<Rightarrow> 'j opool \<Rightarrow> 'j opool" where
  "set_status i b p = p\<lparr>m_ThreadStatus := (m_ThreadStatus p)(i \<mapsto> b)\<rparr>"

text \<open>One step of worker \<open>t\<close>, whose \<open>pthread_self()\<close> is \<open>self t\<close>, in \<open>start_thread\<close> of
  \<open>ThreadPool.h\<close>.\<close>

definition start_thread :: "(nat \<Rightarrow> nat) \<Rightarrow> nat \<Rightarrow> 'j opool \<Rightarrow> 'j opool option" where
  "start_thread self t p = (case opc p t of
       TryLock \<Rightarrow>
         if m_QueueMutex p \<noteq> None then Some (ogoto t ExitTest p)
         else Some (ogoto t QLocked (p\<lparr>m_QueueMutex := Some t\<rparr>))
     | QLocked \<Rightarrow> Some (ogoto t (if m_WorkQueue p \<noteq> [] then Popping else Unlocking) (set_status (self t) False p))
     | Popping \<Rightarrow> (case m_WorkQueue p of
           [] \<Rightarrow> None
         | j # js \<Rightarrow> Some (ogoto t (RunLocked j) (p\<lparr>m_WorkQueue := js, ostarted := ostarted p @ [j]\<rparr>)))
     | RunLocked j \<Rightarrow> Some (ogoto t Unlocking p)
     | Unlocking \<Rightarrow> Some (ogoto t ExitTest (p\<lparr>m_QueueMutex := None\<rparr>))
     | ExitTest \<Rightarrow>
         if m_IsWorkDone p \<and> m_WorkQueue p = [] then Some (ogoto t Gone p)
         else Some (ogoto t TryLock (set_status (self t) True p))
     | _ \<Rightarrow> None)"

text \<open>The same for \<open>ThreadPool_new.h\<close>.\<close>

definition start_thread_new :: "(nat \<Rightarrow> nat) \<Rightarrow> nat \<Rightarrow> 'j opool \<Rightarrow> 'j opool option" where
  "start_thread_new self t p = (case opc p t of
       TryLock \<Rightarrow>
         if m_QueueMutex p \<noteq> None then None
         else Some (ogoto t QLocked (p\<lparr>m_QueueMutex := Some t\<rparr>))
     | QLocked \<Rightarrow> Some (ogoto t (if m_WorkQueue p \<noteq> [] then Popping else Unlocking) (set_status (self t) False p))
     | Popping \<Rightarrow> (case m_WorkQueue p of
           [] \<Rightarrow> None
         | j # js \<Rightarrow> Some (ogoto t (FoundWork j) (p\<lparr>m_WorkQueue := js, ostarted := ostarted p @ [j]\<rparr>)))
     | FoundWork j \<Rightarrow> Some (ogoto t (RunFree j) (p\<lparr>m_QueueMutex := None\<rparr>))
     | RunFree j \<Rightarrow> Some (ogoto t ExitTest p)
     | Unlocking \<Rightarrow> Some (ogoto t ExitTest (p\<lparr>m_QueueMutex := None\<rparr>))
     | ExitTest \<Rightarrow>
         if m_IsWorkDone p \<and> m_WorkQueue p = [] then Some (ogoto t Gone p)
         else Some (ogoto t TryLock (set_status (self t) True p))
     | _ \<Rightarrow> None)"

text \<open>\<open>dispatch_thread\<close>, its beginning and its end. It takes no lock.\<close>

definition begin_push :: "'j \<Rightarrow> 'j opool \<Rightarrow> 'j opool option" where
  "begin_push j p = (case pushing p of None \<Rightarrow> Some (p\<lparr>pushing := Some j\<rparr>) | Some _ \<Rightarrow> None)"

definition end_push :: "'j opool \<Rightarrow> 'j opool option" where
  "end_push p = (case pushing p of None \<Rightarrow> None
     | Some j \<Rightarrow> Some (p\<lparr>pushing := None, m_WorkQueue := m_WorkQueue p @ [j], oposted := oposted p @ [j]\<rparr>))"

text \<open>\<open>m_ThreadStatus[id]\<close> of an id that is not in the map is \<open>false\<close> (the entry this creates is not
  modelled).\<close>

definition thread_avail_o :: "'j opool \<Rightarrow> bool" where
  "thread_avail_o p = list_ex (\<lambda>i. m_ThreadStatus p i = Some True) (m_ThreadPool p)"

text \<open>The destructor up to the joins; it is not called while a job is being pushed.\<close>

definition destroy_pool :: "'j opool \<Rightarrow> 'j opool option" where
  "destroy_pool p = (case pushing p of None \<Rightarrow> Some (p\<lparr>m_IsWorkDone := True\<rparr>) | Some _ \<Rightarrow> None)"

text \<open>The two header files differ in the worker loop only.\<close>

datatype pool_file = ThreadPool_h | ThreadPool_new_h

fun worker_loop :: "pool_file \<Rightarrow> (nat \<Rightarrow> nat) \<Rightarrow> nat \<Rightarrow> 'j opool \<Rightarrow> 'j opool option" where
  "worker_loop ThreadPool_h = start_thread"
| "worker_loop ThreadPool_new_h = start_thread_new"

text \<open>Any step of a pool. Nobody dispatches after the destructor was called.\<close>

inductive op_step :: "pool_file \<Rightarrow> (nat \<Rightarrow> nat) \<Rightarrow> 'j opool \<Rightarrow> 'j opool \<Rightarrow> bool" for hf self where
  worker: "t < m_PoolSize p \<Longrightarrow> worker_loop hf self t p = Some p' \<Longrightarrow> op_step hf self p p'"
| push: "\<not> m_IsWorkDone p \<Longrightarrow> begin_push j p = Some p' \<Longrightarrow> op_step hf self p p'"
| pushed: "end_push p = Some p' \<Longrightarrow> op_step hf self p p'"
| destroy: "destroy_pool p = Some p' \<Longrightarrow> op_step hf self p p'"

definition op_reach :: "pool_file \<Rightarrow> (nat \<Rightarrow> nat) \<Rightarrow> nat list \<Rightarrow> 'j opool \<Rightarrow> bool" where
  "op_reach hf self ids p \<longleftrightarrow> (op_step hf self)\<^sup>*\<^sup>* (initialize_pool ids) p"

inductive_cases op_stepE: "op_step hf self p p'"

lemmas op_defs = ogoto_def set_status_def begin_push_def end_push_def destroy_pool_def

lemmas worker_loops = start_thread_def start_thread_new_def

section \<open>The queue discipline\<close>

lemma loop_queue:
  "worker_loop hf self t p = Some p' \<Longrightarrow>
     m_WorkQueue p' = m_WorkQueue p \<and> ostarted p' = ostarted p \<and> oposted p' = oposted p
     \<or> (\<exists>j. m_WorkQueue p = j # m_WorkQueue p' \<and> ostarted p' = ostarted p @ [j] \<and> oposted p' = oposted p)"
  by (cases hf) (auto simp: worker_loops op_defs split: opc.splits list.splits if_splits)

interpretation ourpool: job_pool "initialize_pool ids" "op_step hf self" m_WorkQueue ostarted oposted
  for ids hf self
proof unfold_locales
  fix p p' :: "'a opool" assume "op_step hf self p p'"
  then show "m_WorkQueue p' = m_WorkQueue p \<and> ostarted p' = ostarted p \<and> oposted p' = oposted p
    \<or> (\<exists>j. m_WorkQueue p' = m_WorkQueue p @ [j] \<and> ostarted p' = ostarted p \<and> oposted p' = oposted p @ [j])
    \<or> (\<exists>j. m_WorkQueue p = j # m_WorkQueue p' \<and> ostarted p' = ostarted p @ [j] \<and> oposted p' = oposted p)"
  proof (cases rule: op_step.cases)
    case (worker t)
    then show ?thesis using loop_queue by blast
  qed (auto simp: op_defs split: option.splits)
qed (simp_all add: initialize_pool_def)

section \<open>The mutex\<close>

fun holds_o :: "'j opc \<Rightarrow> bool" where
  "holds_o QLocked = True" | "holds_o Popping = True" | "holds_o (RunLocked j) = True"
| "holds_o (FoundWork j) = True" | "holds_o Unlocking = True" | "holds_o l = False"

definition holding_o :: "'j opool \<Rightarrow> nat \<Rightarrow> bool" where
  "holding_o p t = holds_o (opc p t)"

lemma loop_other:
  "worker_loop hf self t p = Some p' \<Longrightarrow> u \<noteq> t \<Longrightarrow> opc p' u = opc p u"
  "worker_loop hf self t p = Some p' \<Longrightarrow> m_PoolSize p' = m_PoolSize p
     \<and> m_IsWorkDone p' = m_IsWorkDone p \<and> pushing p' = pushing p \<and> m_ThreadPool p' = m_ThreadPool p"
  by (cases hf; auto simp: worker_loops op_defs split: opc.splits list.splits if_splits)+

lemma loop_lock:
  assumes "worker_loop hf self t p = Some p'"
  shows "m_QueueMutex p' = m_QueueMutex p \<and> holding_o p' = holding_o p
    \<or> (\<exists>t. m_QueueMutex p = None \<and> m_QueueMutex p' = Some t \<and> holding_o p' = (holding_o p)(t := True))
    \<or> (\<exists>t. holding_o p t \<and> m_QueueMutex p' = None \<and> holding_o p' = (holding_o p)(t := False))"
proof -
  have upd: "holding_o p' = (holding_o p)(t := holds_o (opc p' t))"
    using loop_other(1) [OF assms] by (auto simp: holding_o_def fun_eq_iff)
  have same: "holding_o p' = holding_o p" if "holds_o (opc p' t) = holds_o (opc p t)"
    using upd that by (auto simp: holding_o_def fun_eq_iff)
  have "m_QueueMutex p' = m_QueueMutex p \<and> holds_o (opc p' t) = holds_o (opc p t)
    \<or> m_QueueMutex p = None \<and> m_QueueMutex p' = Some t \<and> holds_o (opc p' t)
    \<or> holds_o (opc p t) \<and> m_QueueMutex p' = None \<and> \<not> holds_o (opc p' t)"
    using assms by (cases hf; cases "opc p t") (auto simp: worker_loops op_defs split: list.splits if_splits)
  with same upd show ?thesis by (auto simp: holding_o_def)
qed

interpretation ourlock: lock_owner "initialize_pool ids" "op_step hf self" m_QueueMutex holding_o
  for ids hf self
proof unfold_locales
  fix p p' :: "'a opool" assume "op_step hf self p p'"
  then show "m_QueueMutex p' = m_QueueMutex p \<and> holding_o p' = holding_o p
    \<or> (\<exists>t. m_QueueMutex p = None \<and> m_QueueMutex p' = Some t \<and> holding_o p' = (holding_o p)(t := True))
    \<or> (\<exists>t. holding_o p t \<and> m_QueueMutex p' = None \<and> holding_o p' = (holding_o p)(t := False))"
  proof (cases rule: op_step.cases)
    case (worker t)
    then show ?thesis using loop_lock by blast
  qed (auto simp: op_defs holding_o_def fun_eq_iff split: option.splits)
qed (simp_all add: initialize_pool_def holding_o_def)

section \<open>The invariant\<close>

text \<open>Between the size test and the pop the queue is not empty; a worker of \<open>ThreadPool.h\<close> never
  runs a job without the mutex; a worker is gone only when the destructor was called and the queue
  is empty; and nobody pushes any more then.\<close>

fun own_pc :: "pool_file \<Rightarrow> 'j opc \<Rightarrow> bool" where
  "own_pc ThreadPool_h (FoundWork j) = False" | "own_pc ThreadPool_h (RunFree j) = False"
| "own_pc ThreadPool_new_h (RunLocked j) = False" | "own_pc hf l = True"

definition op_inv :: "pool_file \<Rightarrow> 'j opool \<Rightarrow> bool" where
  "op_inv hf p \<longleftrightarrow> (\<forall>t. opc p t = Popping \<longrightarrow> m_WorkQueue p \<noteq> [])
     \<and> (\<forall>t. own_pc hf (opc p t))
     \<and> (\<forall>t. opc p t = Gone \<longrightarrow> m_IsWorkDone p \<and> m_WorkQueue p = [])
     \<and> (m_IsWorkDone p \<longrightarrow> pushing p = None)"

lemma loop_inv:
  assumes "worker_loop hf self t p = Some p'" "op_inv hf p" "\<And>u. holding_o p u \<Longrightarrow> holding_o p t \<Longrightarrow> u = t"
  shows "op_inv hf p'"
proof -
  have "opc p' t = Popping \<longrightarrow> m_WorkQueue p' \<noteq> []" "own_pc hf (opc p' t)"
    "opc p' t = Gone \<longrightarrow> m_IsWorkDone p' \<and> m_WorkQueue p' = []"
    using assms(1,2)
    by (cases hf; auto simp: op_inv_def worker_loops op_defs split: opc.splits list.splits if_splits)+
  moreover have "opc p u = Popping \<longrightarrow> m_WorkQueue p' \<noteq> []" if "u \<noteq> t" for u
  proof (cases "opc p t = Popping")
    case True
    then have "opc p u \<noteq> Popping" using assms(3) [of u] that by (auto simp: holding_o_def)
    then show ?thesis by simp
  next
    case False
    then have "m_WorkQueue p' = m_WorkQueue p"
      using assms(1) by (cases hf; cases "opc p t") (auto simp: worker_loops op_defs split: list.splits if_splits)
    then show ?thesis using assms(2) by (auto simp: op_inv_def)
  qed
  moreover have "m_WorkQueue p = [] \<Longrightarrow> m_WorkQueue p' = []"
    using loop_queue [OF assms(1)] by auto
  ultimately show ?thesis
    using assms(2) loop_other [OF assms(1)] unfolding op_inv_def by metis
qed

lemma op_reach_inv: "op_reach hf self ids p \<Longrightarrow> op_inv hf p \<and> m_PoolSize p = length ids"
  unfolding op_reach_def
proof (induction rule: rtranclp_induct)
  case base
  show ?case by (cases hf) (simp_all add: op_inv_def initialize_pool_def)
next
  case (step p p')
  from step.hyps(2) show ?case
  proof (cases rule: op_step.cases)
    case (worker t)
    then show ?thesis
      using step.IH loop_inv [OF worker(2)] ourlock.exclusive [OF step.hyps(1)] loop_other(2) [OF worker(2)] by metis
  qed (use step.IH in \<open>auto simp: op_inv_def op_defs split: option.splits\<close>)
qed

section \<open>Runs as lists of actions\<close>

datatype 'j op_action = OWork nat | BeginPush 'j | EndPush | ODestroy

fun op_act :: "pool_file \<Rightarrow> (nat \<Rightarrow> nat) \<Rightarrow> 'j op_action \<Rightarrow> 'j opool \<Rightarrow> 'j opool option" where
  "op_act hf self (OWork t) p = (if t < m_PoolSize p then worker_loop hf self t p else None)"
| "op_act hf self (BeginPush j) p = (if m_IsWorkDone p then None else begin_push j p)"
| "op_act hf self EndPush p = end_push p"
| "op_act hf self ODestroy p = destroy_pool p"

fun op_exec :: "pool_file \<Rightarrow> (nat \<Rightarrow> nat) \<Rightarrow> 'j op_action list \<Rightarrow> 'j opool \<Rightarrow> 'j opool option" where
  "op_exec hf self [] p = Some p"
| "op_exec hf self (a # as) p = Option.bind (op_act hf self a p) (op_exec hf self as)"

lemma op_act_step: "op_act hf self a p = Some p' \<Longrightarrow> op_step hf self p p'"
  by (cases a) (auto split: if_splits intro: op_step.intros)

lemma op_exec_steps: "op_exec hf self as p = Some p' \<Longrightarrow> (op_step hf self)\<^sup>*\<^sup>* p p'"
  by (induction as arbitrary: p)
    (auto split: bind_splits intro: converse_rtranclp_into_rtranclp op_act_step)

lemma op_exec_reach: "op_exec hf self as (initialize_pool ids) = Some p \<Longrightarrow> op_reach hf self ids p"
  unfolding op_reach_def by (rule op_exec_steps)

lemmas op_exec_simps = initialize_pool_def worker_loops op_defs

section \<open>What the pools guarantee\<close>

text \<open>C29: Both pools of \<open>ourLibs\<close> take the jobs in the order they were dispatched and, other than the
  pool of \<open>newLibs/threadpool.cpp\<close>, drop none at shutdown: once some worker has left, every job
  that was dispatched has been taken.\<close>

theorem op_fifo_no_drop:
  assumes "op_reach hf self ids p"
  shows "ostarted p @ m_WorkQueue p = oposted p
    \<and> ((\<exists>t<length ids. opc p t = Gone) \<longrightarrow> m_IsWorkDone p \<and> ostarted p = oposted p \<and> pushing p = None)"
proof -
  have "ostarted p @ m_WorkQueue p = oposted p"
    using assms unfolding op_reach_def by (rule ourpool.fifo)
  then show ?thesis using op_reach_inv [OF assms] by (auto simp: op_inv_def)
qed

definition sample_ids :: "nat list" where
  "sample_ids = [77, 77]"

text \<open>One job, then the destructor, then worker 1 leaves.\<close>

definition sample_op_acts :: "nat op_action list" where
  "sample_op_acts = [BeginPush 5, EndPush, OWork 1, OWork 1, OWork 1, OWork 1, OWork 1, ODestroy, OWork 1]"

lemma sample_op_run:
  obtains p where "op_exec hf id sample_op_acts (initialize_pool sample_ids) = Some p" "opc p 1 = Gone" "oposted p = [5]"
  by (cases hf) (simp_all add: sample_op_acts_def sample_ids_def op_exec_simps)

theorem op_fifo_no_drop_witness:
  "\<exists>p. op_reach ThreadPool_h id sample_ids p \<and> oposted p = [5 :: nat] \<and> ostarted p = oposted p"
proof -
  obtain p :: "nat opool" where p: "op_exec ThreadPool_h id sample_op_acts (initialize_pool sample_ids) = Some p"
    "opc p 1 = Gone" "oposted p = [5]" by (rule sample_op_run)
  have "\<exists>t<length sample_ids. opc p t = Gone" using p(2) by (auto simp: sample_ids_def intro: exI [of _ 1])
  then show ?thesis using op_fifo_no_drop [OF op_exec_reach [OF p(1)]] op_exec_reach [OF p(1)] p(3) by auto
qed

fun running_job :: "'j opc \<Rightarrow> 'j option" where
  "running_job (RunLocked j) = Some j" | "running_job (RunFree j) = Some j" | "running_job l = None"

text \<open>C30: \<open>ThreadPool.h\<close> is no pool: in no reachable state do two of its workers run a job at the
  same time, whatever the number of threads, because a job runs under the mutex of the queue. In
  \<open>ThreadPool_new.h\<close> two jobs can run at once.\<close>

theorem op_parallelism:
  assumes "2 \<le> length ids"
  shows "(\<forall>p t u. op_reach ThreadPool_h self ids (p :: nat opool) \<longrightarrow> running_job (opc p t) \<noteq> None \<longrightarrow>
        running_job (opc p u) \<noteq> None \<longrightarrow> t = u)
    \<and> (\<exists>p. op_reach ThreadPool_new_h self ids (p :: nat opool) \<and> running_job (opc p 0) = Some 5
        \<and> running_job (opc p 1) = Some 6)"
proof
  show "\<forall>p t u. op_reach ThreadPool_h self ids (p :: nat opool) \<longrightarrow> running_job (opc p t) \<noteq> None \<longrightarrow>
      running_job (opc p u) \<noteq> None \<longrightarrow> t = u"
  proof (intro allI impI)
    fix p :: "nat opool" and t u
    assume r: "op_reach ThreadPool_h self ids p" "running_job (opc p t) \<noteq> None" "running_job (opc p u) \<noteq> None"
    have "holding_o p v" if "running_job (opc p v) \<noteq> None" for v
      using op_reach_inv [OF r(1)] that
      by (cases "opc p v") (auto simp: op_inv_def holding_o_def dest: spec [of _ v])
    then show "t = u" using ourlock.exclusive r unfolding op_reach_def by blast
  qed
  have "1 < length ids" "0 < length ids" using assms by auto
  then obtain p :: "nat opool" where "op_exec ThreadPool_new_h self [BeginPush 5, EndPush, BeginPush 6, EndPush, OWork 0, OWork 0, OWork 0,
      OWork 0, OWork 1, OWork 1, OWork 1, OWork 1] (initialize_pool ids) = Some p"
    "running_job (opc p 0) = Some 5" "running_job (opc p 1) = Some 6"
    by (simp add: op_exec_simps)
  then show "\<exists>p. op_reach ThreadPool_new_h self ids (p :: nat opool) \<and> running_job (opc p 0) = Some 5
        \<and> running_job (opc p 1) = Some 6"
    using op_exec_reach by blast
qed

theorem op_parallelism_witness:
  "\<exists>p. op_reach ThreadPool_new_h id sample_ids (p :: nat opool) \<and> running_job (opc p 0) = Some 5
        \<and> running_job (opc p 1) = Some 6"
  using op_parallelism [of sample_ids id] by (simp add: sample_ids_def)

text \<open>\<open>dispatch_thread\<close> of both pools takes no lock: in a reachable state a push is under way
  while a worker, holding the mutex, is about to pop from the same queue.\<close>

theorem op_race:
  assumes "ids \<noteq> []"
  shows "\<exists>p. op_reach hf self ids (p :: nat opool) \<and> pushing p \<noteq> None \<and> opc p 0 = Popping
    \<and> m_QueueMutex p = Some 0"
proof -
  have "0 < length ids" using assms by simp
  then obtain p :: "nat opool" where "op_exec hf self [BeginPush 5, EndPush, OWork 0, OWork 0, BeginPush 6] (initialize_pool ids) = Some p"
    "pushing p \<noteq> None" "opc p 0 = Popping" "m_QueueMutex p = Some 0"
    by (cases hf) (simp_all add: op_exec_simps)
  then show ?thesis using op_exec_reach by blast
qed

theorem op_race_witness:
  "\<exists>p. op_reach ThreadPool_new_h id sample_ids (p :: nat opool) \<and> pushing p \<noteq> None \<and> opc p 0 = Popping
    \<and> m_QueueMutex p = Some 0"
  by (rule op_race) (simp add: sample_ids_def)

subsection \<open>Availability\<close>

lemma status_step:
  assumes "op_step hf self p p'" "i \<notin> range self" "m_ThreadStatus p i = Some True"
  shows "m_ThreadStatus p' i = Some True"
  using assms(1)
proof (cases rule: op_step.cases)
  case (worker t)
  have "i \<noteq> self t" using assms(2) by blast
  then show ?thesis
    using worker(2) assms(3)
    by (cases hf) (auto simp: worker_loops op_defs split: opc.splits list.splits if_splits)
qed (use assms(3) in \<open>auto simp: op_defs split: option.splits\<close>)

text \<open>\<open>thread_avail\<close> of both pools says nothing: the ids stored at start-up were read before
  \<open>pthread_create\<close> set them, and unless one of them happens to be a worker's id, \<open>thread_avail\<close> is true
  in every reachable state, even while all workers are busy or gone.\<close>

theorem op_avail:
  assumes "op_reach hf self ids p" "i \<in> set ids" "i \<notin> range self"
  shows "thread_avail_o p"
proof -
  have "m_ThreadStatus p i = Some True \<and> m_ThreadPool p = ids"
    using assms(1) unfolding op_reach_def
  proof (induction rule: rtranclp_induct)
    case base
    show ?case using assms(2) by (simp add: initialize_pool_def)
  next
    case (step q q')
    from step.hyps(2) have "m_ThreadPool q' = m_ThreadPool q"
      by (cases rule: op_step.cases) (auto simp: op_defs dest: loop_other(2) split: option.splits)
    then show ?case using step.IH status_step [OF step.hyps(2) assms(3)] by simp
  qed
  then show ?thesis using assms(2) by (auto simp: thread_avail_o_def list_ex_iff)
qed

theorem op_avail_witness:
  "\<exists>p. op_reach ThreadPool_h (\<lambda>t. t mod 2) sample_ids (p :: nat opool) \<and> running_job (opc p 1) = Some 5 \<and> thread_avail_o p"
proof -
  obtain p :: "nat opool" where p: "op_exec ThreadPool_h (\<lambda>t. t mod 2) [BeginPush 5, EndPush, OWork 1, OWork 1, OWork 1]
      (initialize_pool sample_ids) = Some p" "running_job (opc p 1) = Some 5"
    by (simp add: op_exec_simps sample_ids_def)
  have "77 \<notin> range (\<lambda>t :: nat. t mod 2)"
  proof
    assume "77 \<in> range (\<lambda>t :: nat. t mod 2)"
    then obtain t :: nat where "77 = t mod 2" by auto
    then show False using mod_less_divisor [of 2 t] by simp
  qed
  from op_avail [OF op_exec_reach [OF p(1)] _ this] have "thread_avail_o p" by (simp add: sample_ids_def)
  then show ?thesis using p op_exec_reach by blast
qed

subsection \<open>Shutdown\<close>

fun rank_o :: "'j opc \<Rightarrow> nat" where
  "rank_o TryLock = 4" | "rank_o QLocked = 3" | "rank_o (RunLocked j) = 3" | "rank_o (FoundWork j) = 3"
| "rank_o Unlocking = 2" | "rank_o (RunFree j) = 2" | "rank_o ExitTest = 1" | "rank_o Gone = 0"
| "rank_o Popping = 0"

definition op_work :: "'j opool \<Rightarrow> nat" where
  "op_work p = (\<Sum>t<m_PoolSize p. rank_o (opc p t))"

lemma loop_work:
  assumes "worker_loop hf self t p = Some p'" "t < m_PoolSize p" "op_inv hf p" "m_IsWorkDone p" "m_WorkQueue p = []"
  shows "op_work p' < op_work p"
proof -
  have "rank_o (opc p' t) < rank_o (opc p t)"
    using assms(1,3-5)
    by (cases hf; cases "opc p t") (auto simp: worker_loops op_defs op_inv_def split: if_splits)
  moreover have "opc p' = (opc p)(t := opc p' t)"
    using loop_other(1) [OF assms(1)] by (auto simp: fun_eq_iff)
  ultimately show ?thesis
    using sum_fun_upd [OF assms(2), of rank_o "opc p" "opc p' t"] loop_other(2) [OF assms(1)]
    by (simp add: op_work_def)
qed

lemma loop_stuck:
  assumes "op_inv hf p" "\<And>t. holding_o p t \<longleftrightarrow> m_QueueMutex p = Some t" "\<forall>t<m_PoolSize p. worker_loop hf self t p = None"
    and "\<forall>t. m_QueueMutex p = Some t \<longrightarrow> t < m_PoolSize p" "t < m_PoolSize p"
  shows "opc p t = Gone"
proof -
  have free: "m_QueueMutex p = None"
  proof (cases "m_QueueMutex p")
    case (Some u)
    then have "holding_o p u" "worker_loop hf self u p = None" using assms(2-4) by auto
    then show ?thesis
      using assms(1)
      by (cases hf; cases "opc p u")
        (auto simp: worker_loops holding_o_def op_inv_def dest: spec [of _ u] split: list.splits if_splits)
  qed simp
  have "worker_loop hf self t p = None" using assms(3,5) by blast
  then show ?thesis
    using assms(1) free assms(2) [of t]
    by (cases hf; cases "opc p t")
      (auto simp: worker_loops holding_o_def op_inv_def dest: spec [of _ t] split: list.splits if_splits)
qed

lemma mutex_worker: "op_reach hf self ids p \<Longrightarrow> m_QueueMutex p = Some t \<Longrightarrow> t < length ids"
  unfolding op_reach_def
proof (induction rule: rtranclp_induct)
  case base
  then show ?case by (simp add: initialize_pool_def)
next
  case (step q q')
  have n: "m_PoolSize q = length ids" using op_reach_inv step.hyps(1) unfolding op_reach_def by blast
  from step.hyps(2) show ?case
  proof (cases rule: op_step.cases)
    case (worker u)
    then show ?thesis
      using step.IH step.prems n
      by (cases hf; cases "opc q u") (auto simp: worker_loops op_defs split: list.splits if_splits)
  qed (use step.IH step.prems in \<open>auto simp: op_defs split: option.splits\<close>)
qed

text \<open>Shutdown of both pools cannot hang, other than in \<open>newLibs/threadpool.cpp\<close>: once the
  destructor has been called and the queue is empty, the workers take at most four steps each,
  however they are scheduled, and when none can move all of them are gone.\<close>

theorem op_shutdown:
  assumes "op_reach hf self ids p" "m_IsWorkDone p" "m_WorkQueue p = []"
    and "((\<lambda>p p'. \<exists>t<m_PoolSize p. worker_loop hf self t p = Some p') ^^ k) p q"
  shows "k \<le> 4 * length ids \<and> ((\<forall>t<length ids. worker_loop hf self t q = None) \<longrightarrow> (\<forall>t<length ids. opc q t = Gone))"
proof -
  have "op_reach hf self ids q \<and> m_IsWorkDone q \<and> m_WorkQueue q = [] \<and> k + op_work q \<le> op_work p"
    using assms(4)
  proof (induction k arbitrary: q)
    case 0
    then show ?case using assms(1-3) by simp
  next
    case (Suc k)
    then obtain r t where r: "t < m_PoolSize r" "worker_loop hf self t r = Some q"
      "op_reach hf self ids r" "m_IsWorkDone r" "m_WorkQueue r = []" "k + op_work r \<le> op_work p" by auto
    have "op_step hf self r q" using r(1,2) by (rule op_step.worker)
    then have "op_reach hf self ids q" using r(3) unfolding op_reach_def by auto
    moreover have "m_IsWorkDone q" "m_WorkQueue q = []" using r loop_other(2) [OF r(2)] loop_queue [OF r(2)] by auto
    moreover have "op_work q < op_work r"
      using loop_work [OF r(2,1) _ r(4,5)] op_reach_inv [OF r(3)] by blast
    ultimately show ?case using r(6) by simp
  qed
  then have q: "op_reach hf self ids q" "k \<le> op_work p" by auto
  have "op_work p \<le> (\<Sum>t<m_PoolSize p. 4)"
  proof -
    have "rank_o l \<le> 4" for l :: "'a opc" by (cases l) simp_all
    then show ?thesis unfolding op_work_def by (intro sum_mono)
  qed
  then have "k \<le> 4 * length ids" using q(2) op_reach_inv [OF assms(1)] by simp
  moreover have "\<forall>t<length ids. opc q t = Gone" if "\<forall>t<length ids. worker_loop hf self t q = None"
    using loop_stuck [of hf q self] that op_reach_inv [OF q(1)] mutex_worker [OF q(1)]
      ourlock.owner_iff q(1) unfolding op_reach_def by metis
  ultimately show ?thesis by blast
qed

theorem op_shutdown_witness:
  "\<exists>p q. op_reach ThreadPool_new_h id sample_ids (p :: nat opool) \<and> m_IsWorkDone p
     \<and> worker_loop ThreadPool_new_h id 0 p = Some q \<and> 1 \<le> 4 * length sample_ids"
proof -
  obtain p :: "nat opool" where p: "op_exec ThreadPool_new_h id [ODestroy] (initialize_pool sample_ids) = Some p"
    "m_IsWorkDone p" "m_WorkQueue p = []" by (simp add: op_exec_simps)
  obtain q where q: "worker_loop ThreadPool_new_h id 0 p = Some q" "m_PoolSize p = 2"
    using p(1) by (auto simp: op_exec_simps sample_ids_def)
  then have "((\<lambda>p p'. \<exists>t<m_PoolSize p. worker_loop ThreadPool_new_h id t p = Some p') ^^ 1) p q"
    by (auto intro!: exI [of _ 0])
  from op_shutdown [OF op_exec_reach [OF p(1)] p(2,3) this] show ?thesis
    using op_exec_reach [OF p(1)] p(2) q by blast
qed

end
