(* ===== verification/OurScheduler.thy ===== *)
theory OurScheduler
  imports Std_Heap
begin

text \<open>
  The event scheduler of \<open>ourLibs/EventScheduler.h\<close>. Every scheduled event has an entry in a map
  (function, time to sleep, cancelled or not), an entry in a priority queue on the time it is due,
  and a job in the thread pool; each of these jobs is the same call of \<open>executeEvents\<close>, which looks
  for the event to run at the front of the queue. The pool is the one of \<open>ourLibs/ThreadPool.h\<close>,
  which runs one job at a time (theory \<open>OurPools\<close>), so at most one call of \<open>executeEvents\<close> is under
  way; its steps interleave with the operations of the (single) calling thread. \<open>ran\<close>, \<open>skipped\<close> and
  \<open>slept\<close> are history variables.
\<close>

section \<open>State\<close>

record EventTime =
  eventID :: int
  execTime :: int

definition CompareEventTime :: "EventTime \<Rightarrow> EventTime \<Rightarrow> bool" where
  "CompareEventTime e1 e2 \<longleftrightarrow> execTime e2 < execTime e1"

interpretation fq: weak_order CompareEventTime
  by unfold_locales (auto simp: CompareEventTime_def)

record 'j FunctionInfo =
  fn_job :: 'j                  \<comment> \<open>\<open>function\<close> with its \<open>arg\<close>\<close>
  go_time :: "int \<times> int"        \<comment> \<open>seconds and microseconds\<close>
  isCancelled :: bool

datatype epc =
    EGrab                        \<comment> \<open>at the first \<open>data_mutex.lock()\<close>\<close>
  | ESleep int "int option"      \<comment> \<open>at \<open>select\<close>, with \<open>id\<close> and \<open>it\<close>; \<open>None\<close> is \<open>efMap.end()\<close>\<close>
  | EAwake int                   \<comment> \<open>at the test of \<open>isCancelled\<close>\<close>
  | EPop int                     \<comment> \<open>at the second \<open>data_mutex.lock()\<close>\<close>

record 'j osched =
  max_events :: int
  event_num :: int
  efMap :: "int \<rightharpoonup> 'j FunctionInfo"
  fQueue :: "EventTime list"
  waiting_jobs :: nat            \<comment> \<open>calls of \<open>executeEvents\<close> in the queue of the pool\<close>
  exec :: "epc option"           \<comment> \<open>the call under way\<close>
  ran :: "(int \<times> 'j \<times> int) list"   \<comment> \<open>with the value of \<open>slept\<close> when it ran\<close>
  skipped :: "int list"
  slept :: int                   \<comment> \<open>microseconds spent in \<open>select\<close>\<close>

definition EventScheduler_ours :: "int \<Rightarrow> 'j osched" where
  "EventScheduler_ours maxEvents = \<lparr>max_events = maxEvents, event_num = 0, efMap = (\<lambda>_. None), fQueue = [],
     waiting_jobs = 0, exec = None, ran = [], skipped = [], slept = 0\<rparr>"

section \<open>Operations\<close>

text \<open>The loop that carries microseconds into seconds.\<close>

function carry :: "int \<Rightarrow> int \<Rightarrow> int \<times> int" where
  "carry secs msecs = (if 1000000 \<le> msecs then carry (secs + 1) (msecs - 1000000) else (secs, msecs))"
  by pat_completeness auto
termination
  by (relation "measure (\<lambda>(secs, msecs). nat msecs)") auto

declare carry.simps [simp del]

text \<open>\<open>now\<close> is what \<open>getNow\<close> returns, in milliseconds.\<close>

definition getExecTime :: "int \<Rightarrow> i32 \<Rightarrow> int res" where
  "getExecTime now timeout =
     (let t = now + sint timeout in if - (2 ^ 63) \<le> t \<and> t < 2 ^ 63 then Inr t else Inl SignedOverflow)"

definition eventSchedule_ours :: "'j \<Rightarrow> i32 \<Rightarrow> int \<Rightarrow> 'j osched \<Rightarrow> (int \<times> 'j osched) res" where
  "eventSchedule_ours job timeout now s =
     (let thisEvent = event_num s in
      rbind (chk_int (sint timeout * 1000)) (\<lambda>msecs.
      let f = \<lparr>fn_job = job, go_time = carry 0 msecs, isCancelled = False\<rparr> in
      rbind (getExecTime now timeout) (\<lambda>t.
      let e = \<lparr>eventID = thisEvent, execTime = t\<rparr>;
          m = (if efMap s thisEvent = None then (efMap s)(thisEvent \<mapsto> f) else efMap s) in
      rbind (chk_int (event_num s + 1)) (\<lambda>next.
      Inr (thisEvent, s\<lparr>efMap := m, fQueue := push_heap CompareEventTime (fQueue s @ [e]),
                        waiting_jobs := waiting_jobs s + 1, event_num := next\<rparr>)))))"

definition eventCancel_ours :: "int \<Rightarrow> 'j osched \<Rightarrow> 'j osched res" where
  "eventCancel_ours eid s = (case efMap s eid of
       None \<Rightarrow> Inl BadIterator
     | Some f \<Rightarrow> Inr (s\<lparr>efMap := (efMap s)(eid \<mapsto> f\<lparr>isCancelled := True\<rparr>)\<rparr>))"

text \<open>The pool starts the next call of \<open>executeEvents\<close>.\<close>

definition start_job :: "'j osched \<Rightarrow> 'j osched option" where
  "start_job s = (if exec s = None \<and> 0 < waiting_jobs s
     then Some (s\<lparr>waiting_jobs := waiting_jobs s - 1, exec := Some EGrab\<rparr>) else None)"

text \<open>One step of \<open>executeEvents\<close>.\<close>

definition sleep_usecs :: "int \<times> int \<Rightarrow> int" where
  "sleep_usecs t = max 0 (fst t * 1000000 + snd t)"

definition executeEvents :: "'j osched \<Rightarrow> 'j osched res option" where
  "executeEvents s = (case exec s of
       None \<Rightarrow> None
     | Some EGrab \<Rightarrow> Some (case fQueue s of
           [] \<Rightarrow> Inl EmptyFront
         | e # _ \<Rightarrow> Inr (s\<lparr>exec := Some (ESleep (eventID e)
                        (if efMap s (eventID e) = None then None else Some (eventID e)))\<rparr>))
     | Some (ESleep eid it) \<Rightarrow> Some (case Option.bind it (efMap s) of
           None \<Rightarrow> Inl BadIterator
         | Some f \<Rightarrow> Inr (s\<lparr>slept := slept s + sleep_usecs (go_time f), exec := Some (EAwake eid)\<rparr>))
     | Some (EAwake eid) \<Rightarrow> Some (case efMap s eid of
           None \<Rightarrow> Inl BadIterator
         | Some f \<Rightarrow> Inr (if isCancelled f then s\<lparr>skipped := skipped s @ [eid], exec := Some (EPop eid)\<rparr>
                         else s\<lparr>ran := ran s @ [(eid, fn_job f, slept s)], exec := Some (EPop eid)\<rparr>))
     | Some (EPop eid) \<Rightarrow> Some (if fQueue s = [] then Inl EmptyFront
         else Inr (s\<lparr>fQueue := butlast (pop_heap CompareEventTime (fQueue s)),
                     efMap := (efMap s)(eid := None), exec := None\<rparr>)))"

text \<open>The destructor waits until this holds.\<close>

definition destroyable :: "'j osched \<Rightarrow> bool" where
  "destroyable s \<longleftrightarrow> fQueue s = []"

text \<open>Any step. A run is orderly when no event is scheduled that is due before the one a call of
  \<open>executeEvents\<close> has already chosen.\<close>

definition fits :: "i32 \<Rightarrow> int \<Rightarrow> 'j osched \<Rightarrow> bool" where
  "fits timeout now s = (case exec s of
     None \<Rightarrow> True | Some EGrab \<Rightarrow> True | _ \<Rightarrow> execTime (hd (fQueue s)) \<le> now + sint timeout)"

inductive os_step :: "bool \<Rightarrow> 'j osched \<Rightarrow> 'j osched \<Rightarrow> bool" for orderly where
  schedule: "(orderly \<Longrightarrow> fits timeout now s) \<Longrightarrow> eventSchedule_ours job timeout now s = Inr (eid, s') \<Longrightarrow>
    os_step orderly s s'"
| cancel: "eventCancel_ours eid s = Inr s' \<Longrightarrow> os_step orderly s s'"
| start: "start_job s = Some s' \<Longrightarrow> os_step orderly s s'"
| execute: "executeEvents s = Some (Inr s') \<Longrightarrow> os_step orderly s s'"

definition os_reach :: "bool \<Rightarrow> int \<Rightarrow> 'j osched \<Rightarrow> bool" where
  "os_reach orderly m s \<longleftrightarrow> (os_step orderly)\<^sup>*\<^sup>* (EventScheduler_ours m) s"

section \<open>Scheduling\<close>

lemma carry_eq: "0 \<le> m \<Longrightarrow> carry s m = (s + m div 1000000, m mod 1000000)"
proof (induction s m rule: carry.induct)
  case (1 secs msecs)
  show ?case
  proof (cases "1000000 \<le> msecs")
    case True
    have "msecs div 1000000 = (msecs - 1000000) div 1000000 + 1"
      "msecs mod 1000000 = (msecs - 1000000) mod 1000000"
      using div_add_self2 [of "1000000 :: int" "msecs - 1000000"] mod_add_self2 [of "msecs - 1000000" "1000000 :: int"]
      by simp_all
    then show ?thesis using True 1 by (subst carry.simps) simp
  next
    case False
    then show ?thesis using 1(2) by (subst carry.simps) simp
  qed
qed

lemma sleep_carry: "0 \<le> m \<Longrightarrow> sleep_usecs (carry 0 m) = m"
  by (simp add: carry_eq sleep_usecs_def)

text \<open>In the state, the ids in the queue are those of the map and below \<open>event_num\<close>; there is one
  job, waiting or under way, for each entry of the queue; and the entry that a call under way has
  chosen is the front.\<close>

definition pc_ok :: "'j osched \<Rightarrow> bool" where
  "pc_ok s = (case exec s of
       None \<Rightarrow> True
     | Some EGrab \<Rightarrow> fQueue s \<noteq> []
     | Some (ESleep eid it) \<Rightarrow> fQueue s \<noteq> [] \<and> eventID (hd (fQueue s)) = eid \<and> it = Some eid
     | Some (EAwake eid) \<Rightarrow> fQueue s \<noteq> [] \<and> eventID (hd (fQueue s)) = eid
     | Some (EPop eid) \<Rightarrow> fQueue s \<noteq> [] \<and> eventID (hd (fQueue s)) = eid)"

definition os_inv :: "'j osched \<Rightarrow> bool" where
  "os_inv s \<longleftrightarrow> is_heap CompareEventTime (fQueue s) \<and> distinct (map eventID (fQueue s))
     \<and> eventID ` set (fQueue s) = dom (efMap s) \<and> 0 \<le> event_num s
     \<and> (\<forall>e\<in>set (fQueue s). 0 \<le> eventID e \<and> eventID e < event_num s)
     \<and> waiting_jobs s + (if exec s = None then 0 else 1) = length (fQueue s) \<and> pc_ok s"

definition popped :: "'j osched \<Rightarrow> int multiset" where
  "popped s = (case exec s of Some (EPop eid) \<Rightarrow> {#eid#} | _ \<Rightarrow> {#})"

definition os_account :: "'j osched \<Rightarrow> bool" where
  "os_account s \<longleftrightarrow> mset (map eventID (fQueue s)) + mset (map fst (ran s)) + mset (skipped s)
     = mset (map int [0..<nat (event_num s)]) + popped s"

lemma eventSchedule_cases:
  assumes "eventSchedule_ours job timeout now s = Inr (eid, s')" "os_inv s"
  obtains e f where "eid = event_num s" "eventID e = event_num s" "execTime e = now + sint timeout"
    "fn_job f = job" "\<not> isCancelled f" "go_time f = carry 0 (sint timeout * 1000)"
    "s' = s\<lparr>efMap := (efMap s)(event_num s \<mapsto> f), fQueue := push_heap CompareEventTime (fQueue s @ [e]),
            waiting_jobs := waiting_jobs s + 1, event_num := event_num s + 1\<rparr>"
proof -
  have "event_num s \<notin> dom (efMap s)" using assms(2) by (force simp: os_inv_def)
  then have "efMap s (event_num s) = None" by auto
  then show thesis
    using assms(1) that [of "\<lparr>eventID = event_num s, execTime = now + sint timeout\<rparr>"
        "\<lparr>fn_job = job, go_time = carry 0 (sint timeout * 1000), isCancelled = False\<rparr>"]
    by (auto simp: eventSchedule_ours_def getExecTime_def chk_int_def Let_def res_simps split: if_splits)
qed

lemma heap_front_id:
  assumes "is_heap CompareEventTime (e # q)"
  shows "mset (butlast (pop_heap CompareEventTime (e # q))) = mset q"
    "is_heap CompareEventTime (butlast (pop_heap CompareEventTime (e # q)))"
    "length (butlast (pop_heap CompareEventTime (e # q))) = length q"
  using fq.heap.pop_rest [of "e # q"] fq.heap.pop(1) [OF assms] fq.heap.length_pop [of "e # q"] by simp_all

lemma schedule_inv:
  assumes "eventSchedule_ours job timeout now s = Inr (eid, s')" "os_inv s" "os_account s" "fits timeout now s"
  shows "os_inv s' \<and> os_account s'"
proof -
  obtain e f where e: "eventID e = event_num s" "execTime e = now + sint timeout" and
    s': "s' = s\<lparr>efMap := (efMap s)(event_num s \<mapsto> f), fQueue := push_heap CompareEventTime (fQueue s @ [e]),
            waiting_jobs := waiting_jobs s + 1, event_num := event_num s + 1\<rparr>"
    by (rule eventSchedule_cases [OF assms(1,2)]) blast
  let ?q = "push_heap CompareEventTime (fQueue s @ [e])"
  have inv: "is_heap CompareEventTime (fQueue s)" "distinct (map eventID (fQueue s))"
    "eventID ` set (fQueue s) = dom (efMap s)" "0 \<le> event_num s"
    "\<forall>e\<in>set (fQueue s). 0 \<le> eventID e \<and> eventID e < event_num s"
    "waiting_jobs s + (if exec s = None then 0 else 1) = length (fQueue s)" "pc_ok s"
    using assms(2) by (simp_all add: os_inv_def)
  have m: "mset ?q = add_mset e (mset (fQueue s))" by (rule fq.heap.push(2))
  have set: "set ?q = insert e (set (fQueue s))" using arg_cong [OF m, of set_mset] by simp
  have "mset (map eventID ?q) = mset (map eventID (e # fQueue s))" using m by simp
  then have "distinct (map eventID ?q) = distinct (map eventID (e # fQueue s))"
    by (rule mset_eq_imp_distinct_iff)
  then have dist: "distinct (map eventID ?q)" using inv(2,5) e(1) by auto
  have len: "length ?q = Suc (length (fQueue s))" by (rule fq.heap.length_push)
  have ne: "?q \<noteq> []" using len by auto
  have "pc_ok s'"
  proof (cases "exec s = None \<or> exec s = Some EGrab")
    case True
    then show ?thesis using ne by (auto simp: pc_ok_def s')
  next
    case False
    then have q: "fQueue s \<noteq> []" "execTime (hd (fQueue s)) \<le> now + sint timeout"
      using inv(7) assms(4) by (auto simp: pc_ok_def fits_def split: option.splits epc.splits)
    then have "hd ?q = hd (fQueue s)"
      using fq.push_heap_front [OF q(1), of e] e(2) by (simp add: CompareEventTime_def)
    then show ?thesis using inv(7) ne False by (auto simp: pc_ok_def s' split: option.splits epc.splits)
  qed
  then have "os_inv s'"
    using inv dist len set e(1) fq.heap.push(1) [OF inv(1)] by (auto simp: os_inv_def s')
  moreover have "nat (event_num s + 1) = Suc (nat (event_num s))" using inv(4) by simp
  then have "os_account s'"
    using assms(3) m e(1) inv(4) by (simp add: os_account_def popped_def s')
  ultimately show ?thesis ..
qed

section \<open>The other steps\<close>

lemma cancel_inv:
  assumes "eventCancel_ours eid s = Inr s'" "os_inv s" "os_account s"
  shows "os_inv s' \<and> os_account s'"
proof -
  obtain f where f: "efMap s eid = Some f" "s' = s\<lparr>efMap := (efMap s)(eid \<mapsto> f\<lparr>isCancelled := True\<rparr>)\<rparr>"
    using assms(1) by (auto simp: eventCancel_ours_def split: option.splits)
  then have "dom (efMap s') = dom (efMap s)" by auto
  moreover have "pc_ok s' = pc_ok s"
    by (cases "exec s") (auto simp: pc_ok_def f(2) split: epc.splits)
  ultimately show ?thesis
    using assms(2,3) f(2) by (simp add: os_inv_def os_account_def popped_def)
qed

lemma start_inv:
  assumes "start_job s = Some s'" "os_inv s" "os_account s"
  shows "os_inv s' \<and> os_account s'"
proof -
  have s': "exec s = None" "0 < waiting_jobs s" "s' = s\<lparr>waiting_jobs := waiting_jobs s - 1, exec := Some EGrab\<rparr>"
    using assms(1) by (auto simp: start_job_def split: if_splits)
  then have "fQueue s \<noteq> []" using assms(2) by (auto simp: os_inv_def)
  then show ?thesis
    using s' assms(2,3) by (simp add: os_inv_def os_account_def popped_def pc_ok_def)
qed

text \<open>\<open>executeEvents\<close> on a well-formed state, from its start to its end: it does not fault, and its
  four steps are these.\<close>

lemma execute_steps:
  assumes "os_inv s" "fQueue s = e # q" "efMap s (eventID e) = Some f"
  shows "exec s = Some EGrab \<Longrightarrow> executeEvents s = Some (Inr (s\<lparr>exec := Some (ESleep (eventID e) (Some (eventID e)))\<rparr>))"
    and "exec s = Some (ESleep i it) \<Longrightarrow> executeEvents s =
      Some (Inr (s\<lparr>slept := slept s + sleep_usecs (go_time f), exec := Some (EAwake (eventID e))\<rparr>))"
    and "exec s = Some (EAwake i) \<Longrightarrow> executeEvents s =
      Some (Inr (if isCancelled f then s\<lparr>skipped := skipped s @ [eventID e], exec := Some (EPop (eventID e))\<rparr>
                 else s\<lparr>ran := ran s @ [(eventID e, fn_job f, slept s)], exec := Some (EPop (eventID e))\<rparr>))"
    and "exec s = Some (EPop i) \<Longrightarrow> executeEvents s =
      Some (Inr (s\<lparr>fQueue := butlast (pop_heap CompareEventTime (e # q)),
                   efMap := (efMap s)(eventID e := None), exec := None\<rparr>))"
  using assms by (auto simp: executeEvents_def os_inv_def pc_ok_def)

lemma front_entry:
  assumes "os_inv s" "fQueue s = e # q"
  obtains f where "efMap s (eventID e) = Some f"
  using assms by (force simp: os_inv_def dom_def)

lemma exec_front:
  assumes "os_inv s" "exec s = Some pc"
  obtains e q f where "fQueue s = e # q" "efMap s (eventID e) = Some f"
proof -
  have "fQueue s \<noteq> []" using assms by (auto simp: os_inv_def pc_ok_def split: epc.splits)
  then obtain e q where "fQueue s = e # q" by (cases "fQueue s") auto
  then show thesis using front_entry [OF assms(1)] that by metis
qed

lemma pop_inv:
  assumes "os_inv s" "os_account s" "exec s = Some (EPop i)" "fQueue s = e # q"
    and "s' = s\<lparr>fQueue := butlast (pop_heap CompareEventTime (e # q)), efMap := (efMap s)(eventID e := None), exec := None\<rparr>"
  shows "os_inv s' \<and> os_account s'"
proof -
  let ?r = "butlast (pop_heap CompareEventTime (e # q))"
  have h: "is_heap CompareEventTime (e # q)" using assms(1,4) by (simp add: os_inv_def)
  note pop = heap_front_id [OF h]
  have i: "i = eventID e" using assms(1,3,4) by (simp add: os_inv_def pc_ok_def)
  have set: "set ?r = set q" using arg_cong [OF pop(1), of set_mset] by simp
  have "mset (map eventID ?r) = mset (map eventID q)" using pop(1) by simp
  then have "distinct (map eventID ?r) = distinct (map eventID q)" by (rule mset_eq_imp_distinct_iff)
  moreover have "distinct (map eventID (e # q))" "eventID ` set (e # q) = dom (efMap s)"
    using assms(1,4) by (simp_all add: os_inv_def)
  then have "distinct (map eventID q)" "eventID ` set q = dom (efMap s) - {eventID e}"
    by (simp, metis Diff_insert_absorb distinct.simps(2) image_insert list.set_map list.simps(9) list.simps(15))
  ultimately have "os_inv s'"
    using assms(1,3-5) set pop(2,3) by (auto simp: os_inv_def pc_ok_def)
  moreover have "os_account s'"
    using assms(2-5) pop(1) i by (simp add: os_account_def popped_def)
  ultimately show ?thesis ..
qed

lemma execute_inv:
  assumes "os_inv s" "os_account s" "exec s = Some pc"
  shows "\<exists>s'. executeEvents s = Some (Inr s') \<and> os_inv s' \<and> os_account s'"
proof -
  obtain e q f where q: "fQueue s = e # q" "efMap s (eventID e) = Some f"
    by (rule exec_front [OF assms(1,3)])
  note steps = execute_steps [OF assms(1) q]
  have inv: "os_inv (s\<lparr>exec := Some pc'\<rparr>) \<longleftrightarrow> pc_ok (s\<lparr>exec := Some pc'\<rparr>)" for pc'
    using assms(1,3) by (simp add: os_inv_def)
  show ?thesis
  proof (cases pc)
    case EGrab
    then show ?thesis
      using steps(1) assms(1-3) q(1) by (auto simp: os_inv_def pc_ok_def os_account_def popped_def)
  next
    case (ESleep i it)
    then show ?thesis
      using steps(2) assms(1-3) q(1) by (auto simp: os_inv_def pc_ok_def os_account_def popped_def)
  next
    case (EAwake i)
    then show ?thesis
      using steps(3) assms(1-3) q(1) by (auto simp: os_inv_def pc_ok_def os_account_def popped_def)
  next
    case (EPop i)
    then show ?thesis using steps(4) pop_inv [OF assms(1,2) _ q(1) refl] assms(3) by auto
  qed
qed

lemma os_step_inv:
  assumes "os_step True s s'" "os_inv s" "os_account s"
  shows "os_inv s' \<and> os_account s'"
  using assms(1)
proof (cases rule: os_step.cases)
  case (schedule timeout now job eid)
  then show ?thesis using schedule_inv [OF schedule(2) assms(2,3)] by simp
next
  case (cancel eid)
  then show ?thesis using cancel_inv assms(2,3) by blast
next
  case start
  then show ?thesis using start_inv assms(2,3) by blast
next
  case execute
  then obtain pc where "exec s = Some pc" by (cases "exec s") (auto simp: executeEvents_def)
  then show ?thesis using execute_inv [OF assms(2,3)] execute by auto
qed

lemma os_init: "os_inv (EventScheduler_ours m)" "os_account (EventScheduler_ours m)"
  by (simp_all add: EventScheduler_ours_def os_inv_def os_account_def popped_def pc_ok_def is_heap_def)

lemma os_reach_inv: "os_reach True m s \<Longrightarrow> os_inv s \<and> os_account s"
  unfolding os_reach_def
  by (induction rule: rtranclp_induct) (use os_init os_step_inv in \<open>auto\<close>)

section \<open>Runs as lists of actions\<close>

datatype 'j os_action = Schedule 'j i32 int | CancelEvent int | StartJob | Execute

definition ok_res :: "'a res \<Rightarrow> 'a option" where
  "ok_res r = (case r of Inr s \<Rightarrow> Some s | _ \<Rightarrow> None)"

fun os_act :: "bool \<Rightarrow> 'j os_action \<Rightarrow> 'j osched \<Rightarrow> 'j osched option" where
  "os_act orderly (Schedule job ms now) s =
     (if orderly \<longrightarrow> fits ms now s then map_option snd (ok_res (eventSchedule_ours job ms now s)) else None)"
| "os_act orderly (CancelEvent eid) s = ok_res (eventCancel_ours eid s)"
| "os_act orderly StartJob s = start_job s"
| "os_act orderly Execute s = Option.bind (executeEvents s) ok_res"

fun os_exec :: "bool \<Rightarrow> 'j os_action list \<Rightarrow> 'j osched \<Rightarrow> 'j osched option" where
  "os_exec orderly [] s = Some s"
| "os_exec orderly (a # as) s = Option.bind (os_act orderly a s) (os_exec orderly as)"

lemma ok_res_simps [simp]: "ok_res (Inr s) = Some s" "ok_res (Inl e) = None" "ok_res r = Some s \<longleftrightarrow> r = Inr s"
  by (auto simp: ok_res_def split: sum.splits)

lemma os_act_step: "os_act orderly a s = Some s' \<Longrightarrow> os_step orderly s s'"
  by (cases a) (auto split: if_splits bind_splits intro: os_step.intros)

lemma os_exec_steps: "os_exec orderly as s = Some s' \<Longrightarrow> (os_step orderly)\<^sup>*\<^sup>* s s'"
  by (induction as arbitrary: s)
    (auto split: bind_splits intro: converse_rtranclp_into_rtranclp os_act_step)

lemma os_exec_reach: "os_exec orderly as (EventScheduler_ours m) = Some s \<Longrightarrow> os_reach orderly m s"
  unfolding os_reach_def by (rule os_exec_steps)

lemma os_exec_append: "os_exec b (as @ bs) s = Option.bind (os_exec b as s) (os_exec b bs)"
  by (induction as arbitrary: s) (auto split: Option.bind_split)

lemmas os_eval = EventScheduler_ours_def eventSchedule_ours_def eventCancel_ours_def start_job_def
  executeEvents_def getExecTime_def fits_def carry_eq sleep_usecs_def push_heap_def sift_up.simps swap_at_def
  CompareEventTime_def pop_heap_def sift_down.simps best_child_def Let_def

section \<open>What the scheduler guarantees to an orderly caller\<close>

text \<open>C31: If no event is scheduled that is due before the one already chosen, \<open>executeEvents\<close> never
  faults, and every event scheduled so far is exactly one of: still queued, run, or skipped as
  cancelled (an event between its run and its removal from the queue counted once).\<close>

theorem os_orderly:
  assumes "os_reach True m s"
  shows "(exec s \<noteq> None \<longrightarrow> (\<exists>s'. executeEvents s = Some (Inr s')))
    \<and> mset (map eventID (fQueue s)) + mset (map fst (ran s)) + mset (skipped s)
       = mset (map int [0..<nat (event_num s)]) + popped s"
  using os_reach_inv [OF assms] execute_inv unfolding os_account_def by blast


text \<open>Three events with timeouts of 300, 100 and 200 ms; the second is cancelled; one call of
  \<open>executeEvents\<close> is under way.\<close>

definition sample_os_acts :: "nat os_action list" where
  "sample_os_acts = [Schedule 7 300 1000, Schedule 8 100 1000, Schedule 9 200 1000, CancelEvent 1]"

definition sample_osched :: "nat osched" where
  "sample_osched = \<lparr>max_events = 4, event_num = 3,
     efMap = (\<lambda>_. None)(0 \<mapsto> \<lparr>fn_job = 7, go_time = (0, 300000), isCancelled = False\<rparr>,
                        1 \<mapsto> \<lparr>fn_job = 8, go_time = (0, 100000), isCancelled = True\<rparr>,
                        2 \<mapsto> \<lparr>fn_job = 9, go_time = (0, 200000), isCancelled = False\<rparr>),
     fQueue = [\<lparr>eventID = 1, execTime = 1100\<rparr>, \<lparr>eventID = 0, execTime = 1300\<rparr>, \<lparr>eventID = 2, execTime = 1200\<rparr>],
     waiting_jobs = 3, exec = None, ran = [], skipped = [], slept = 0\<rparr>"

lemma sample_os_reach: "os_reach True 4 sample_osched"
proof (rule os_exec_reach)
  show "os_exec True sample_os_acts (EventScheduler_ours 4) = Some sample_osched"
    by (simp add: sample_os_acts_def sample_osched_def os_eval fun_eq_iff)
qed

theorem os_orderly_witness:
  "os_reach True 4 sample_osched \<and> mset (map eventID (fQueue sample_osched)) = mset (map int [0..<3])"
  using os_orderly [OF sample_os_reach] sample_os_reach by (simp add: sample_osched_def popped_def)

text \<open>The calls of \<open>executeEvents\<close> for all events, one after the other.\<close>

definition one_call :: "'j os_action list" where
  "one_call = [StartJob, Execute, Execute, Execute, Execute]"

definition usecs_of :: "(int \<rightharpoonup> 'j FunctionInfo) \<Rightarrow> EventTime \<Rightarrow> int" where
  "usecs_of m e = sleep_usecs (go_time (the (m (eventID e))))"

text \<open>What runs when: the events in this order, each after its own sleep and those of all events
  before it, cancelled ones included.\<close>

fun timed :: "(int \<rightharpoonup> 'j FunctionInfo) \<Rightarrow> int \<Rightarrow> EventTime list \<Rightarrow> (int \<times> 'j \<times> int) list" where
  "timed m t [] = []"
| "timed m t (e # es) =
     (let f = the (m (eventID e)); t = t + usecs_of m e in
      (if isCancelled f then [] else [(eventID e, fn_job f, t)]) @ timed m t es)"

lemma timed_cong: "(\<And>e. e \<in> set es \<Longrightarrow> m (eventID e) = m' (eventID e)) \<Longrightarrow> timed m t es = timed m' t es"
  by (induction es arbitrary: t) (simp_all add: usecs_of_def Let_def)

lemma one_call_eq:
  assumes "os_inv s" "exec s = None" "fQueue s = e # q" "efMap s (eventID e) = Some f"
  shows "\<exists>s'. os_exec True one_call s = Some s' \<and> exec s' = None
    \<and> fQueue s' = butlast (pop_heap CompareEventTime (e # q)) \<and> efMap s' = (efMap s)(eventID e := None)
    \<and> slept s' = slept s + usecs_of (efMap s) e \<and> ran s' = ran s @ timed (efMap s) (slept s) [e]"
proof -
  have w: "0 < waiting_jobs s" "waiting_jobs s = Suc (length q)" using assms(1-3) by (simp_all add: os_inv_def)
  show ?thesis
    using assms(2-4) w by (auto simp: one_call_def start_job_def executeEvents_def usecs_of_def Let_def)
qed

lemma exec_inv: "os_exec True as s = Some s' \<Longrightarrow> os_inv s \<Longrightarrow> os_account s \<Longrightarrow> os_inv s' \<and> os_account s'"
proof (induction as arbitrary: s)
  case (Cons a as)
  then obtain r where r: "os_act True a s = Some r" "os_exec True as r = Some s'" by (auto split: bind_splits)
  then show ?case using Cons.IH [OF r(2)] os_step_inv [OF os_act_step [OF r(1)] Cons.prems(2,3)] by blast
qed simp

lemma run_all:
  assumes "os_inv s" "os_account s" "exec s = None" "length (fQueue s) = k"
  shows "\<exists>s'. os_exec True (concat (replicate k one_call)) s = Some s' \<and> exec s' = None \<and> fQueue s' = []
    \<and> efMap s' = (\<lambda>_. None)
    \<and> slept s' = slept s + sum_list (map (usecs_of (efMap s)) (take_fronts (pop_heap CompareEventTime) k (fQueue s)))
    \<and> ran s' = ran s @ timed (efMap s) (slept s) (take_fronts (pop_heap CompareEventTime) k (fQueue s))"
  using assms
proof (induction k arbitrary: s)
  case 0
  then have "dom (efMap s) = {}" by (simp add: os_inv_def)
  with 0 show ?case by simp
next
  case (Suc k)
  then obtain e q where q: "fQueue s = e # q" by (cases "fQueue s") auto
  obtain f where f: "efMap s (eventID e) = Some f" by (rule front_entry [OF Suc.prems(1) q])
  let ?rest = "butlast (pop_heap CompareEventTime (e # q))"
  obtain s1 where s1: "os_exec True one_call s = Some s1" "exec s1 = None" "fQueue s1 = ?rest"
    "efMap s1 = (efMap s)(eventID e := None)" "slept s1 = slept s + usecs_of (efMap s) e"
    "ran s1 = ran s @ timed (efMap s) (slept s) [e]"
    using one_call_eq [OF Suc.prems(1,3) q f] by blast
  have h: "is_heap CompareEventTime (e # q)" using Suc.prems(1) q by (simp add: os_inv_def)
  have len: "length (fQueue s1) = k" using heap_front_id(3) [OF h] s1(3) Suc.prems(4) q by simp
  have inv: "os_inv s1" "os_account s1" using exec_inv [OF s1(1) Suc.prems(1,2)] by simp_all
  let ?L = "take_fronts (pop_heap CompareEventTime) k ?rest"
  have "mset ?L = mset ?rest"
    using fq.heap.take_fronts_sorted [of ?rest k] inv(1) len s1(3) by (simp add: os_inv_def)
  then have "set ?L = set q" using heap_front_id(1) [OF h] by (metis set_mset_mset)
  moreover have "eventID e \<notin> eventID ` set q" using Suc.prems(1) q by (simp add: os_inv_def)
  ultimately have same: "efMap s1 (eventID x) = efMap s (eventID x)" if "x \<in> set ?L" for x
    using that s1(4) by (metis fun_upd_other imageI)
  have U: "map (usecs_of (efMap s1)) ?L = map (usecs_of (efMap s)) ?L"
    using same by (simp add: usecs_of_def)
  have T: "timed (efMap s1) t ?L = timed (efMap s) t ?L" for t
    using same by (intro timed_cong)
  obtain s' where "os_exec True (concat (replicate k one_call)) s1 = Some s'" "exec s' = None" "fQueue s' = []"
    "efMap s' = (\<lambda>_. None)" "slept s' = slept s1 + sum_list (map (usecs_of (efMap s)) ?L)"
    "ran s' = ran s1 @ timed (efMap s) (slept s1) ?L"
    using Suc.IH [OF inv s1(2) len] unfolding s1(3) U T by blast
  then show ?case
    using s1(1,5,6) q by (auto simp: os_exec_append Let_def)
qed

text \<open>C32: The events of an orderly caller all get their turn, in the order they are due, cancelled ones
  are skipped, and in the end nothing is left in queue or map. But the sleeps add up: since the
  pool runs one call at a time, each event runs after the sum of its own timeout and the timeouts
  of all events before it, the cancelled ones included.\<close>

theorem os_delays:
  assumes "os_reach True m s" "exec s = None"
  shows "\<exists>s' es. os_exec True (concat (replicate (length (fQueue s)) one_call)) s = Some s'
    \<and> fQueue s' = [] \<and> efMap s' = (\<lambda>_. None) \<and> mset es = mset (fQueue s)
    \<and> sorted_wrt (\<lambda>a b. execTime a \<le> execTime b) es
    \<and> ran s' = ran s @ timed (efMap s) (slept s) es
    \<and> slept s' = slept s + sum_list (map (usecs_of (efMap s)) es)"
proof -
  have inv: "os_inv s" "os_account s" using os_reach_inv [OF assms(1)] by simp_all
  let ?es = "take_fronts (pop_heap CompareEventTime) (length (fQueue s)) (fQueue s)"
  have h: "is_heap CompareEventTime (fQueue s)" using inv(1) by (simp add: os_inv_def)
  have "mset ?es = mset (fQueue s)" "sorted_wrt (\<lambda>a b. \<not> CompareEventTime a b) ?es"
    using fq.heap.take_fronts_sorted [OF h refl] by simp_all
  moreover have "(\<lambda>a b. \<not> CompareEventTime a b) = (\<lambda>a b. execTime a \<le> execTime b)"
    by (auto simp: CompareEventTime_def fun_eq_iff)
  ultimately show ?thesis using run_all [OF inv assms(2) refl] by auto
qed

theorem os_delays_witness:
  "\<exists>s' es. os_exec True (concat (replicate 3 one_call)) sample_osched = Some s' \<and> fQueue s' = []
     \<and> mset es = mset (fQueue sample_osched) \<and> ran s' = timed (efMap sample_osched) 0 es"
proof -
  have "exec sample_osched = None" "length (fQueue sample_osched) = 3" "ran sample_osched = []" "slept sample_osched = 0"
    by (simp_all add: sample_osched_def)
  then show ?thesis using os_delays [OF sample_os_reach] by fastforce
qed

text \<open>\<open>eventSchedule\<close> on a well-formed state: a timeout of more than 2147483 ms (or less than
  -2147483 ms) overflows \<open>int\<close>; every other one adds one event due \<open>timeout\<close> milliseconds from now,
  with a sleep of exactly this time and one job, however many events \<open>maxEvents\<close> allows.\<close>

theorem os_schedule:
  assumes "os_reach True m s" "event_num s < 2 ^ 31 - 1" "\<bar>now\<bar> < 2 ^ 62"
  shows "if \<bar>sint timeout\<bar> \<le> 2147483
    then \<exists>s' e f. eventSchedule_ours job timeout now s = Inr (event_num s, s') \<and> eventID e = event_num s
      \<and> execTime e = now + sint timeout \<and> mset (fQueue s') = add_mset e (mset (fQueue s))
      \<and> efMap s' = (efMap s)(event_num s \<mapsto> f) \<and> fn_job f = job \<and> \<not> isCancelled f
      \<and> (0 \<le> sint timeout \<longrightarrow> sleep_usecs (go_time f) = sint timeout * 1000)
      \<and> waiting_jobs s' = waiting_jobs s + 1 \<and> max_events s' = max_events s
    else eventSchedule_ours job timeout now s = Inl SignedOverflow"
proof (cases "\<bar>sint timeout\<bar> \<le> 2147483")
  case True
  have inv: "os_inv s" using os_reach_inv [OF assms(1)] by simp
  have "chk_int (sint timeout * 1000) = Inr (sint timeout * 1000)" "chk_int (event_num s + 1) = Inr (event_num s + 1)"
    using True assms(2) inv by (auto simp: chk_int_def os_inv_def)
  moreover have "getExecTime now timeout = Inr (now + sint timeout)"
    using True assms(3) by (auto simp: getExecTime_def Let_def)
  ultimately obtain s' where s': "eventSchedule_ours job timeout now s = Inr (event_num s, s')"
    by (simp add: eventSchedule_ours_def Let_def)
  obtain e f where e: "eventID e = event_num s" "execTime e = now + sint timeout"
    "fn_job f = job" "\<not> isCancelled f" "go_time f = carry 0 (sint timeout * 1000)"
    "s' = s\<lparr>efMap := (efMap s)(event_num s \<mapsto> f), fQueue := push_heap CompareEventTime (fQueue s @ [e]),
            waiting_jobs := waiting_jobs s + 1, event_num := event_num s + 1\<rparr>"
    by (rule eventSchedule_cases [OF s' inv])
  have "mset (fQueue s') = add_mset e (mset (fQueue s))" using e(6) fq.heap.push(2) by simp
  moreover have "0 \<le> sint timeout \<longrightarrow> sleep_usecs (go_time f) = sint timeout * 1000"
    using e(5) sleep_carry by simp
  ultimately show ?thesis using True s' e(1-4,6) by auto
next
  case False
  then have "chk_int (sint timeout * 1000) = Inl SignedOverflow" by (auto simp: chk_int_def)
  then show ?thesis using False by (simp add: eventSchedule_ours_def Let_def)
qed

theorem os_schedule_witness:
  "eventSchedule_ours 5 3000000 0 sample_osched = Inl SignedOverflow
     \<and> (\<exists>s'. eventSchedule_ours 5 50 0 sample_osched = Inr (3, s') \<and> waiting_jobs s' = 4 \<and> max_events s' = 4)"
proof -
  have "event_num sample_osched = 3" "waiting_jobs sample_osched = 3" "max_events sample_osched = 4" by (simp_all add: sample_osched_def)
  then show ?thesis
    using os_schedule [OF sample_os_reach, of 0 3000000 5] os_schedule [OF sample_os_reach, of 0 50 5] by auto
qed

section \<open>Where it breaks\<close>

text \<open>An event can be lost for good and the program can crash without any misuse: when an event
  is scheduled that is due before the one \<open>executeEvents\<close> is sleeping for, the entry removed from
  the queue afterwards is that of the new event. It is never run although it is neither cancelled
  nor removed from the map, and the next call dereferences \<open>efMap.end()\<close>.\<close>

theorem os_disorder:
  "\<exists>s. os_reach False m (s :: nat osched) \<and> executeEvents s = Some (Inl BadIterator)
    \<and> (\<exists>f. efMap s 1 = Some f \<and> \<not> isCancelled f) \<and> 1 \<notin> fst ` set (ran s) \<and> 1 \<notin> eventID ` set (fQueue s)"
proof -
  obtain s where s: "os_exec False [Schedule 7 1000 0, StartJob, Execute, Schedule 8 100 10, Execute, Execute,
      Execute, StartJob, Execute] (EventScheduler_ours m) = Some (s :: nat osched)"
    "executeEvents s = Some (Inl BadIterator)" "ran s = [(0, 7, 1000000)]" "eventID ` set (fQueue s) = {0}"
    "\<exists>f. efMap s 1 = Some f \<and> \<not> isCancelled f"
    by (simp add: os_eval)
  show ?thesis using os_exec_reach [OF s(1)] s(2-5) by (intro exI [of _ s]) auto
qed

text \<open>In general: if the front of the queue has changed while a call was sleeping, the call removes
  the wrong entry, and queue and map disagree on two events from then on.\<close>

theorem os_wrong_pop:
  assumes "exec s = Some (EPop a)" "fQueue s = e # q" "is_heap CompareEventTime (fQueue s)"
    "distinct (map eventID (fQueue s))" "eventID e \<noteq> a" "a \<in> eventID ` set q" "efMap s (eventID e) \<noteq> None"
  shows "\<exists>s'. executeEvents s = Some (Inr s')
    \<and> eventID e \<notin> eventID ` set (fQueue s') \<and> efMap s' (eventID e) \<noteq> None
    \<and> a \<in> eventID ` set (fQueue s') \<and> efMap s' a = None"
proof -
  have "set (butlast (pop_heap CompareEventTime (e # q))) = set q"
    using heap_front_id(1) [of e q] assms(2,3) by (metis set_mset_mset)
  then show ?thesis using assms by (auto simp: executeEvents_def)
qed

theorem os_wrong_pop_witness:
  "\<exists>s'. executeEvents (sample_osched\<lparr>exec := Some (EPop 2)\<rparr>) = Some (Inr s') \<and> efMap s' 1 \<noteq> None
     \<and> 1 \<notin> eventID ` set (fQueue s') \<and> efMap s' 2 = None"
proof -
  let ?s = "sample_osched\<lparr>exec := Some (EPop 2)\<rparr>"
  obtain q where "fQueue ?s = \<lparr>eventID = 1, execTime = 1100\<rparr> # q" "2 \<in> eventID ` set q"
    by (simp add: sample_osched_def)
  moreover have "is_heap CompareEventTime (fQueue ?s)" "distinct (map eventID (fQueue ?s))" "efMap ?s 1 \<noteq> None"
    using os_reach_inv [OF sample_os_reach] by (simp_all add: os_inv_def) (simp add: sample_osched_def)
  ultimately show ?thesis
    using os_wrong_pop [of ?s 2 "\<lparr>eventID = 1, execTime = 1100\<rparr>" q] by auto
qed

end
