(* ===== verification/CjPool.thy ===== *)
theory CjPool
  imports Pool_Spec
begin

text \<open>
  The thread pool of \<open>newLibs/cj/ThreadPool.cpp\<close>: no queue, but a semaphore, a flag and a slot for
  function and argument per thread. \<open>dispatch_thread\<close> looks for a thread whose flag is set, fills
  its slot, clears the flag and posts its semaphore, all without a lock, so every one of these
  accesses is a step of the model. The constructor starts a thread and only then puts its semaphore and its flag into the
  maps; these are steps too, beside those of the threads already started. Thread ids are those of
  created threads, hence distinct: thread \<open>m_threads[i]\<close> is \<open>i\<close>. Creation does not fail, and a copied
  semaphore works as a new one of the same value unless a thread waits on what is overwritten; what
  two insertions at once do to a map is not modelled. \<open>cposted\<close> (appended when the semaphore is posted)
  and \<open>cstarted\<close> are history variables.
\<close>

section \<open>State\<close>

text \<open>Where a dispatching thread is. Its function and argument stay in scope.\<close>

datatype ('f, 'a) spc =
    SIdle
  | SScan 'f "'a option" nat    \<comment> \<open>at the loop test, or at \<open>if (m_available[tid])\<close>, for this \<open>i\<close>\<close>
  | SFound 'f "'a option" nat   \<comment> \<open>about to write \<open>m_fn_ptr[tid]\<close>\<close>
  | SArg 'f "'a option" nat     \<comment> \<open>about to write \<open>m_arg[tid]\<close>\<close>
  | SMark 'f "'a option" nat    \<comment> \<open>about to clear \<open>m_available[tid]\<close>\<close>
  | SPost 'f "'a option" nat    \<comment> \<open>at \<open>sem_post\<close>\<close>
  | SRet int                    \<comment> \<open>returned\<close>

datatype ('f, 'a) cwpc =
    CNone                       \<comment> \<open>not created\<close>
  | CStart                      \<comment> \<open>created, before its first \<open>sem_wait\<close>\<close>
  | CWaiting                    \<comment> \<open>at \<open>sem_wait\<close>\<close>
  | CGoing                      \<comment> \<open>about to read its slot and call the function\<close>
  | CRunning 'f "'a option"     \<comment> \<open>in the call\<close>

text \<open>Where the constructor is.\<close>

datatype ctpc =
    CtLoop nat                  \<comment> \<open>at the loop test for this \<open>i\<close>\<close>
  | CtCopy nat                  \<comment> \<open>at \<open>m_sems[tid] = mutex\<close>\<close>
  | CtFlag nat                  \<comment> \<open>at \<open>m_available[tid] = true\<close>\<close>
  | CtSlot nat                  \<comment> \<open>at \<open>m_threads[i] = tid\<close>\<close>
  | CtDone

record ('f, 'a) cpool =
  m_threadCount :: nat
  m_sems :: "nat \<Rightarrow> nat"                 \<comment> \<open>0 also for a key not yet in the map\<close>
  m_available :: "nat \<Rightarrow> bool"
  m_fn_ptr :: "nat \<Rightarrow> 'f option"        \<comment> \<open>\<open>None\<close> is null, also for a key not yet in the map\<close>
  m_arg :: "nat \<Rightarrow> 'a option"           \<comment> \<open>the same\<close>
  spc :: "nat \<Rightarrow> ('f, 'a) spc"
  cwpc :: "nat \<Rightarrow> ('f, 'a) cwpc"
  ctpc :: ctpc
  cposted :: "('f \<times> 'a option) list"
  cstarted :: "('f \<times> 'a option) list"

definition ThreadPool_cj :: "nat \<Rightarrow> ('f, 'a) cpool" where
  "ThreadPool_cj threadCount = \<lparr>m_threadCount = threadCount, m_sems = (\<lambda>_. 0),
     m_available = (\<lambda>_. False), m_fn_ptr = (\<lambda>_. None), m_arg = (\<lambda>_. None),
     spc = (\<lambda>_. SIdle), cwpc = (\<lambda>_. CNone), ctpc = CtLoop 0, cposted = [], cstarted = []\<rparr>"

section \<open>Operations\<close>

text \<open>One step of the constructor. A semaphore is created with 1 and taken once before it is copied.\<close>

definition ctor_step :: "('f, 'a) cpool \<Rightarrow> ('f, 'a) cpool res option" where
  "ctor_step p = (case ctpc p of
       CtLoop i \<Rightarrow> Some (Inr (if i < m_threadCount p then p\<lparr>cwpc := (cwpc p)(i := CStart), ctpc := CtCopy i\<rparr>
                             else p\<lparr>ctpc := CtDone\<rparr>))
     | CtCopy i \<Rightarrow> Some (if cwpc p i = CWaiting then Inl SemInUse
                          else Inr (p\<lparr>m_sems := (m_sems p)(i := 1 - 1), ctpc := CtFlag i\<rparr>))
     | CtFlag i \<Rightarrow> Some (Inr (p\<lparr>m_available := (m_available p)(i := True), ctpc := CtSlot i\<rparr>))
     | CtSlot i \<Rightarrow> Some (Inr (p\<lparr>ctpc := CtLoop (i + 1)\<rparr>))
     | CtDone \<Rightarrow> None)"

definition sgoto :: "nat \<Rightarrow> ('f, 'a) spc \<Rightarrow> ('f, 'a) cpool \<Rightarrow> ('f, 'a) cpool" where
  "sgoto d l p = p\<lparr>spc := (spc p)(d := l)\<rparr>"

text \<open>A call of \<open>dispatch_thread\<close>, once there is an object.\<close>

definition begin_dispatch :: "nat \<Rightarrow> 'f \<Rightarrow> 'a option \<Rightarrow> ('f, 'a) cpool \<Rightarrow> ('f, 'a) cpool option" where
  "begin_dispatch d f a p = (case (ctpc p, spc p d) of (CtDone, SIdle) \<Rightarrow> Some (sgoto d (SScan f a 0) p) | _ \<Rightarrow> None)"

text \<open>One step of dispatching thread \<open>d\<close>.\<close>

definition dispatch_step :: "nat \<Rightarrow> ('f, 'a) cpool \<Rightarrow> ('f, 'a) cpool option" where
  "dispatch_step d p = (case spc p d of
       SIdle \<Rightarrow> None
     | SScan f a i \<Rightarrow>
         Some (if i < m_threadCount p
               then if m_available p i then sgoto d (SFound f a i) p else sgoto d (SScan f a (i + 1)) p
               else sgoto d (SRet (-1)) p)
     | SFound f a i \<Rightarrow> Some (sgoto d (SArg f a i) (p\<lparr>m_fn_ptr := (m_fn_ptr p)(i := Some f)\<rparr>))
     | SArg f a i \<Rightarrow> Some (sgoto d (SMark f a i) (p\<lparr>m_arg := (m_arg p)(i := a)\<rparr>))
     | SMark f a i \<Rightarrow> Some (sgoto d (SPost f a i) (p\<lparr>m_available := (m_available p)(i := False)\<rparr>))
     | SPost f a i \<Rightarrow> Some (sgoto d (SRet 0)
         (p\<lparr>m_sems := (m_sems p)(i := m_sems p i + 1), cposted := cposted p @ [(f, a)]\<rparr>))
     | SRet r \<Rightarrow> Some (sgoto d SIdle p))"

text \<open>The same call when nothing comes between its steps.\<close>

definition dispatch_thread_cj :: "'f \<Rightarrow> 'a option \<Rightarrow> ('f, 'a) cpool \<Rightarrow> int \<times> ('f, 'a) cpool" where
  "dispatch_thread_cj f a p = (case find (m_available p) [0..<m_threadCount p] of
       None \<Rightarrow> (-1, p)
     | Some i \<Rightarrow> (0, p\<lparr>m_fn_ptr := (m_fn_ptr p)(i := Some f), m_arg := (m_arg p)(i := a),
         m_available := (m_available p)(i := False), m_sems := (m_sems p)(i := m_sems p i + 1),
         cposted := cposted p @ [(f, a)]\<rparr>))"

definition thread_avail_cj :: "('f, 'a) cpool \<Rightarrow> bool" where
  "thread_avail_cj p = list_ex (m_available p) [0..<m_threadCount p]"

text \<open>One step of worker \<open>t\<close> in \<open>execute_thread\<close>; \<open>None\<close>: it blocks.\<close>

definition execute_thread :: "nat \<Rightarrow> ('f, 'a) cpool \<Rightarrow> ('f, 'a) cpool res option" where
  "execute_thread t p = (case cwpc p t of
       CNone \<Rightarrow> None
     | CStart \<Rightarrow> Some (Inr (p\<lparr>cwpc := (cwpc p)(t := CWaiting)\<rparr>))
     | CWaiting \<Rightarrow>
         if m_sems p t = 0 then None
         else Some (Inr (p\<lparr>m_sems := (m_sems p)(t := m_sems p t - 1), cwpc := (cwpc p)(t := CGoing)\<rparr>))
     | CGoing \<Rightarrow> Some (case m_fn_ptr p t of
           None \<Rightarrow> Inl NullDeref
         | Some f \<Rightarrow> Inr (p\<lparr>cwpc := (cwpc p)(t := CRunning f (m_arg p t)),
                           cstarted := cstarted p @ [(f, m_arg p t)]\<rparr>))
     | CRunning f a \<Rightarrow>
         Some (Inr (p\<lparr>cwpc := (cwpc p)(t := CWaiting), m_available := (m_available p)(t := True)\<rparr>)))"

text \<open>Any step, with \<open>n\<close> threads that dispatch, as long as no semaphore in use is overwritten.\<close>

inductive cj_step :: "nat \<Rightarrow> ('f, 'a) cpool \<Rightarrow> ('f, 'a) cpool \<Rightarrow> bool" for n where
  construct: "ctor_step p = Some (Inr p') \<Longrightarrow> cj_step n p p'"
| enter: "d < n \<Longrightarrow> begin_dispatch d f a p = Some p' \<Longrightarrow> cj_step n p p'"
| dispatcher: "d < n \<Longrightarrow> dispatch_step d p = Some p' \<Longrightarrow> cj_step n p p'"
| worker: "t < m_threadCount p \<Longrightarrow> execute_thread t p = Some (Inr p') \<Longrightarrow> cj_step n p p'"

definition cj_reach :: "nat \<Rightarrow> nat \<Rightarrow> ('f, 'a) cpool \<Rightarrow> bool" where
  "cj_reach n k p \<longleftrightarrow> (cj_step n)\<^sup>*\<^sup>* (ThreadPool_cj k) p"

lemmas cj_defs = ctor_step_def sgoto_def begin_dispatch_def dispatch_step_def execute_thread_def

section \<open>A call without interruption\<close>

fun dispatch_run :: "nat \<Rightarrow> nat \<Rightarrow> ('f, 'a) cpool \<Rightarrow> ('f, 'a) cpool option" where
  "dispatch_run d 0 p = Some p"
| "dispatch_run d (Suc k) p = Option.bind (dispatch_step d p) (dispatch_run d k)"

lemma run_scan:
  assumes "i \<le> m_threadCount p"
  shows "\<exists>k \<le> m_threadCount p - i + 5.
    dispatch_run d k (sgoto d (SScan f a i) p) = Some (case find (m_available p) [i..<m_threadCount p] of
        None \<Rightarrow> sgoto d (SRet (-1)) p
      | Some j \<Rightarrow> sgoto d (SRet 0) (p\<lparr>m_fn_ptr := (m_fn_ptr p)(j := Some f), m_arg := (m_arg p)(j := a),
          m_available := (m_available p)(j := False), m_sems := (m_sems p)(j := m_sems p j + 1),
          cposted := cposted p @ [(f, a)]\<rparr>))"
  using assms
proof (induction i rule: inc_induct)
  case base
  show ?case by (rule exI [of _ 1]) (simp add: cj_defs)
next
  case (step i)
  have upt: "[i..<m_threadCount p] = i # [Suc i..<m_threadCount p]"
    using step.hyps by (simp add: upt_rec)
  show ?case
  proof (cases "m_available p i")
    case True
    then show ?thesis
      using step.hyps by (intro exI [of _ 5]) (simp add: upt cj_defs numeral_eq_Suc)
  next
    case False
    obtain k where k: "k \<le> m_threadCount p - Suc i + 5"
      "dispatch_run d k (sgoto d (SScan f a (Suc i)) p) = Some (case find (m_available p) [Suc i..<m_threadCount p] of
        None \<Rightarrow> sgoto d (SRet (-1)) p
      | Some j \<Rightarrow> sgoto d (SRet 0) (p\<lparr>m_fn_ptr := (m_fn_ptr p)(j := Some f), m_arg := (m_arg p)(j := a),
          m_available := (m_available p)(j := False), m_sems := (m_sems p)(j := m_sems p j + 1),
          cposted := cposted p @ [(f, a)]\<rparr>))"
      using step.IH by blast
    have "dispatch_step d (sgoto d (SScan f a i) p) = Some (sgoto d (SScan f a (Suc i)) p)"
      using False step.hyps by (simp add: cj_defs)
    then show ?thesis
      using k step.hyps False by (intro exI [of _ "Suc k"]) (simp add: upt)
  qed
qed

text \<open>Without interruption \<open>dispatch_thread\<close> of \<open>cj/ThreadPool.cpp\<close> returns after at most one
  step per thread and five more: it gives the job to the first thread whose flag is set and returns
  0, or, exactly when \<open>thread_avail\<close> is false, changes nothing and returns -1.\<close>

theorem cj_dispatch:
  assumes "ctpc p = CtDone" "spc p d = SIdle"
  shows "\<exists>k \<le> m_threadCount p + 5. \<exists>p1. begin_dispatch d f a p = Some p1
    \<and> dispatch_run d k p1 = Some (case dispatch_thread_cj f a p of (r, p') \<Rightarrow> sgoto d (SRet r) p')
    \<and> (fst (dispatch_thread_cj f a p) = -1 \<longleftrightarrow> \<not> thread_avail_cj p)"
proof -
  obtain k where k: "k \<le> m_threadCount p + 5" and run:
    "dispatch_run d k (sgoto d (SScan f a 0) p) = Some (case find (m_available p) [0..<m_threadCount p] of
        None \<Rightarrow> sgoto d (SRet (-1)) p
      | Some j \<Rightarrow> sgoto d (SRet 0) (p\<lparr>m_fn_ptr := (m_fn_ptr p)(j := Some f), m_arg := (m_arg p)(j := a),
          m_available := (m_available p)(j := False), m_sems := (m_sems p)(j := m_sems p j + 1),
          cposted := cposted p @ [(f, a)]\<rparr>))"
    using run_scan [of 0 p d f a] by auto
  have "fst (dispatch_thread_cj f a p) = -1 \<longleftrightarrow> \<not> thread_avail_cj p"
    by (auto simp: dispatch_thread_cj_def thread_avail_cj_def list_ex_iff find_None_iff find_Some_iff
        split: option.splits)
  moreover have "begin_dispatch d f a p = Some (sgoto d (SScan f a 0) p)"
    using assms by (simp add: begin_dispatch_def)
  moreover have "dispatch_run d k (sgoto d (SScan f a 0) p)
      = Some (case dispatch_thread_cj f a p of (r, p') \<Rightarrow> sgoto d (SRet r) p')"
    unfolding run by (simp add: dispatch_thread_cj_def split: option.splits)
  ultimately show ?thesis using k by blast
qed

text \<open>The pool when the constructor has returned and every thread waits.\<close>

definition cj_built :: "nat \<Rightarrow> ('f, 'a) cpool" where
  "cj_built k = (ThreadPool_cj k)\<lparr>m_available := (\<lambda>i. i < k), cwpc := (\<lambda>i. if i < k then CWaiting else CNone),
     ctpc := CtDone\<rparr>"

lemma cj_built_reach: "cj_reach n k (cj_built k :: ('f, 'a) cpool)"
proof -
  let ?at = "\<lambda>i. (ThreadPool_cj k :: ('f, 'a) cpool)\<lparr>m_available := (\<lambda>t. t < i), cwpc := (\<lambda>t. if t < i then CWaiting else CNone), ctpc := CtLoop i\<rparr>"
  have "i \<le> k \<Longrightarrow> (cj_step n)\<^sup>*\<^sup>* (ThreadPool_cj k) (?at i)" for i
  proof (induction i)
    case 0
    have "?at 0 = (ThreadPool_cj k :: ('f, 'a) cpool)" by (simp add: ThreadPool_cj_def)
    then show ?case by (metis rtranclp.rtrancl_refl)
  next
    case (Suc i)
    let ?c = "(cwpc (?at i))(i := CStart)"
    let ?p1 = "(?at i)\<lparr>cwpc := ?c, ctpc := CtCopy i\<rparr>" let ?p2 = "?p1\<lparr>ctpc := CtFlag i\<rparr>"
    let ?p3 = "?p2\<lparr>cwpc := ?c(i := CWaiting)\<rparr>"
    let ?p4 = "?p3\<lparr>m_available := (m_available ?p3)(i := True), ctpc := CtSlot i\<rparr>"
    have T: "m_threadCount (ThreadPool_cj k :: ('f, 'a) cpool) = k" by (simp add: ThreadPool_cj_def)
    have s: "(\<lambda>_. 0 :: nat)(i := 0) = (\<lambda>_. 0)" by (simp add: fun_eq_iff)
    have 1: "cj_step n (?at i) ?p1" using Suc.prems by (intro cj_step.construct) (simp add: ctor_step_def T)
    have 2: "cj_step n ?p1 ?p2" by (intro cj_step.construct) (simp add: ctor_step_def ThreadPool_cj_def s)
    have 3: "cj_step n ?p2 ?p3" using Suc.prems by (intro cj_step.worker [where t = i]) (simp_all add: execute_thread_def T)
    have 4: "cj_step n ?p3 ?p4" by (intro cj_step.construct) (simp add: ctor_step_def)
    have m: "(\<lambda>t. t < i)(i := True) = (\<lambda>t. t < Suc i)"
      "(\<lambda>t. if t < i then CWaiting else CNone)(i := CWaiting) = (\<lambda>t. if t < Suc i then CWaiting else CNone :: ('f, 'a) cwpc)"
      by (auto simp: fun_eq_iff)
    have "?p4\<lparr>ctpc := CtLoop (Suc i)\<rparr> = ?at (Suc i)" by (simp add: m)
    moreover have "cj_step n ?p4 (?p4\<lparr>ctpc := CtLoop (Suc i)\<rparr>)" by (intro cj_step.construct) (simp add: ctor_step_def)
    ultimately have 5: "cj_step n ?p4 (?at (Suc i))" by simp
    have "(cj_step n)\<^sup>*\<^sup>* (ThreadPool_cj k) (?at i)" using Suc by simp
    note this [THEN rtranclp.rtrancl_into_rtrancl, OF 1]
    note this [THEN rtranclp.rtrancl_into_rtrancl, OF 2]
    note this [THEN rtranclp.rtrancl_into_rtrancl, OF 3]
    note this [THEN rtranclp.rtrancl_into_rtrancl, OF 4]
    from this 5 show ?case by (rule rtranclp.rtrancl_into_rtrancl)
  qed
  then have "(cj_step n)\<^sup>*\<^sup>* (ThreadPool_cj k) (?at k)" by simp
  moreover have "cj_step n (?at k) (cj_built k)"
    by (intro cj_step.construct) (simp add: ctor_step_def cj_built_def ThreadPool_cj_def)
  ultimately show ?thesis by (simp add: cj_reach_def rtranclp.rtrancl_into_rtrancl)
qed

theorem cj_dispatch_witness:
  "\<exists>k \<le> 7. \<exists>p1. begin_dispatch 0 True None (cj_built 2 :: (bool, nat) cpool) = Some p1
    \<and> dispatch_run 0 k p1 = Some (case dispatch_thread_cj True None (cj_built 2) of (r, p') \<Rightarrow> sgoto 0 (SRet r) p')"
proof -
  have "ctpc (cj_built 2 :: (bool, nat) cpool) = CtDone" "spc (cj_built 2 :: (bool, nat) cpool) 0 = SIdle"
    by (simp_all add: cj_built_def ThreadPool_cj_def)
  from cj_dispatch [OF this, of True None] show ?thesis by (auto simp: cj_built_def ThreadPool_cj_def)
qed

section \<open>One dispatching thread\<close>

text \<open>A job is pending for thread \<open>t\<close> from \<open>sem_post\<close> to the call; it is in the thread's slot.\<close>

definition ready :: "('f, 'a) cpool \<Rightarrow> nat \<Rightarrow> bool" where
  "ready p t \<longleftrightarrow> 0 < m_sems p t \<or> cwpc p t = CGoing"

definition in_slot :: "('f, 'a) cpool \<Rightarrow> nat \<Rightarrow> ('f \<times> 'a option) multiset" where
  "in_slot p t = (if ready p t then {# (the (m_fn_ptr p t), m_arg p t) #} else {#})"

definition pending_jobs :: "('f, 'a) cpool \<Rightarrow> ('f \<times> 'a option) multiset" where
  "pending_jobs p = (\<Sum>t<m_threadCount p. in_slot p t)"

text \<open>A thread before or at \<open>sem_wait\<close>.\<close>

fun at_rest :: "('f, 'a) cwpc \<Rightarrow> bool" where
  "at_rest CStart = True" | "at_rest CWaiting = True" | "at_rest l = False"

lemma at_rest_iff: "at_rest l \<longleftrightarrow> l = CStart \<or> l = CWaiting"
  by (cases l) simp_all

text \<open>The thread the dispatcher has chosen, with what it has written so far.\<close>

fun chosen_ok :: "('f, 'a) cpool \<Rightarrow> ('f, 'a) spc \<Rightarrow> bool" where
  "chosen_ok p (SFound f a i) \<longleftrightarrow> i < m_threadCount p \<and> m_available p i"
| "chosen_ok p (SArg f a i) \<longleftrightarrow> i < m_threadCount p \<and> m_available p i \<and> m_fn_ptr p i = Some f"
| "chosen_ok p (SMark f a i) \<longleftrightarrow> i < m_threadCount p \<and> m_available p i \<and> m_fn_ptr p i = Some f \<and> m_arg p i = a"
| "chosen_ok p (SPost f a i) \<longleftrightarrow> i < m_threadCount p \<and> \<not> m_available p i \<and> \<not> ready p i
      \<and> at_rest (cwpc p i) \<and> m_fn_ptr p i = Some f \<and> m_arg p i = a"
| "chosen_ok p l \<longleftrightarrow> True"

text \<open>A thread whose flag is set is idle, and one that has something to do has its slot filled.\<close>

definition thread_ok :: "('f, 'a) cpool \<Rightarrow> nat \<Rightarrow> bool" where
  "thread_ok p t \<longleftrightarrow> (m_available p t \<longrightarrow> at_rest (cwpc p t) \<and> m_sems p t = 0)
     \<and> (0 < m_sems p t \<longrightarrow> at_rest (cwpc p t) \<and> m_sems p t = 1)
     \<and> (ready p t \<longrightarrow> m_fn_ptr p t \<noteq> None)"

text \<open>Until the constructor returns nobody dispatches and no semaphore is posted.\<close>

definition ctor_ok :: "('f, 'a) cpool \<Rightarrow> bool" where
  "ctor_ok p \<longleftrightarrow> ctpc p \<noteq> CtDone \<longrightarrow> spc p 0 = SIdle \<and> (\<forall>t. m_sems p t = 0 \<and> (cwpc p t = CNone \<or> at_rest (cwpc p t)))
     \<and> (\<forall>i. ctpc p = CtCopy i \<or> ctpc p = CtFlag i \<longrightarrow> at_rest (cwpc p i))"

definition cj_inv :: "('f, 'a) cpool \<Rightarrow> bool" where
  "cj_inv p \<longleftrightarrow> chosen_ok p (spc p 0) \<and> (\<forall>t. thread_ok p t) \<and> ctor_ok p"

lemmas cj_inv_defs = cj_inv_def thread_ok_def ready_def ctor_ok_def

lemma construct_inv:
  assumes "ctor_step p = Some (Inr p')" "cj_inv p"
  shows "cj_inv p'"
proof -
  have c: "ctpc p \<noteq> CtDone" using assms(1) by (auto simp: ctor_step_def)
  then have s: "spc p 0 = SIdle" "\<And>t. m_sems p t = 0" "\<And>t. cwpc p t = CNone \<or> at_rest (cwpc p t)"
    "\<And>i. ctpc p = CtCopy i \<or> ctpc p = CtFlag i \<Longrightarrow> at_rest (cwpc p i)" and ok: "\<And>t. thread_ok p t"
    using assms(2) by (auto simp: cj_inv_def ctor_ok_def)
  have "thread_ok p' t" for t
    using assms(1) ok [of t] s(2) s(3,4) [of t]
    by (auto simp: thread_ok_def ready_def ctor_step_def split: ctpc.splits if_splits)
  moreover have "spc p' 0 = SIdle" using assms(1) s(1) by (auto simp: ctor_step_def split: ctpc.splits if_splits)
  moreover have "m_sems p' t = 0 \<and> (cwpc p' t = CNone \<or> at_rest (cwpc p' t))" for t
    using assms(1) s(2,3) [of t] by (auto simp: ctor_step_def split: ctpc.splits if_splits)
  moreover have "at_rest (cwpc p' i)" if "ctpc p' = CtCopy i \<or> ctpc p' = CtFlag i" for i
    using assms(1) s(4) [of i] that by (auto simp: ctor_step_def split: ctpc.splits if_splits)
  ultimately have "ctor_ok p'" "\<And>t. thread_ok p' t" "spc p' 0 = SIdle" by (simp_all add: ctor_ok_def)
  then show ?thesis by (simp add: cj_inv_def)
qed

lemma dispatch_inv:
  assumes "dispatch_step 0 p = Some p'" "cj_inv p"
  shows "cj_inv p'"
proof -
  have "ctpc p = CtDone" "ctpc p' = ctpc p"
    using assms by (auto simp: cj_inv_def ctor_ok_def dispatch_step_def sgoto_def split: spc.splits if_splits)
  moreover have ok: "chosen_ok p (spc p 0)" "\<And>t. thread_ok p t" using assms(2) by (simp_all add: cj_inv_def)
  have idle: "\<not> ready p i \<and> at_rest (cwpc p i)" if "m_available p i" for i
    using ok(2) [of i] that by (auto simp: thread_ok_def ready_def at_rest_iff)
  have "chosen_ok p' (spc p' 0) \<and> (\<forall>t. thread_ok p' t)"
  proof (cases "spc p 0")
    case (SScan f a i)
    define l where "l = (if i < m_threadCount p then if m_available p i then SFound f a i else SScan f a (i + 1) else SRet (-1))"
    have p': "p' = sgoto 0 l p" using assms(1) SScan by (simp add: dispatch_step_def l_def split: if_splits)
    have l: "l = SRet (-1) \<or> l = SScan f a (i + 1) \<or> l = SFound f a i \<and> i < m_threadCount p \<and> m_available p i"
      by (simp add: l_def)
    have "thread_ok p' t" for t using ok(2) [of t] by (simp add: p' sgoto_def thread_ok_def ready_def)
    then show ?thesis using l by (elim disjE) (simp_all add: p' sgoto_def)
  next
    case (SFound f a i)
    then have p': "p' = sgoto 0 (SArg f a i) (p\<lparr>m_fn_ptr := (m_fn_ptr p)(i := Some f)\<rparr>)"
      using assms(1) by (simp add: dispatch_step_def)
    have "thread_ok p' t" for t using ok(2) [of t] by (auto simp: p' sgoto_def thread_ok_def ready_def)
    then show ?thesis using ok(1) SFound by (simp add: p' sgoto_def)
  next
    case (SArg f a i)
    then have p': "p' = sgoto 0 (SMark f a i) (p\<lparr>m_arg := (m_arg p)(i := a)\<rparr>)"
      using assms(1) by (simp add: dispatch_step_def)
    have "thread_ok p' t" for t using ok(2) [of t] by (auto simp: p' sgoto_def thread_ok_def ready_def)
    then show ?thesis using ok(1) SArg by (simp add: p' sgoto_def)
  next
    case (SMark f a i)
    then have p': "p' = sgoto 0 (SPost f a i) (p\<lparr>m_available := (m_available p)(i := False)\<rparr>)"
      using assms(1) by (simp add: dispatch_step_def)
    have "thread_ok p' t" for t using ok(2) [of t] by (auto simp: p' sgoto_def thread_ok_def ready_def)
    moreover have "ready p' i = ready p i" by (simp add: p' sgoto_def ready_def)
    ultimately show ?thesis using ok(1) SMark idle [of i] by (simp add: p' sgoto_def)
  next
    case (SPost f a i)
    then have p': "p' = sgoto 0 (SRet 0) (p\<lparr>m_sems := (m_sems p)(i := m_sems p i + 1), cposted := cposted p @ [(f, a)]\<rparr>)"
      using assms(1) by (simp add: dispatch_step_def)
    have "thread_ok p' t" for t
      using ok(1) ok(2) [of t] SPost by (cases "t = i") (auto simp: p' sgoto_def thread_ok_def ready_def)
    then show ?thesis by (simp add: p' sgoto_def)
  next
    case (SRet r)
    then have p': "p' = sgoto 0 SIdle p" using assms(1) by (simp add: dispatch_step_def)
    have "thread_ok p' t" for t using ok(2) [of t] by (simp add: p' sgoto_def thread_ok_def ready_def)
    then show ?thesis by (simp add: p' sgoto_def)
  qed (use assms(1) in \<open>simp add: dispatch_step_def\<close>)
  ultimately show ?thesis by (simp add: cj_inv_def ctor_ok_def)
qed

lemma work_inv:
  assumes "execute_thread t p = Some (Inr p')" "cj_inv p"
  shows "cj_inv p'"
proof -
  have ok: "chosen_ok p (spc p 0)" "\<And>u. thread_ok p u" "ctor_ok p" using assms(2) by (simp_all add: cj_inv_def)
  have same: "m_available p' u = m_available p u" "ready p' u = ready p u" "cwpc p' u = cwpc p u" "m_sems p' u = m_sems p u"
    if "u \<noteq> t" for u
    using assms(1) that by (auto simp: ready_def execute_thread_def split: cwpc.splits option.splits if_splits)
  have same': "m_threadCount p' = m_threadCount p" "m_fn_ptr p' = m_fn_ptr p" "m_arg p' = m_arg p" "spc p' = spc p" "ctpc p' = ctpc p"
    using assms(1) by (auto simp: ready_def execute_thread_def split: cwpc.splits option.splits if_splits)
  have "thread_ok p' u" for u
  proof (cases "u = t")
    case True
    then show ?thesis using assms(1) ok(2) [of t]
      by (auto simp: thread_ok_def ready_def execute_thread_def split: cwpc.splits option.splits if_splits)
  next
    case False
    then show ?thesis using ok(2) [of u] same [OF False] same' by (simp add: thread_ok_def)
  qed
  moreover have "chosen_ok p' (spc p' 0)"
  proof (cases "cwpc p t = CStart")
    case True
    then have p': "p' = p\<lparr>cwpc := (cwpc p)(t := CWaiting)\<rparr>" using assms(1) by (simp add: execute_thread_def)
    then show ?thesis using ok(1) True by (cases "spc p 0") (auto simp: ready_def)
  next
    case False
    then have busy: "ready p t \<or> \<not> at_rest (cwpc p t)"
      using assms(1) by (auto simp: ready_def execute_thread_def split: cwpc.splits if_splits)
    show ?thesis
    proof (cases "spc p 0")
      case (SPost f a i)
      then have "i \<noteq> t" using ok(1) busy by auto
      with SPost ok(1) same same' show ?thesis by simp
    next
      case (SFound f a i)
      then have "i \<noteq> t" using ok(1) ok(2) [of t] busy by (auto simp: thread_ok_def ready_def)
      with SFound ok(1) same same' show ?thesis by simp
    next
      case (SArg f a i)
      then have "i \<noteq> t" using ok(1) ok(2) [of t] busy by (auto simp: thread_ok_def ready_def)
      with SArg ok(1) same same' show ?thesis by simp
    next
      case (SMark f a i)
      then have "i \<noteq> t" using ok(1) ok(2) [of t] busy by (auto simp: thread_ok_def ready_def)
      with SMark ok(1) same same' show ?thesis by simp
    qed (simp_all add: same')
  qed
  moreover have "ctor_ok p'"
    using assms(1) ok(3) by (auto simp: ctor_ok_def execute_thread_def split: cwpc.splits option.splits if_splits)
  ultimately show ?thesis by (simp add: cj_inv_def)
qed

lemma cj_step_inv: "cj_step 1 p p' \<Longrightarrow> cj_inv p \<Longrightarrow> cj_inv p'"
proof (induction rule: cj_step.induct)
  case (enter d f a p p')
  then show ?case by (auto simp: cj_inv_defs begin_dispatch_def sgoto_def split: spc.splits ctpc.splits)
qed (auto intro: dispatch_inv work_inv construct_inv)

lemma cj_reach_inv: "cj_reach 1 k p \<Longrightarrow> cj_inv p"
  unfolding cj_reach_def
proof (induction rule: rtranclp_induct)
  case base
  show ?case by (auto simp: cj_inv_defs ThreadPool_cj_def)
qed (rule cj_step_inv)

lemma in_slot_simps [simp]:
  "in_slot (p\<lparr>spc := l\<rparr>) t = in_slot p t" "in_slot (p\<lparr>m_available := av\<rparr>) t = in_slot p t"
  "in_slot (p\<lparr>cposted := js\<rparr>) t = in_slot p t" "in_slot (p\<lparr>cstarted := js\<rparr>) t = in_slot p t"
  by (simp_all add: in_slot_def ready_def)

lemma pending_simps [simp]:
  "pending_jobs (p\<lparr>spc := l\<rparr>) = pending_jobs p" "pending_jobs (p\<lparr>m_available := av\<rparr>) = pending_jobs p"
  "pending_jobs (p\<lparr>cposted := js\<rparr>) = pending_jobs p" "pending_jobs (p\<lparr>cstarted := js\<rparr>) = pending_jobs p"
  by (simp_all add: pending_jobs_def)

text \<open>Only the slot of one thread changes in a step.\<close>

lemma pending_update:
  assumes "m_threadCount p' = m_threadCount p" "t < m_threadCount p" "\<And>u. u \<noteq> t \<Longrightarrow> in_slot p' u = in_slot p u"
  shows "pending_jobs p' + in_slot p t = pending_jobs p + in_slot p' t"
proof -
  have "pending_jobs q = in_slot q t + sum (in_slot q) ({..<m_threadCount p} - {t})"
    if "m_threadCount q = m_threadCount p" for q :: "('a, 'b) cpool"
    using assms(2) that by (simp add: pending_jobs_def sum.remove [of _ t])
  moreover have "sum (in_slot p') ({..<m_threadCount p} - {t}) = sum (in_slot p) ({..<m_threadCount p} - {t})"
    by (rule sum.cong) (use assms(3) in auto)
  ultimately show ?thesis using assms(1) by (simp add: ac_simps)
qed

lemma pending_same:
  assumes "m_threadCount p' = m_threadCount p" "\<And>u. u < m_threadCount p \<Longrightarrow> in_slot p' u = in_slot p u"
  shows "pending_jobs p' = pending_jobs p"
  using assms by (simp add: pending_jobs_def)

lemma work_balance:
  assumes "execute_thread t p = Some (Inr p')" "cj_inv p" "t < m_threadCount p"
  shows "mset (cstarted p') + pending_jobs p' = mset (cstarted p) + pending_jobs p \<and> cposted p' = cposted p"
proof -
  have t: "thread_ok p t" using assms(2) by (simp add: cj_inv_def)
  have a: "mset (cstarted p') + in_slot p' t = mset (cstarted p) + in_slot p t"
    using assms(1) t by (auto simp: in_slot_def ready_def thread_ok_def execute_thread_def
        split: cwpc.splits option.splits if_splits)
  have b: "pending_jobs p' + in_slot p t = pending_jobs p + in_slot p' t"
    by (rule pending_update [OF _ assms(3)])
      (use assms(1) in \<open>auto simp: in_slot_def ready_def execute_thread_def split: cwpc.splits option.splits if_splits\<close>)
  have "cposted p' = cposted p"
    using assms(1) by (auto simp: execute_thread_def split: cwpc.splits option.splits if_splits)
  moreover have "mset (cstarted p') + pending_jobs p' = mset (cstarted p) + pending_jobs p"
    using arg_cong2 [OF a b, of "(+)"] by (simp add: ac_simps)
  ultimately show ?thesis by simp
qed

lemma dispatch_balance:
  assumes "dispatch_step 0 p = Some p'" "cj_inv p"
  shows "cstarted p' = cstarted p \<and> pending_jobs p' + mset (cposted p) = pending_jobs p + mset (cposted p')"
proof (cases "spc p 0")
  case (SPost f a i)
  then have ok: "i < m_threadCount p" "\<not> ready p i" "m_fn_ptr p i = Some f" "m_arg p i = a"
    using assms(2) by (auto simp: cj_inv_def)
  have p': "p' = sgoto 0 (SRet 0) (p\<lparr>m_sems := (m_sems p)(i := m_sems p i + 1), cposted := cposted p @ [(f, a)]\<rparr>)"
    using assms(1) SPost by (simp add: dispatch_step_def)
  have "pending_jobs p' + in_slot p i = pending_jobs p + in_slot p' i"
    by (rule pending_update [OF _ ok(1)]) (auto simp: p' in_slot_def ready_def sgoto_def)
  moreover have "in_slot p i = {#}" "in_slot p' i = {# (f, a) #}"
    using ok by (simp_all add: p' in_slot_def ready_def sgoto_def)
  ultimately show ?thesis by (simp add: p' sgoto_def)
next
  case (SFound f a i)
  then have "\<not> ready p i" using assms(2) by (auto simp: cj_inv_defs)
  then have "pending_jobs p' = pending_jobs p"
    by (intro pending_same)
      (use assms(1) SFound in \<open>auto simp: dispatch_step_def sgoto_def in_slot_def ready_def\<close>)
  then show ?thesis using assms(1) SFound by (auto simp: dispatch_step_def sgoto_def)
next
  case (SArg f a i)
  then have "\<not> ready p i" using assms(2) by (auto simp: cj_inv_defs)
  then have "pending_jobs p' = pending_jobs p"
    by (intro pending_same)
      (use assms(1) SArg in \<open>auto simp: dispatch_step_def sgoto_def in_slot_def ready_def\<close>)
  then show ?thesis using assms(1) SArg by (auto simp: dispatch_step_def sgoto_def)
qed (use assms(1) in \<open>auto simp: dispatch_step_def sgoto_def split: if_splits\<close>)

lemma construct_balance:
  assumes "ctor_step p = Some (Inr p')" "cj_inv p"
  shows "cstarted p' = cstarted p \<and> cposted p' = cposted p \<and> pending_jobs p' = pending_jobs p"
proof -
  have "ctpc p \<noteq> CtDone" using assms(1) by (auto simp: ctor_step_def)
  then have s: "m_sems p t = 0" "cwpc p t = CNone \<or> at_rest (cwpc p t)" for t
    using assms(2) by (auto simp: cj_inv_def ctor_ok_def)
  have "\<not> ready p t" "m_sems p' t = 0" "cwpc p' t \<noteq> CGoing" for t
    using assms(1) s [of t] by (auto simp: ready_def ctor_step_def at_rest_iff split: ctpc.splits if_splits)
  then have "in_slot p' t = in_slot p t" for t by (simp add: in_slot_def ready_def)
  moreover have "m_threadCount p' = m_threadCount p" "cstarted p' = cstarted p" "cposted p' = cposted p"
    using assms(1) by (auto simp: ctor_step_def split: ctpc.splits if_splits)
  ultimately show ?thesis using pending_same by blast
qed

interpretation cj: job_account "ThreadPool_cj k" "cj_step 1" pending_jobs cstarted cposted for k
proof unfold_locales
  fix p p' :: "('a, 'b) cpool"
  assume reach: "(cj_step 1)\<^sup>*\<^sup>* (ThreadPool_cj k) p" and step: "cj_step 1 p p'"
  have inv: "cj_inv p" using reach by (intro cj_reach_inv) (simp add: cj_reach_def)
  from step show "mset (cstarted p') + pending_jobs p' + mset (cposted p)
      = mset (cstarted p) + pending_jobs p + mset (cposted p')"
  proof cases
    case construct
    with construct_balance [of p p'] inv show ?thesis by simp
  next
    case (enter d f a)
    then have "pending_jobs p' = pending_jobs p" "cstarted p' = cstarted p" "cposted p' = cposted p"
      by (auto simp: begin_dispatch_def sgoto_def split: spc.splits ctpc.splits)
    then show ?thesis by simp
  next
    case (dispatcher d)
    with dispatch_balance [of p p'] inv show ?thesis by (simp add: ac_simps)
  next
    case (worker t)
    with work_balance [OF worker(2) inv] show ?thesis by (simp add: ac_simps)
  qed
qed (simp_all add: ThreadPool_cj_def pending_jobs_def in_slot_def ready_def)

section \<open>The workers get done\<close>

definition cj_work :: "('f, 'a) cpool \<Rightarrow> ('f, 'a) cpool \<Rightarrow> bool" where
  "cj_work p p' \<longleftrightarrow> (\<exists>t<m_threadCount p. execute_thread t p = Some (Inr p'))"

fun work_rank :: "('f, 'a) cwpc \<Rightarrow> nat" where
  "work_rank CNone = 0" | "work_rank CStart = 1" | "work_rank CWaiting = 0"
| "work_rank CGoing = 2" | "work_rank (CRunning f a) = 1"

definition work_left :: "('f, 'a) cpool \<Rightarrow> nat" where
  "work_left p = (\<Sum>t<m_threadCount p. 3 * m_sems p t + work_rank (cwpc p t))"

lemma work_left_step: "cj_work p p' \<Longrightarrow> work_left p' < work_left p"
proof -
  assume "cj_work p p'"
  then obtain t where t: "t < m_threadCount p" "execute_thread t p = Some (Inr p')" by (auto simp: cj_work_def)
  let ?w = "\<lambda>p t. 3 * m_sems p t + work_rank (cwpc p t)"
  have less: "?w p' t < ?w p t" and same: "\<And>u. u \<noteq> t \<Longrightarrow> ?w p' u = ?w p u" and n: "m_threadCount p' = m_threadCount p"
    using t(2) by (auto simp: execute_thread_def split: cwpc.splits option.splits if_splits)
  have "(\<Sum>u\<in>{..<m_threadCount p} - {t}. ?w p' u) = (\<Sum>u\<in>{..<m_threadCount p} - {t}. ?w p u)"
    by (rule sum.cong) (use same in auto)
  then show ?thesis
    using less t(1) unfolding work_left_def n by (simp add: sum.remove [of "{..<m_threadCount p}" t])
qed

lemma no_fault: "cj_inv p \<Longrightarrow> execute_thread t p \<noteq> Some (Inl e)"
  by (auto simp: cj_inv_defs execute_thread_def split: cwpc.splits option.splits)

text \<open>When no worker can move, no job is left in a slot.\<close>

lemma stuck_empty:
  assumes "cj_inv p" "\<And>p'. \<not> cj_work p p'"
  shows "pending_jobs p = {#}"
proof -
  have "\<not> ready p t" if t: "t < m_threadCount p" for t
  proof (cases "execute_thread t p")
    case None
    then show ?thesis using assms(1)
      by (auto simp: cj_inv_def thread_ok_def ready_def execute_thread_def split: cwpc.splits option.splits if_splits)
  next
    case (Some r)
    then show ?thesis using no_fault [OF assms(1), of t] assms(2) t by (cases r) (auto simp: cj_work_def)
  qed
  then show ?thesis by (simp add: pending_jobs_def in_slot_def)
qed

lemma works_step: "(cj_work ^^ m) p q \<Longrightarrow> cj_inv p \<Longrightarrow> (cj_step 1)\<^sup>*\<^sup>* p q \<and> cj_inv q \<and> cposted q = cposted p \<and> m + work_left q \<le> work_left p"
proof (induction m arbitrary: q)
  case (Suc m)
  then obtain r where r: "(cj_work ^^ m) p r" "cj_work r q" by auto
  then obtain t where t: "t < m_threadCount r" "execute_thread t r = Some (Inr q)" by (auto simp: cj_work_def)
  note IH = Suc.IH [OF r(1) Suc.prems(2)]
  have step: "cj_step 1 r q" using t by (rule cj_step.worker)
  have "cposted q = cposted r" using t(2) by (auto simp: execute_thread_def split: cwpc.splits option.splits if_splits)
  moreover have "cj_inv q" using cj_step_inv [OF step] IH by blast
  ultimately show ?case using IH step work_left_step [OF r(2)] by (auto intro: rtranclp.rtrancl_into_rtrancl)
qed simp

text \<open>C28: With one dispatching thread the pool of \<open>cj/ThreadPool.cpp\<close> works although it has no lock,
  if its constructor came through: in every reachable state the jobs started together with those waiting
  in the slots are exactly the jobs accepted, each with its own argument, no worker calls a null pointer, and a
  thread whose flag is set is idle; and however the workers go on they stop after a bounded number
  of steps, and when they can move no more every accepted job has been started exactly once.\<close>

theorem cj_single:
  assumes "cj_reach 1 k p"
  shows "mset (cstarted p) + pending_jobs p = mset (cposted p)
    \<and> (\<forall>t. (\<forall>e. execute_thread t p \<noteq> Some (Inl e)) \<and> (m_available p t \<longrightarrow> at_rest (cwpc p t) \<and> m_sems p t = 0))
    \<and> (\<forall>m q. (cj_work ^^ m) p q \<longrightarrow> m \<le> work_left p
        \<and> ((\<exists>q'. cj_work q q') \<or> mset (cstarted q) = mset (cposted p)))"
proof (intro conjI)
  have inv: "cj_inv p" using assms by (rule cj_reach_inv)
  then show "\<forall>t. (\<forall>e. execute_thread t p \<noteq> Some (Inl e)) \<and> (m_available p t \<longrightarrow> at_rest (cwpc p t) \<and> m_sems p t = 0)"
    using no_fault by (auto simp: cj_inv_def thread_ok_def)
  show "mset (cstarted p) + pending_jobs p = mset (cposted p)"
    using cj.exactly_once assms by (simp add: cj_reach_def)
  show "\<forall>m q. (cj_work ^^ m) p q \<longrightarrow> m \<le> work_left p \<and> ((\<exists>q'. cj_work q q') \<or> mset (cstarted q) = mset (cposted p))"
  proof (intro allI impI)
    fix m q assume "(cj_work ^^ m) p q"
    note q = works_step [OF this inv]
    then have "(cj_step 1)\<^sup>*\<^sup>* (ThreadPool_cj k) q" using assms unfolding cj_reach_def by (meson rtranclp_trans)
    from cj.exactly_once [OF this] stuck_empty [of q] q
    show "m \<le> work_left p \<and> ((\<exists>q'. cj_work q q') \<or> mset (cstarted q) = mset (cposted p))"
      by (cases "\<exists>q'. cj_work q q'") auto
  qed
qed

section \<open>Runs as lists of actions\<close>

datatype ('f, 'a) cj_action = Construct | Enter nat 'f "'a option" | Dispatch nat | CWork nat

fun cj_act :: "nat \<Rightarrow> ('f, 'a) cj_action \<Rightarrow> ('f, 'a) cpool \<Rightarrow> ('f, 'a) cpool option" where
  "cj_act n Construct p = (case ctor_step p of Some (Inr p') \<Rightarrow> Some p' | _ \<Rightarrow> None)"
| "cj_act n (Enter d f a) p = (if d < n then begin_dispatch d f a p else None)"
| "cj_act n (Dispatch d) p = (if d < n then dispatch_step d p else None)"
| "cj_act n (CWork t) p = (if t < m_threadCount p
     then case execute_thread t p of Some (Inr p') \<Rightarrow> Some p' | _ \<Rightarrow> None else None)"

fun cj_exec :: "nat \<Rightarrow> ('f, 'a) cj_action list \<Rightarrow> ('f, 'a) cpool \<Rightarrow> ('f, 'a) cpool option" where
  "cj_exec n [] p = Some p"
| "cj_exec n (a # as) p = Option.bind (cj_act n a p) (cj_exec n as)"

lemma cj_act_step: "cj_act n a p = Some p' \<Longrightarrow> cj_step n p p'"
  by (cases a) (auto split: if_splits option.splits sum.splits intro: cj_step.intros)

lemma cj_exec_reach:
  assumes "cj_exec n as (cj_built k) = Some p"
  shows "cj_reach n k p"
proof -
  have "cj_exec n as q = Some p \<Longrightarrow> (cj_step n)\<^sup>*\<^sup>* q p" for q
    by (induction as arbitrary: q)
      (auto split: bind_splits intro: converse_rtranclp_into_rtranclp cj_act_step)
  then show ?thesis using assms cj_built_reach [of n k] unfolding cj_reach_def by (meson rtranclp_trans)
qed

lemmas cj_eval = cj_defs ThreadPool_cj_def cj_built_def fun_upd_def

definition one_job :: "(nat, nat) cj_action list" where
  "one_job = Enter 0 5 (Some 6) # replicate 6 (Dispatch 0)"

lemma one_job: "\<exists>p. cj_exec 1 one_job (cj_built 2) = Some p \<and> cstarted p = [] \<and> cposted p = [(5, Some 6)] \<and> \<not> m_available p 0"
  by (simp add: one_job_def cj_eval numeral_eq_Suc)

theorem cj_single_witness:
  "\<exists>p m q. cj_reach 1 2 (p :: (nat, nat) cpool) \<and> pending_jobs p = {# (5, Some 6) #} \<and> (cj_work ^^ m) p q \<and> m \<le> work_left p
     \<and> mset (cstarted q) = {# (5, Some 6) #}"
proof -
  obtain p :: "(nat, nat) cpool" where p: "cj_exec 1 one_job (cj_built 2) = Some p" "cstarted p = []" "cposted p = [(5, Some 6)]"
    using one_job by blast
  have r: "cj_reach 1 2 p" by (rule cj_exec_reach [OF p(1)])
  note c = cj_single [OF r]
  have "(cj_work ^^ 0) p p" by simp
  moreover have "\<forall>j. (\<exists>q. (cj_work ^^ j) p q) \<longrightarrow> j < Suc (work_left p)" using c by (auto simp: less_Suc_eq_le)
  ultimately obtain m where m: "\<exists>q. (cj_work ^^ m) p q" "\<And>j. \<exists>q. (cj_work ^^ j) p q \<Longrightarrow> j \<le> m"
    using ex_has_greatest_nat [of "\<lambda>j. \<exists>q. (cj_work ^^ j) p q" 0 "\<lambda>j. j" "Suc (work_left p)"] by blast
  then obtain q where q: "(cj_work ^^ m) p q" by blast
  have "\<not> cj_work q q'" for q'
  proof
    assume "cj_work q q'"
    then have "(cj_work ^^ Suc m) p q'" using q by auto
    then show False using m(2) [of "Suc m"] by auto
  qed
  moreover have "m \<le> work_left p \<and> ((\<exists>q'. cj_work q q') \<or> mset (cstarted q) = mset (cposted p))" using c q by blast
  ultimately have "m \<le> work_left p" "mset (cstarted q) = {# (5, Some 6) #}" using p(3) by auto
  moreover have "pending_jobs p = {# (5, Some 6) #}" using c p(2,3) by simp
  ultimately show ?thesis using r q by blast
qed

text \<open>But the constructor need not come through: a thread that gets to \<open>sem_wait\<close> first waits on a
  semaphore that the constructor then overwrites.\<close>

theorem cj_startup_race:
  assumes "0 < k"
  shows "\<exists>p. cj_reach n k (p :: (nat, nat) cpool) \<and> ctor_step p = Some (Inl SemInUse)"
proof -
  let ?s = "ThreadPool_cj k :: (nat, nat) cpool"
  let ?p1 = "?s\<lparr>cwpc := (cwpc ?s)(0 := CStart), ctpc := CtCopy 0\<rparr>"
  let ?p2 = "?p1\<lparr>cwpc := (cwpc ?p1)(0 := CWaiting)\<rparr>"
  have "cj_step n ?s ?p1" using assms by (intro cj_step.construct) (simp add: ctor_step_def ThreadPool_cj_def)
  moreover have "cj_step n ?p1 ?p2" using assms
    by (intro cj_step.worker [where t = 0]) (simp_all add: execute_thread_def ThreadPool_cj_def)
  moreover have "ctor_step ?p2 = Some (Inl SemInUse)" by (simp add: ctor_step_def)
  ultimately show ?thesis unfolding cj_reach_def by (meson converse_rtranclp_into_rtranclp rtranclp.rtrancl_refl)
qed

theorem cj_startup_race_witness:
  "\<exists>p. cj_reach 1 10 (p :: (nat, nat) cpool) \<and> ctor_step p = Some (Inl SemInUse)"
  by (rule cj_startup_race) simp

text \<open>With two dispatching threads it does not: both can find the same flag set before either
  clears it. In a reachable state both calls have returned 0 and nothing is left to do for any
  worker, but neither of the two jobs was run: instead the function of the second one was called
  twice, with the argument of the first.\<close>

theorem cj_collide:
  assumes "0 < k"
  shows "\<exists>p. cj_reach 2 k (p :: (nat, nat) cpool) \<and> cposted p = [(0, Some 0), (1, Some 1)]
    \<and> cstarted p = [(1, Some 0), (1, Some 0)] \<and> (\<forall>t. execute_thread t p = None)"
proof -
  let ?acts = "[Enter 0 0 (Some 0), Enter 1 1 (Some 1), Dispatch 0, Dispatch 1, Dispatch 0, Dispatch 1,
    Dispatch 1, Dispatch 0, Dispatch 0, Dispatch 1, Dispatch 0, Dispatch 1] @ replicate 6 (CWork 0)"
  have "\<exists>p. cj_exec 2 ?acts (cj_built k) = Some p \<and> cposted p = [(0, Some 0), (1, Some 1)]
    \<and> cstarted p = [(1, Some 0), (1, Some 0)] \<and> (\<forall>t. execute_thread t p = None)"
    using assms by (simp add: cj_eval numeral_eq_Suc)
  then show ?thesis using cj_exec_reach by blast
qed

theorem cj_collide_witness:
  "\<exists>p. cj_reach 2 10 (p :: (nat, nat) cpool) \<and> cposted p = [(0, Some 0), (1, Some 1)]
    \<and> cstarted p = [(1, Some 0), (1, Some 0)] \<and> (\<forall>t. execute_thread t p = None)"
  by (rule cj_collide) simp

end
