(* ===== verification/NewMessage.thy ===== *)
theory NewMessage
  imports Message
begin

text \<open>
  The other message library, \<open>newLibs/message.cpp\<close>: the same interface over a list of fields. A
  \<open>field\<close> object (pointer and length) is never shared, so the list holds its value; creating and
  deleting the object itself is not modelled, the byte arrays are. Its operations carry the
  suffix \<open>_nl\<close>. First the methods as the code has them, then what they do to the bytes.
\<close>

section \<open>The class\<close>

type_synonym field = "ptr \<times> size_t"   \<comment> \<open>\<open>data\<close> and \<open>len\<close>\<close>

record Message_nl =
  msglen :: size_t
  fieldList :: "field list"

definition Message_default_nl :: Message_nl where
  "Message_default_nl = \<lparr>msglen = 0, fieldList = []\<rparr>"

definition Message_new_nl :: "ptr \<Rightarrow> size_t \<Rightarrow> Message_nl" where
  "Message_new_nl msg len = \<lparr>msglen = len, fieldList = [(msg, len)]\<rparr>"

definition msgAddHdr_nl :: "Message_nl \<Rightarrow> ptr \<Rightarrow> size_t \<Rightarrow> Message_nl" where
  "msgAddHdr_nl m hdr n = m\<lparr>fieldList := (hdr, n) # fieldList m, msglen := msglen m + n\<rparr>"

text \<open>The for loop of \<open>msgStripHdr\<close>: \<open>found\<close> is increased by the length of a field before the
  field is copied to \<open>buf + found\<close> and erased.\<close>

fun strip_loop_nl :: "size_t \<Rightarrow> ptr \<Rightarrow> size_t \<Rightarrow> mem \<Rightarrow> field list \<Rightarrow> (size_t \<times> mem \<times> field list) res" where
  "strip_loop_nl len buf found h [] = Inr (found, h, [])"
| "strip_loop_nl len buf found h (f # rest) =
     (if found < len then
        let found = found + snd f in
        if found < len then
          rbind (ptr_off buf (uint found)) (\<lambda>dst.
          rbind (memcpy h dst (fst f) (snd f)) (\<lambda>h.
          strip_loop_nl len buf found h rest))
        else Inr (found, h, f # rest)
      else Inr (found, h, f # rest))"

text \<open>The part of \<open>msgStripHdr\<close> behind the loop.\<close>

definition strip_end :: "Message_nl \<Rightarrow> size_t \<Rightarrow> ptr \<Rightarrow> size_t \<times> mem \<times> field list \<Rightarrow>
    (ptr option \<times> mem \<times> Message_nl) res" where
  "strip_end m len buf = (\<lambda>(found, h, left).
     if found < len then rbind (free buf h) (\<lambda>h. Inr (None, h, m\<lparr>fieldList := left\<rparr>))
     else if found > len then
       (case left of
          [] \<Rightarrow> Inl BadIterator
        | (origData, flen) # rest \<Rightarrow>
            let prefixLen = flen - (found - len); remainderLen = found - len in
            rbind (ptr_off buf (uint found - uint flen)) (\<lambda>dst.
            rbind (memcpy h dst origData prefixLen) (\<lambda>h.
            let (remainder, h) = alloc (unat remainderLen) h in
            rbind (ptr_off origData (uint prefixLen)) (\<lambda>src.
            rbind (memcpy h remainder src remainderLen) (\<lambda>h.
            Inr (Some buf, h, \<lparr>msglen = msglen m - len, fieldList = (remainder, remainderLen) # rest\<rparr>))))))
     else Inr (Some buf, h, \<lparr>msglen = msglen m - len, fieldList = left\<rparr>))"

definition msgStripHdr_nl :: "mem \<Rightarrow> Message_nl \<Rightarrow> i32 \<Rightarrow> (ptr option \<times> mem \<times> Message_nl) res" where
  "msgStripHdr_nl h m len =
     rbind (new_chars (sint len) h) (\<lambda>(buf, h).
     rbind (strip_loop_nl (scast len) buf 0 h (fieldList m)) (strip_end m (scast len) buf))"

text \<open>The for loop of \<open>msgSplit\<close>: the bytes found and the position of \<open>it\<close>.\<close>

fun find_loop :: "size_t \<Rightarrow> size_t \<Rightarrow> field list \<Rightarrow> size_t \<times> nat" where
  "find_loop len found [] = (found, 0)"
| "find_loop len found (f # rest) =
     (if found < len then let (r, it) = find_loop len (found + snd f) rest in (r, Suc it)
      else (found, 0))"

text \<open>When a field has to be split, \<open>it\<close> stands behind it. After the splice the iterator belongs to
  the list its element moved to: if there is one it is now the first of \<open>secondMsg\<close>, and \<open>--it\<close>
  leaves that list; only when \<open>it\<close> was \<open>end()\<close> does it come back to the field.\<close>

definition msgSplit_nl ::
    "mem \<Rightarrow> Message_nl \<Rightarrow> Message_nl \<Rightarrow> size_t \<Rightarrow> (int \<times> mem \<times> Message_nl \<times> Message_nl) res" where
  "msgSplit_nl h m secondMsg len =
     (let (found, it) = find_loop len 0 (fieldList m) in
      if found < len then Inr (0, h, m, secondMsg)
      else
        let mine = take it (fieldList m); moved = drop it (fieldList m) @ fieldList secondMsg in
        if found > len then
          if it = 0 \<or> it < length (fieldList m) then Inl BadIterator
          else
            let (origData, flen) = fieldList m ! (it - 1);
                prefixLen = flen - (found - len); remainderLen = found - len;
                (prefix, h) = alloc (unat prefixLen) h; (remainder, h) = alloc (unat remainderLen) h in
            rbind (memcpy h prefix origData prefixLen) (\<lambda>h.
            rbind (ptr_off origData (uint prefixLen)) (\<lambda>src.
            rbind (memcpy h remainder src remainderLen) (\<lambda>h.
            rbind (free origData h) (\<lambda>h.
            Inr (1, h, \<lparr>msglen = len, fieldList = (remainder, remainderLen) # tl mine\<rparr>,
                 \<lparr>msglen = msglen m - len, fieldList = moved @ [(prefix, prefixLen)]\<rparr>)))))
        else Inr (1, h, \<lparr>msglen = len, fieldList = mine\<rparr>,
                  \<lparr>msglen = msglen m - len, fieldList = moved\<rparr>))"

definition msgJoin_nl :: "Message_nl \<Rightarrow> Message_nl \<Rightarrow> Message_nl \<times> Message_nl" where
  "msgJoin_nl m secondMsg =
     (\<lparr>msglen = msglen m + msglen secondMsg, fieldList = fieldList m @ fieldList secondMsg\<rparr>,
      \<lparr>msglen = 0, fieldList = []\<rparr>)"

definition msgLen_nl :: "Message_nl \<Rightarrow> size_t" where
  "msgLen_nl m = msglen m"

fun flat_loop_nl :: "ptr \<Rightarrow> size_t \<Rightarrow> mem \<Rightarrow> field list \<Rightarrow> mem res" where
  "flat_loop_nl buffer offset h [] = Inr h"
| "flat_loop_nl buffer offset h (f # rest) =
     rbind (ptr_off buffer (uint offset)) (\<lambda>dst.
     rbind (memcpy h dst (fst f) (snd f)) (\<lambda>h.
     flat_loop_nl buffer (offset + snd f) h rest))"

definition msgFlat_nl :: "mem \<Rightarrow> Message_nl \<Rightarrow> ptr \<Rightarrow> mem res" where
  "msgFlat_nl h m buffer = flat_loop_nl buffer 0 h (fieldList m)"

section \<open>The same data as in the other library\<close>

definition as_msg :: "Message_nl \<Rightarrow> Message" where
  "as_msg m = \<lparr>m_MsgLen = msglen m, m_MsgContent = fieldList m\<rparr>"

definition wf_nl :: "mem \<Rightarrow> Message_nl \<Rightarrow> bool" where
  "wf_nl h m \<longleftrightarrow> wf_msg h (as_msg m)"

definition bytes_nl :: "mem \<Rightarrow> Message_nl \<Rightarrow> cell list" where
  "bytes_nl h m = msg_bytes h (as_msg m)"

definition blocks_nl :: "Message_nl \<Rightarrow> nat set" where
  "blocks_nl m = msg_blocks (as_msg m)"

lemmas nl_defs = wf_nl_def bytes_nl_def blocks_nl_def

lemma as_msg_simps [simp]:
  "as_msg Message_default_nl = Message_default"
  "as_msg (Message_new_nl p n) = Message_new p n"
  "as_msg (msgAddHdr_nl m p n) = msgAddHdr (as_msg m) p n"
  "as_msg (fst (msgJoin_nl m m2)) = fst (msgJoin (as_msg m) (as_msg m2))"
  "as_msg (snd (msgJoin_nl m m2)) = snd (msgJoin (as_msg m) (as_msg m2))"
  "msgLen (as_msg m) = msgLen_nl m"
  by (simp_all add: as_msg_def Message_default_nl_def Message_default_def Message_new_nl_def
      Message_new_def msgAddHdr_nl_def msgAddHdr_def msgJoin_nl_def msgJoin_def join_loop_eq
      msgLen_def msgLen_nl_def)

text \<open>The offset of \<open>msgFlat\<close> is a \<open>size_t\<close> here and an \<open>int\<close> there.\<close>

lemma flat_loop_nl_eq:
  "c + total fs < 2 ^ 31 \<Longrightarrow> flat_loop_nl buf (word_of_nat c) h fs = flat_loop buf (int c) h fs"
proof (induction fs arbitrary: c h)
  case (Cons f fs)
  obtain n where n: "frag_len f = n" by blast
  have nw: "snd f = word_of_nat n" using n by auto
  have "int_of_size (size_of_int (int c) + snd f) = int (c + n)"
    using int_of_size_nat [of "c + n"] Cons.prems n by (simp add: size_of_int_nat nw)
  moreover have "unat (word_of_nat c :: size_t) = c"
    by (rule unat_word_of_nat_small) (use Cons.prems in simp)
  then have "uint (word_of_nat c :: size_t) = int c" by (simp only: uint_nat)
  moreover have "flat_loop_nl buf (word_of_nat c + snd f) h' fs = flat_loop buf (int (c + n)) h' fs" for h'
    using Cons.IH [of "c + n" h'] Cons.prems n by (simp add: nw)
  ultimately show ?case by (simp del: of_nat_add)
qed simp

lemma msgFlat_nl_eq: "wf_nl h m \<Longrightarrow> msgFlat_nl h' m buf = msgFlat h' (as_msg m) buf"
  using flat_loop_nl_eq [of 0 "fieldList m" buf h']
  by (simp add: msgFlat_nl_def msgFlat_def as_msg_def wf_nl_def wf_msg_def)

interpretation nl: message_store wf_nl bytes_nl blocks_nl Message_new_nl msgAddHdr_nl msgFlat_nl msgLen_nl
proof unfold_locales
  fix h m buf assume a: "wf_nl h m" "fst buf \<notin> blocks_nl m" "readable h buf 0"
  then show "msgFlat_nl h m buf = store h buf (bytes_nl h m)"
    using msg.flat [of h "as_msg m" buf] msgFlat_nl_eq by (simp add: nl_defs)
next
  fix h m assume "wf_nl h m"
  then show "msgLen_nl m = word_of_nat (length (bytes_nl h m))"
    using msg.len [of h "as_msg m"] by (simp add: nl_defs)
next
  fix h m p n assume "wf_nl h m" "readable h p n" "n + length (bytes_nl h m) < 2 ^ 31"
  then show "wf_nl h (msgAddHdr_nl m p (word_of_nat n))
      \<and> bytes_nl h (msgAddHdr_nl m p (word_of_nat n)) = cells h p n @ bytes_nl h m
      \<and> blocks_nl (msgAddHdr_nl m p (word_of_nat n)) = insert (fst p) (blocks_nl m)"
    using msg.add [of h "as_msg m" p n] by (simp add: nl_defs)
qed (use msg.small msg.live msg.frame msg.create in \<open>auto simp: nl_defs\<close>)

section \<open>Stripping\<close>

lemma word_less_small:
  "a < 2 ^ 64 \<Longrightarrow> b < 2 ^ 64 \<Longrightarrow> (word_of_nat a :: size_t) < word_of_nat b \<longleftrightarrow> a < b"
  using word_of_nat_less_iff(1) [of a "word_of_nat b"] by simp

lemma uint_small: "a < 2 ^ 64 \<Longrightarrow> uint (word_of_nat a :: size_t) = int a"
  using unat_word_of_nat_small [of a] by (simp only: uint_nat)

lemma store_first:
  assumes "store h (b, k) bs = Inr h'" "blk h b = Some cs" "0 < k"
  obtains cs' where "blk h' b = Some cs'" "length cs' = length cs" "take 1 cs' = take 1 cs"
proof -
  have "k + length bs \<le> length cs" using assms(1,2) by (auto simp: store_def split: if_splits)
  moreover have "h' = h\<lparr>blk := (blk h)(b \<mapsto> take k cs @ bs @ drop (k + length bs) cs)\<rparr>"
    using assms(1,2) by (auto simp: store_def split: if_splits)
  ultimately show thesis using that [of "take k cs @ bs @ drop (k + length bs) cs"] assms(3)
    by auto
qed

text \<open>The loop either runs over the end of the array, or it leaves its first byte alone (every copy
  goes behind it) and stops with all fields consumed or at the field that reaches \<open>len\<close>.\<close>

definition stops :: "nat \<Rightarrow> nat \<Rightarrow> nat \<Rightarrow> field list \<Rightarrow> field list \<Rightarrow> bool" where
  "stops len c found fs left \<longleftrightarrow>
     (case left of [] \<Rightarrow> found = c + total fs \<and> found < len
      | f # r \<Rightarrow> found + total r = c + total fs \<and> frag_len f \<le> found \<and> found - frag_len f < len \<and> len \<le> found
          \<and> (fs = f # r \<or> c + frag_len (hd fs) \<le> found - frag_len f))"

lemma strip_loop_nl_spec:
  assumes "wf_frags h fs" "b \<notin> blocks fs" "c + total fs < 2 ^ 31" "c < len" "len < 2 ^ 31"
    and "blk h b = Some cs" "length cs = len" "fs \<noteq> [] \<Longrightarrow> 0 < c + frag_len (hd fs)"
  shows "strip_loop_nl (word_of_nat len) (b, 0) (word_of_nat c) h fs = Inl OutOfBounds \<or>
    (\<exists>found h' left cs'. strip_loop_nl (word_of_nat len) (b, 0) (word_of_nat c) h fs
        = Inr (word_of_nat found, h', left)
      \<and> stops len c found fs left \<and> wf_frags h' left \<and> blocks left \<subseteq> blocks fs
      \<and> blk h' b = Some cs' \<and> length cs' = len \<and> take 1 cs' = take 1 cs \<and> mem_ext {b} h h' \<and> brk h' = brk h
      \<and> (wf_mem h \<longrightarrow> wf_mem h'))"
  using assms
proof (induction fs arbitrary: c h cs)
  case Nil
  then show ?case by (auto simp: stops_def)
next
  case (Cons f fs)
  obtain n where n: "frag_len f = n" by blast
  have nw: "snd f = word_of_nat n" using n by auto
  have lt: "(word_of_nat c :: size_t) < word_of_nat len" using Cons.prems by (simp add: word_less_small)
  have sum: "word_of_nat c + snd f = (word_of_nat (c + n) :: size_t)" by (simp add: nw)
  have small: "c + n < 2 ^ 64" "len < 2 ^ 64" using Cons.prems(3,5) n by simp_all
  show ?case
  proof (cases "c + n < len")
    case False
    then have "\<not> (word_of_nat (c + n) :: size_t) < word_of_nat len"
      using word_less_small [OF small] by simp
    then have "strip_loop_nl (word_of_nat len) (b, 0) (word_of_nat c) h (f # fs)
        = Inr (word_of_nat (c + n), h, f # fs)"
      using lt by (simp only: strip_loop_nl.simps Let_def sum if_True if_False)
    moreover have "stops len c (c + n) (f # fs) (f # fs)"
      using False Cons.prems(4) n by (simp add: stops_def)
    ultimately show ?thesis using Cons.prems(1,6,7) by fastforce
  next
    case True
    then have tw: "(word_of_nat (c + n) :: size_t) < word_of_nat len"
      using word_less_small [OF small] by simp
    have off: "ptr_off (b, 0) (uint (word_of_nat (c + n) :: size_t)) = Inr (b, c + n)"
      using uint_small [OF small(1)] by (simp add: ptr_off_def del: of_nat_add)
    have cpy: "memcpy h (b, c + n) (fst f) (snd f) = store h (b, c + n) (frag_cells h f)"
      using memcpy_store [of h "fst f" "snd f" "(b, c + n)"] Cons.prems by (simp add: frag_cells_def)
    have eq: "strip_loop_nl (word_of_nat len) (b, 0) (word_of_nat c) h (f # fs) =
        rbind (store h (b, c + n) (frag_cells h f))
          (\<lambda>h. strip_loop_nl (word_of_nat len) (b, 0) (word_of_nat (c + n)) h fs)"
      using lt tw off cpy by (simp only: strip_loop_nl.simps Let_def sum if_True rbind.simps)
    show ?thesis
    proof (cases "store h (b, c + n) (frag_cells h f)")
      case (Inl e)
      then have "e = OutOfBounds" using Cons.prems(6) by (auto simp: store_def split: if_splits)
      then show ?thesis using eq Inl by simp
    next
      case (Inr h1)
      have "0 < c + n" using Cons.prems(8) n by simp
      then obtain cs1 where cs1: "blk h1 b = Some cs1" "length cs1 = length cs" "take 1 cs1 = take 1 cs"
        by (rule store_first [OF Inr Cons.prems(6)])
      note ext = store_spec(3) [OF Inr, simplified]
      have "wf_frags h1 fs" using frags_ext(1) [OF ext] Cons.prems(1,2) by auto
      then have "strip_loop_nl (word_of_nat len) (b, 0) (word_of_nat (c + n)) h1 fs = Inl OutOfBounds \<or>
        (\<exists>found h' left cs'. strip_loop_nl (word_of_nat len) (b, 0) (word_of_nat (c + n)) h1 fs
            = Inr (word_of_nat found, h', left)
          \<and> stops len (c + n) found fs left \<and> wf_frags h' left \<and> blocks left \<subseteq> blocks fs
          \<and> blk h' b = Some cs' \<and> length cs' = len \<and> take 1 cs' = take 1 cs1 \<and> mem_ext {b} h1 h' \<and> brk h' = brk h1
          \<and> (wf_mem h1 \<longrightarrow> wf_mem h'))"
        using Cons.prems(2-5,7) cs1 True n \<open>0 < c + n\<close> by (intro Cons.IH) auto
      then consider "strip_loop_nl (word_of_nat len) (b, 0) (word_of_nat (c + n)) h1 fs = Inl OutOfBounds"
        | found h' left cs' where
            "strip_loop_nl (word_of_nat len) (b, 0) (word_of_nat (c + n)) h1 fs = Inr (word_of_nat found, h', left)"
            "stops len (c + n) found fs left" "wf_frags h' left" "blocks left \<subseteq> blocks fs"
            "blk h' b = Some cs'" "length cs' = len" "take 1 cs' = take 1 cs1" "mem_ext {b} h1 h'"
            "brk h' = brk h1" "wf_mem h1 \<longrightarrow> wf_mem h'"
        by blast
      then show ?thesis
      proof cases
        case 1
        then show ?thesis using eq Inr by simp
      next
        case 2
        have "stops len c found (f # fs) left"
          using 2(2) n by (auto simp: stops_def split: list.splits)
        then show ?thesis
          using eq Inr 2 cs1 mem_ext_trans [OF ext 2(8)] store_spec(1,2) [OF Inr] by (auto intro!: exI)
      qed
    qed
  qed
qed

lemma msgStripHdr_nl_eq:
  assumes "sint k = int n"
  shows "msgStripHdr_nl h m k =
    rbind (strip_loop_nl (word_of_nat n) (brk h, 0) 0 (put (undef_cells n) h) (fieldList m))
      (strip_end m (word_of_nat n) (brk h, 0))"
  using assms by (simp add: msgStripHdr_nl_def new_chars_def alloc_put scast_int)

lemma strip_end_cut:
  assumes "wf_mem h" "blk h b = Some cs" "length cs = len" "readable h (p, o1) n" "p \<noteq> b" "b < brk h"
    and "n \<le> found" "found - n < len" "len < found" "found < 2 ^ 31" and "k = n - (found - len)"
  shows "strip_end m (word_of_nat len) (b, 0) (word_of_nat found, h, ((p, o1), word_of_nat n) # rest) =
    Inr (Some (b, 0),
      put (drop k (cells h (p, o1) n))
        (h\<lparr>blk := (blk h)(b \<mapsto> take (found - n) cs @ take k (cells h (p, o1) n))\<rparr>),
      \<lparr>msglen = msglen m - word_of_nat len,
       fieldList = ((brk h, 0), word_of_nat (found - len)) # rest\<rparr>)"
proof -
  let ?c = "cells h (p, o1) n"
  let ?h1 = "h\<lparr>blk := (blk h)(b \<mapsto> take (found - n) cs @ take k ?c)\<rparr>"
  let ?h2 = "put (undef_cells (found - len)) ?h1"
  have c: "length ?c = n" using assms(4) by simp
  have k: "k \<le> n" "found - n + k = len" "n - k = found - len" using assms(7-11) by auto
  have w: "(word_of_nat found :: size_t) - word_of_nat len = word_of_nat (found - len)"
    "(word_of_nat n :: size_t) - word_of_nat (found - len) = word_of_nat k"
    using assms(7-11) by (simp_all add: of_nat_diff)
  have s64: "found < 2 ^ 64" "len < 2 ^ 64" "n < 2 ^ 64" "k < 2 ^ 64" "found - len < 2 ^ 64"
    using assms(7-11) k by auto
  note un = s64 [THEN uint_small] s64 [THEN unat_word_of_nat_small]
  have cmp: "\<not> (word_of_nat found :: size_t) < word_of_nat len" "(word_of_nat len :: size_t) < word_of_nat found"
    using assms(9) word_less_small [OF s64(1,2)] word_less_small [OF s64(2,1)] by simp_all
  have "memcpy h (b, found - n) (p, o1) (word_of_nat k) = store h (b, found - n) (take k ?c)"
    using memcpy_store [of h "(p, o1)" "word_of_nat k" "(b, found - n)"] readable_le [OF assms(4) k(1)]
      cells_take_le [OF k(1)] assms(5) un(9) by simp
  also have "\<dots> = Inr ?h1"
    using store_blk [OF assms(2), of "found - n" "take k ?c"] k c assms(3) by simp
  finally have m1: "memcpy h (b, found - n) (p, o1) (word_of_nat k) = Inr ?h1" .
  have pl: "p \<noteq> brk h" using wf_mem_readable [OF assms(1,4)] by simp
  have rd: "readable ?h2 (p, o1 + k) (found - len)" "cells ?h2 (p, o1 + k) (found - len) = drop k ?c"
    using readable_off [OF assms(4) k(1)] cells_drop [of h p o1 k n] assms(5) pl k(3)
    by (simp_all add: readable_def cells_def blk_put)
  then have m2: "memcpy ?h2 (brk h, 0) (p, o1 + k) (word_of_nat (found - len)) = Inr (put (drop k ?c) ?h1)"
    using memcpy_store [of ?h2 "(p, o1 + k)" "word_of_nat (found - len)" "(brk h, 0)"] un(10) pl c k
      store_put [of 0 "drop k ?c" "undef_cells (found - len)" ?h1] by simp
  have off: "ptr_off (b, 0) (int found - int n) = Inr (b, found - n)" "ptr_off (p, o1) (int k) = Inr (p, o1 + k)"
    using assms(7) by (simp_all add: ptr_off_def nat_diff_distrib nat_add_distrib)
  show ?thesis
    using cmp m1 m2 off un w by (simp add: strip_end_def Let_def alloc_put del: of_nat_diff)
qed

text \<open>The array of \<open>msgStripHdr\<close> is new, so the fields are as before.\<close>

lemma wf_nl_put:
  assumes "wf_mem h" "wf_nl h m"
  shows "wf_frags (put cs h) (fieldList m)" "content (put cs h) (fieldList m) = bytes_nl h m"
    "brk h \<notin> blocks (fieldList m)" "total (fieldList m) < 2 ^ 31" "length (bytes_nl h m) = total (fieldList m)"
proof -
  have w: "wf_frags h (fieldList m)" "total (fieldList m) < 2 ^ 31"
    using assms(2) by (simp_all add: wf_nl_def wf_msg_def as_msg_def)
  then show "wf_frags (put cs h) (fieldList m)" "content (put cs h) (fieldList m) = bytes_nl h m"
    using frags_ext [OF mem_ext_put [OF assms(1)]] by (simp_all add: bytes_nl_def msg_bytes_def as_msg_def)
  show "brk h \<notin> blocks (fieldList m)" using wf_frags_blocks [OF assms(1) w(1)] by blast
  show "total (fieldList m) < 2 ^ 31" by (rule w)
  show "length (bytes_nl h m) = total (fieldList m)"
    using w(1) by (simp add: bytes_nl_def msg_bytes_def as_msg_def length_content)
qed

text \<open>With a first field that reaches the length asked for, the loop stops at once.\<close>

lemma strip_loop_nl_first:
  assumes "0 < n" "n \<le> frag_len f" "n < 2 ^ 64"
  shows "strip_loop_nl (word_of_nat n) buf 0 h (f # fs) = Inr (snd f, h, f # fs)"
proof -
  have "\<not> snd f < word_of_nat n" "(0 :: size_t) < word_of_nat n"
    using assms word_of_nat_less_iff(2) [of n "snd f"] word_less_small [of 0 n]
    by (simp_all add: word_less_nat_alt)
  then show ?thesis by simp
qed

text \<open>The message of three and four bytes, as in \<open>Message\<close>.\<close>

definition sample_nl :: Message_nl where
  "sample_nl = \<lparr>msglen = 7, fieldList = [((0, 0), 3), ((1, 0), 4)]\<rparr>"

lemma sample_nl: "wf_nl sample_mem sample_nl" "bytes_nl sample_mem sample_nl = map Some [1, 2, 3, 4, 5, 6, 7]"
proof -
  have "as_msg sample_nl = sample_msg" by (simp add: as_msg_def sample_nl_def sample_msg_def)
  then show "wf_nl sample_mem sample_nl" "bytes_nl sample_mem sample_nl = map Some [1, 2, 3, 4, 5, 6, 7]"
    using sample_msg(2,3) by (simp_all add: nl_defs)
qed

section \<open>What stripping does\<close>

text \<open>\<open>msgStripHdr\<close> of \<open>newLibs/message.cpp\<close> inside the first field: the buffer returned holds the
  first bytes of the message, the message is left well formed with exactly the rest, and nothing
  else in memory changes.\<close>

theorem nl_strip_inside:
  assumes "wf_mem h" "wf_nl h m" "fieldList m = f # fs" "0 < n" "n < frag_len f" "sint k = int n"
  shows "\<exists>p h' m'. msgStripHdr_nl h m k = Inr (Some p, h', m') \<and> cells h' p n = take n (bytes_nl h m)
    \<and> wf_nl h' m' \<and> bytes_nl h' m' = drop n (bytes_nl h m) \<and> mem_ext {} h h'"
proof -
  obtain p o1 w where f: "f = ((p, o1), w)" by (metis surj_pair)
  let ?h = "put (undef_cells n) h"
  note w = wf_nl_put(1,2) [OF assms(1,2), of "undef_cells n"] wf_nl_put(3-5) [OF assms(1,2)]
  have lt: "frag_len f < 2 ^ 31" "n < 2 ^ 64" using w(4) assms(3,5) by auto
  let ?c = "cells ?h (p, o1) (frag_len f)"
  have rd: "readable ?h (p, o1) (frag_len f)" "p \<noteq> brk h" using w(1,3) assms(3) f by simp_all
  have ws: "snd f = word_of_nat (frag_len f)" by simp
  let ?h' = "put (drop n ?c) (?h\<lparr>blk := (blk ?h)(brk h \<mapsto> take n ?c)\<rparr>)"
  let ?m' = "\<lparr>msglen = msglen m - word_of_nat n,
    fieldList = ((Suc (brk h), 0), word_of_nat (frag_len f - n)) # fs\<rparr>"
  have run: "msgStripHdr_nl h m k = Inr (Some (brk h, 0), ?h', ?m')"
    using msgStripHdr_nl_eq [OF assms(6), of h m] strip_loop_nl_first [of n f "(brk h, 0)" ?h fs]
      strip_end_cut [of ?h "brk h" "undef_cells n" n p o1 "frag_len f" "frag_len f" n m fs]
      assms(1,3-5) rd lt f ws by simp
  have c: "content ?h (fieldList m) = ?c @ content ?h fs" "length ?c = frag_len f"
    using assms(3) f rd(1) by (simp_all add: frag_cells_def)
  have "p < brk h" using wf_mem_readable [OF _ rd(1)] assms(1) rd(2) by simp
  have ext: "mem_ext {brk h} ?h ?h'" by (auto simp: mem_ext_def blk_put assms(1))
       (use assms(1) in \<open>auto simp: wf_mem_def\<close>)
  have fs: "wf_frags ?h' fs" "content ?h' fs = content ?h fs"
    using frags_ext [OF ext, of fs] w(1,3) assms(3) by auto
  have nw: "unat (word_of_nat (frag_len f - n) :: size_t) = frag_len f - n"
    using unat_word_of_nat_small [of "frag_len f - n"] lt by simp
  have new: "readable ?h' (Suc (brk h), 0) (frag_len f - n)"
    "cells ?h' (Suc (brk h), 0) (frag_len f - n) = drop n ?c" "cells ?h' (brk h, 0) n = take n ?c"
    using c(2) assms(5) by (simp_all add: readable_def cells_def blk_put)
  have bytes: "bytes_nl h m = ?c @ content ?h fs" using w(2) c(1) by simp
  have "bytes_nl ?h' ?m' = drop n ?c @ content ?h fs"
    using fs(2) nw new(2) by (simp add: bytes_nl_def msg_bytes_def as_msg_def frag_cells_def del: of_nat_diff)
  then have "bytes_nl ?h' ?m' = drop n (bytes_nl h m)" using c(2) assms(5) by (simp add: bytes)
  moreover have "wf_nl ?h' ?m'"
  proof -
    have "msglen m = word_of_nat (total (f # fs))"
      using assms(2,3) by (simp add: wf_nl_def wf_msg_def as_msg_def)
    then have "msglen m - word_of_nat n = word_of_nat (total (f # fs) - n)"
      using assms(5) by (simp add: of_nat_diff)
    moreover have "total (f # fs) - n = (frag_len f - n) + total fs" using assms(5) by simp
    ultimately show ?thesis
      using fs(1) nw new(1) w(4) assms(3) by (simp add: wf_nl_def wf_msg_def as_msg_def del: of_nat_diff)
  qed
  moreover have "mem_ext {} h ?h'"
    using mem_ext_trans [OF mem_ext_mono [OF mem_ext_put [OF assms(1), of "undef_cells n"], of "{brk h}"] ext]
      assms(1) by (auto simp: wf_mem_def intro: mem_ext_drop_fresh)
  moreover have "cells ?h' (brk h, 0) n = take n (bytes_nl h m)"
    using new(3) bytes c(2) assms(5) by simp
  ultimately show ?thesis using run by blast
qed

theorem nl_strip_inside_witness:
  "\<exists>p h' m'. msgStripHdr_nl sample_mem sample_nl 2 = Inr (Some p, h', m')
     \<and> cells h' p 2 = map Some [1, 2] \<and> bytes_nl h' m' = map Some [3, 4, 5, 6, 7]"
proof -
  have "fieldList sample_nl = ((0, 0), 3) # [((1, 0), 4)]" by (simp add: sample_nl_def)
  from nl_strip_inside [OF sample_msg(1) sample_nl(1) this, of 2 2] show ?thesis
    by (fastforce simp: sample_nl(2))
qed

text \<open>C33: A header that was pushed cannot be popped in \<open>newLibs/message.cpp\<close>: asked for exactly the
  first field, \<open>msgStripHdr\<close> returns an array of indeterminate bytes and leaves the field in the
  message, whose bytes are unchanged while its length is lowered. (In \<open>ourLibs/Message.h\<close> the same
  two calls give the header back.)\<close>

theorem nl_header_lost:
  assumes "wf_mem h" "wf_nl h m" "cs \<noteq> []" "length cs + length (bytes_nl h m) < 2 ^ 31" "sint k = int (length cs)"
  shows "\<exists>p h' m'. msgStripHdr_nl (put cs h) (msgAddHdr_nl m (brk h, 0) (word_of_nat (length cs))) k
      = Inr (Some p, h', m')
    \<and> cells h' p (length cs) = undef_cells (length cs) \<and> bytes_nl h' m' = cs @ bytes_nl h m
    \<and> msgLen_nl m' = msgLen_nl m"
proof -
  let ?n = "length cs" and ?h = "put cs h"
  let ?m = "msgAddHdr_nl m (brk h, 0) (word_of_nat ?n)"
  let ?h' = "put (undef_cells ?n) ?h" and ?m' = "?m\<lparr>msglen := msglen ?m - word_of_nat ?n\<rparr>"
  note p = nl.push [OF assms(1,2,4)]
  have n: "0 < ?n" "?n < 2 ^ 64" using assms(3,4) by auto
  have f: "fieldList ?m = ((brk h, 0), word_of_nat ?n) # fieldList m" by (simp add: msgAddHdr_nl_def)
  have len: "unat (word_of_nat ?n :: size_t) = ?n" by (rule unat_word_of_nat_small [OF n(2)])
  have "msgStripHdr_nl ?h ?m k = Inr (Some (brk ?h, 0), ?h', ?m')"
    using msgStripHdr_nl_eq [OF assms(5), of ?h ?m] n len f
      strip_loop_nl_first [of ?n "((brk h, 0), word_of_nat ?n)" "(brk ?h, 0)" ?h' "fieldList m"]
    by (simp add: strip_end_def)
  moreover have "bytes_nl ?h' ?m' = cs @ bytes_nl h m"
    using nl.keep(2) [OF mem_ext_put [OF wf_mem_put [OF assms(1)]] p(1), of "undef_cells ?n"] p(2)
    by (simp add: bytes_nl_def msg_bytes_def as_msg_def)
  moreover have "cells ?h' (brk ?h, 0) ?n = undef_cells ?n" by (simp add: cells_def blk_put)
  moreover have "msgLen_nl ?m' = msgLen_nl m" by (simp add: msgLen_nl_def msgAddHdr_nl_def)
  ultimately show ?thesis by blast
qed

theorem nl_header_lost_witness:
  "\<exists>p h' m'. msgStripHdr_nl (put (map Some [9, 8]) sample_mem) (msgAddHdr_nl sample_nl (2, 0) 2) 2 = Inr (Some p, h', m')
     \<and> cells h' p 2 = undef_cells 2 \<and> bytes_nl h' m' = map Some [9, 8, 1, 2, 3, 4, 5, 6, 7]"
proof -
  define cs :: "cell list" where "cs = map Some [9, 8]"
  have cs: "length cs = 2" "cs \<noteq> []" "brk sample_mem = 2"
    by (simp_all add: cs_def sample_mem_def empty_mem_def)
  have "sint (2 :: i32) = int (length cs)" "length cs + length (bytes_nl sample_mem sample_nl) < 2 ^ 31"
    by (simp_all add: cs(1) sample_nl(2))
  from nl_header_lost [OF sample_msg(1) sample_nl(1) cs(2) this(2,1)] show ?thesis
    unfolding cs by (auto simp: sample_nl(2) cs_def)
qed

text \<open>\<open>msgStripHdr\<close> of \<open>newLibs/message.cpp\<close> past the first field never works: it writes beyond
  its array, or returns null with all fields lost but the length kept, or returns an array whose
  first byte was never written.\<close>

theorem nl_strip_past:
  assumes "wf_mem h" "wf_nl h m" "fieldList m = f # fs" "0 < frag_len f" "frag_len f < n" "sint k = int n"
  shows "case msgStripHdr_nl h m k of
      Inl e \<Rightarrow> e = OutOfBounds
    | Inr (None, h', m') \<Rightarrow> length (bytes_nl h m) < n \<and> bytes_nl h' m' = [] \<and> msgLen_nl m' = msgLen_nl m
    | Inr (Some p, h', m') \<Rightarrow> n \<le> length (bytes_nl h m) \<and> cells h' p 1 = [None]"
proof -
  let ?h = "put (undef_cells n) h" and ?b = "brk h"
  note w = wf_nl_put(1,2) [OF assms(1,2), of "undef_cells n"] wf_nl_put(3-5) [OF assms(1,2)]
  have n: "n < 2 ^ 31" using sint_i32_bounds(2) [of k] assms(6) by simp
  have eq: "msgStripHdr_nl h m k =
      rbind (strip_loop_nl (word_of_nat n) (?b, 0) (word_of_nat 0) ?h (fieldList m)) (strip_end m (word_of_nat n) (?b, 0))"
    using msgStripHdr_nl_eq [OF assms(6)] by simp
  have "strip_loop_nl (word_of_nat n) (?b, 0) (word_of_nat 0) ?h (fieldList m) = Inl OutOfBounds \<or>
    (\<exists>found h' left cs'. strip_loop_nl (word_of_nat n) (?b, 0) (word_of_nat 0) ?h (fieldList m)
        = Inr (word_of_nat found, h', left)
      \<and> stops n 0 found (fieldList m) left \<and> wf_frags h' left \<and> blocks left \<subseteq> blocks (fieldList m)
      \<and> blk h' ?b = Some cs' \<and> length cs' = n \<and> take 1 cs' = take 1 (undef_cells n) \<and> mem_ext {?b} ?h h'
      \<and> brk h' = brk ?h \<and> (wf_mem ?h \<longrightarrow> wf_mem h'))"
    using w n assms(3-5) by (intro strip_loop_nl_spec) auto
  then consider (oob) "msgStripHdr_nl h m k = Inl OutOfBounds"
    | (run) found h' left cs' where
        "msgStripHdr_nl h m k = strip_end m (word_of_nat n) (?b, 0) (word_of_nat found, h', left)"
        "stops n 0 found (fieldList m) left" "wf_frags h' left" "blocks left \<subseteq> blocks (fieldList m)"
        "blk h' ?b = Some cs'" "length cs' = n" "take 1 cs' = take 1 (undef_cells n)" "brk h' = Suc ?b"
        "wf_mem h'"
    unfolding eq using wf_mem_put [OF assms(1)] by fastforce
  then show ?thesis
  proof cases
    case oob
    then show ?thesis by simp
  next
    case run
    note first = run(5-7)
    have one: "cells h2 (?b, 0) 1 = [None]" if "blk h2 ?b = Some cs2" "take 1 cs2 = take 1 (undef_cells n)" for h2 cs2
      using that assms(4,5) by (simp add: cells_def take_Suc_conv_app_nth)
    show ?thesis
    proof (cases left)
      case Nil
      then have f: "found = total (fieldList m)" "found < n" using run(2) by (simp_all add: stops_def)
      then have "(word_of_nat found :: size_t) < word_of_nat n" using n by (simp add: word_less_small)
      then have "strip_end m (word_of_nat n) (?b, 0) (word_of_nat found, h', left) =
          Inr (None, h'\<lparr>blk := (blk h')(?b := None)\<rparr>, m\<lparr>fieldList := []\<rparr>)"
        using first(1) Nil by (simp add: strip_end_def free_def)
      then show ?thesis
        using run(1) f w(5) by (simp add: bytes_nl_def msg_bytes_def as_msg_def msgLen_nl_def)
    next
      case (Cons g rest)
      obtain p o1 v where g: "g = ((p, o1), v)" by (metis surj_pair)
      have st: "found + total rest = total (fieldList m)" "frag_len g \<le> found" "found - frag_len g < n" "n \<le> found"
        using run(2) Cons by (simp_all add: stops_def)
      have len: "n \<le> length (bytes_nl h m)" using st w(5) by simp
      have small: "found < 2 ^ 31" using st(1) w(4) by simp
      show ?thesis
      proof (cases "found = n")
        case True
        then show ?thesis using run(1) len one [OF first(1,3)] by (simp add: strip_end_def)
      next
        case False
        have wf: "wf_mem h'" by (rule run(9))
        have gp: "readable h' (p, o1) (frag_len g)" "p \<noteq> ?b" using run(3,4) Cons g w(3) by auto
        have pos: "0 < found - frag_len g"
        proof (cases "fieldList m = g # rest")
          case True
          then show ?thesis using st(1,4) assms(3,5) by simp
        next
          case False
          then have "frag_len f \<le> found - frag_len g" using run(2) Cons assms(3) by (auto simp: stops_def)
          then show ?thesis using assms(4) by simp
        qed
        obtain q where q: "frag_len g = q" by blast
        then have gw: "left = ((p, o1), word_of_nat q) # rest" using Cons g by auto
        let ?h2 = "put (drop (q - (found - n)) (cells h' (p, o1) q))
            (h'\<lparr>blk := (blk h')(?b \<mapsto> take (found - q) cs' @ take (q - (found - n)) (cells h' (p, o1) q))\<rparr>)"
        have "strip_end m (word_of_nat n) (?b, 0) (word_of_nat found, h', left) =
          Inr (Some (?b, 0), ?h2, \<lparr>msglen = msglen m - word_of_nat n,
             fieldList = ((brk h', 0), word_of_nat (found - n)) # rest\<rparr>)"
          unfolding gw using False st(2-4) run(8) gp q
          by (intro strip_end_cut [OF wf first(1,2) _ _ _ _ _ _ small refl]) auto
        moreover have "cells ?h2 (?b, 0) 1 = [None]"
        proof (rule one)
          show "blk ?h2 ?b = Some (take (found - q) cs' @ take (q - (found - n)) (cells h' (p, o1) q))"
            using run(8) by (simp add: blk_put)
          show "take 1 (take (found - q) cs' @ take (q - (found - n)) (cells h' (p, o1) q)) = take 1 (undef_cells n)"
            using first(2,3) pos q assms(5) by simp
        qed
        ultimately show ?thesis using run(1) len by simp
      qed
    qed
  qed
qed

theorem nl_strip_past_witness:
  "case msgStripHdr_nl sample_mem sample_nl 5 of Inl e \<Rightarrow> e = OutOfBounds | Inr (None, h', m') \<Rightarrow> False
   | Inr (Some p, h', m') \<Rightarrow> cells h' p 1 = [None]"
proof -
  have "fieldList sample_nl = ((0, 0), 3) # [((1, 0), 4)]" by (simp add: sample_nl_def)
  from nl_strip_past [OF sample_msg(1) sample_nl(1) this, of 5 5] show ?thesis
    by (auto simp: sample_nl(2) split: sum.splits option.splits)
qed

section \<open>What splitting does\<close>

text \<open>Where the loop of \<open>msgSplit\<close> stops.\<close>

lemma find_loop_spec:
  assumes "n \<le> c + total fs" "c + total fs < 2 ^ 64"
  shows "\<exists>it \<le> length fs. find_loop (word_of_nat n) (word_of_nat c) fs
      = (word_of_nat (c + total (take it fs)), it) \<and> n \<le> c + total (take it fs)
    \<and> (0 < it \<longrightarrow> c + total (take (it - 1) fs) < n)"
  using assms
proof (induction fs arbitrary: c)
  case (Cons f fs)
  obtain k where k: "frag_len f = k" by blast
  have kw: "word_of_nat c + snd f = (word_of_nat (c + k) :: size_t)" using k by auto
  have lt: "(word_of_nat c :: size_t) < word_of_nat n \<longleftrightarrow> c < n"
    using Cons.prems by (simp add: word_less_small)
  show ?case
  proof (cases "c < n")
    case True
    obtain it where it: "it \<le> length fs"
      "find_loop (word_of_nat n) (word_of_nat (c + k)) fs = (word_of_nat (c + k + total (take it fs)), it)"
      "n \<le> c + k + total (take it fs)" "0 < it \<longrightarrow> c + k + total (take (it - 1) fs) < n"
      using Cons.IH [of "c + k"] Cons.prems k by auto
    have "c + total (take it (f # fs)) < n"
      using it(4) True k by (cases it) (simp_all add: add.assoc)
    then show ?thesis
      using True lt it(1-3) k kw by (intro exI [of _ "Suc it"]) (auto simp: add.assoc Let_def)
  next
    case False
    then show ?thesis using lt by (intro exI [of _ 0]) auto
  qed
qed auto

lemma wf_nl_parts:
  assumes "wf_nl h m"
  shows "wf_frags h (fieldList m)" "total (fieldList m) < 2 ^ 31" "msglen m = word_of_nat (total (fieldList m))"
    "length (bytes_nl h m) = total (fieldList m)" "bytes_nl h m = content h (fieldList m)"
  using assms
  by (simp_all add: wf_nl_def wf_msg_def as_msg_def bytes_nl_def msg_bytes_def length_content)

lemma content_take_drop:
  "wf_frags h fs \<Longrightarrow> content h (take i fs) = take (total (take i fs)) (content h fs)
     \<and> content h (drop i fs) = drop (total (take i fs)) (content h fs)"
proof (induction fs arbitrary: i)
  case (Cons f fs)
  then show ?case by (cases i) auto
qed simp

lemma total_take_drop: "total (take i fs) + total (drop i fs) = total fs"
  by (metis append_take_drop_id frags_simps(6))

lemma total_take_mono: "i \<le> j \<Longrightarrow> total (take i fs) \<le> total (take j fs)"
  using total_take_drop [of i "take j fs"] by (simp add: min_def)

lemma find_loop_all:
  "c + total fs < n \<Longrightarrow> n < 2 ^ 64 \<Longrightarrow>
     find_loop (word_of_nat n) (word_of_nat c) fs = (word_of_nat (c + total fs), length fs)"
proof (induction fs arbitrary: c)
  case (Cons f fs)
  obtain k where k: "frag_len f = k" by blast
  have kw: "word_of_nat c + snd f = (word_of_nat (c + k) :: size_t)" using k by auto
  have "(word_of_nat c :: size_t) < word_of_nat n" using Cons.prems by (simp add: word_less_small)
  then show ?case
    using Cons.IH [of "c + k"] Cons.prems k kw by (simp add: add.assoc)
qed simp

text \<open>Splitting at a field boundary works in \<open>newLibs/message.cpp\<close>: no byte is copied, the first
  message keeps the first \<open>n\<close> bytes and the (empty) second one receives the rest, both well
  formed, and joining them gives back the message as it was. A length beyond the message is
  refused with 0 and nothing changes.\<close>

theorem nl_split_boundary:
  assumes "wf_nl h m" "n = total (take i (fieldList m))" "length (bytes_nl h m) < k" "k < 2 ^ 64"
  shows "(\<exists>m1 m2. msgSplit_nl h m Message_default_nl (word_of_nat n) = Inr (1, h, m1, m2)
      \<and> wf_nl h m1 \<and> wf_nl h m2 \<and> bytes_nl h m1 = take n (bytes_nl h m) \<and> bytes_nl h m2 = drop n (bytes_nl h m)
      \<and> msgJoin_nl m1 m2 = (m, Message_default_nl))
    \<and> msgSplit_nl h m Message_default_nl (word_of_nat k) = Inr (0, h, m, Message_default_nl)"
proof
  let ?fs = "fieldList m"
  note w = wf_nl_parts [OF assms(1)]
  have n: "n \<le> total ?fs" using total_take_drop [of i ?fs] assms(2) by simp
  obtain it where it: "it \<le> length ?fs"
    "find_loop (word_of_nat n) (word_of_nat 0) ?fs = (word_of_nat (0 + total (take it ?fs)), it)"
    "n \<le> total (take it ?fs)" "0 < it \<longrightarrow> total (take (it - 1) ?fs) < n"
    using find_loop_spec [of n 0 ?fs] n w(2) by auto
  have "total (take it ?fs) \<le> n"
  proof (cases "it \<le> i")
    case True
    then show ?thesis using total_take_mono [of it i ?fs] assms(2) by simp
  next
    case False
    then have "total (take i ?fs) \<le> total (take (it - 1) ?fs)" by (intro total_take_mono) simp
    then show ?thesis using it(4) False assms(2) by simp
  qed
  then have eq: "total (take it ?fs) = n" using it(3) by simp
  let ?m1 = "\<lparr>msglen = word_of_nat n, fieldList = take it ?fs\<rparr>"
  let ?m2 = "\<lparr>msglen = msglen m - word_of_nat n, fieldList = drop it ?fs\<rparr>"
  have run: "msgSplit_nl h m Message_default_nl (word_of_nat n) = Inr (1, h, ?m1, ?m2)"
    using it(2) eq by (simp add: msgSplit_nl_def Message_default_nl_def Let_def)
  have rest: "total (drop it ?fs) = total ?fs - n" using total_take_drop [of it ?fs] eq by simp
  have wf: "wf_frags h (take it ?fs)" "wf_frags h (drop it ?fs)"
    using w(1) by (auto simp: wf_frags_def dest: in_set_takeD in_set_dropD)
  have "wf_nl h ?m1" "wf_nl h ?m2"
    using wf w(2,3) eq rest n by (simp_all add: wf_nl_def wf_msg_def as_msg_def of_nat_diff)
  moreover have "bytes_nl h ?m1 = take n (bytes_nl h m)" "bytes_nl h ?m2 = drop n (bytes_nl h m)"
    using content_take_drop [OF w(1), of it] eq by (simp_all add: bytes_nl_def msg_bytes_def as_msg_def)
  moreover have "msgJoin_nl ?m1 ?m2 = (m, Message_default_nl)"
    by (simp add: msgJoin_nl_def Message_default_nl_def)
  ultimately show "\<exists>m1 m2. msgSplit_nl h m Message_default_nl (word_of_nat n) = Inr (1, h, m1, m2)
      \<and> wf_nl h m1 \<and> wf_nl h m2 \<and> bytes_nl h m1 = take n (bytes_nl h m) \<and> bytes_nl h m2 = drop n (bytes_nl h m)
      \<and> msgJoin_nl m1 m2 = (m, Message_default_nl)"
    using run by blast
  have "(word_of_nat (total ?fs) :: size_t) < word_of_nat k"
    using assms(3,4) w(4) word_less_small [of "total ?fs" k] by simp
  then show "msgSplit_nl h m Message_default_nl (word_of_nat k) = Inr (0, h, m, Message_default_nl)"
    using find_loop_all [of 0 ?fs k] assms(3,4) w(4) by (simp add: msgSplit_nl_def)
qed

theorem nl_split_boundary_witness:
  "\<exists>m1 m2. msgSplit_nl sample_mem sample_nl Message_default_nl 3 = Inr (1, sample_mem, m1, m2)
     \<and> bytes_nl sample_mem m1 = map Some [1, 2, 3] \<and> bytes_nl sample_mem m2 = map Some [4, 5, 6, 7]"
proof -
  have "3 = total (take 1 (fieldList sample_nl))" by (simp add: sample_nl_def)
  from nl_split_boundary [OF sample_nl(1) this, of 8] show ?thesis
    by (fastforce simp: sample_nl(2))
qed

text \<open>A length between two field boundaries: the loop stops behind the field that is cut.\<close>

lemma find_loop_inside:
  assumes "wf_nl h m" "n < total (fieldList m)" "\<forall>i. total (take i (fieldList m)) \<noteq> n"
  obtains it where "0 < it" "it \<le> length (fieldList m)"
    "find_loop (word_of_nat n) 0 (fieldList m) = (word_of_nat (total (take it (fieldList m))), it)"
    "n < total (take it (fieldList m))" "total (take (it - 1) (fieldList m)) < n"
proof -
  have "n < 2 ^ 64" using assms(2) wf_nl_parts(2) [OF assms(1)] by simp
  then obtain it where it: "it \<le> length (fieldList m)"
    "find_loop (word_of_nat n) (word_of_nat 0) (fieldList m) = (word_of_nat (0 + total (take it (fieldList m))), it)"
    "n \<le> total (take it (fieldList m))" "0 < it \<longrightarrow> total (take (it - 1) (fieldList m)) < n"
    using find_loop_spec [of n 0 "fieldList m"] assms(2) wf_nl_parts(2) [OF assms(1)] by auto
  have "total (take it (fieldList m)) \<noteq> n" "total (take 0 (fieldList m)) \<noteq> n"
    using assms(3) by blast+
  with it that [of it] show thesis by (cases it) auto
qed

lemma split_compare:
  assumes "n < found" "found < 2 ^ 31"
  shows "\<not> (word_of_nat found :: size_t) < word_of_nat n" "(word_of_nat n :: size_t) < word_of_nat found"
  using assms word_less_small [of found n] word_less_small [of n found] by simp_all

text \<open>The cut is in the last field.\<close>

lemma split_last:
  assumes "wf_mem h" "wf_nl h m" "fieldList m = gs @ [((b, 0), w)]" "total gs < n" "n < total (fieldList m)"
    and "\<forall>i. total (take i (fieldList m)) \<noteq> n"
  shows "\<exists>h'. msgSplit_nl h m Message_default_nl (word_of_nat n) = Inr (1, h',
      \<lparr>msglen = word_of_nat n, fieldList = ((Suc (brk h), 0), word_of_nat (total (fieldList m) - n)) # tl (fieldList m)\<rparr>,
      \<lparr>msglen = msglen m - word_of_nat n, fieldList = [((brk h, 0), word_of_nat (n - total gs))]\<rparr>)
    \<and> blk h' (brk h) = Some (take (n - total gs) (cells h (b, 0) (unat w)))
    \<and> blk h' (Suc (brk h)) = Some (drop (n - total gs) (cells h (b, 0) (unat w))) \<and> blk h' b = None"
proof -
  let ?fs = "fieldList m"
  obtain it where it: "it \<le> length ?fs" "find_loop (word_of_nat n) 0 ?fs = (word_of_nat (total (take it ?fs)), it)"
    "n < total (take it ?fs)"
    by (rule find_loop_inside [OF assms(2,5,6)])
  have "it = length ?fs"
  proof (rule ccontr)
    assume "it \<noteq> length ?fs"
    then have "total (take it ?fs) \<le> total (take (length gs) ?fs)"
      using it(1) assms(3) by (intro total_take_mono) simp
    then show False using it(3) assms(3,4) by simp
  qed
  then have find: "find_loop (word_of_nat n) 0 ?fs = (word_of_nat (total ?fs), Suc (length gs))"
    using it(2) assms(3) by simp
  obtain k where k: "unat w = k" by blast
  then have wk: "w = word_of_nat k" "total ?fs = total gs + k" using assms(3) by auto
  have t31: "total ?fs < 2 ^ 31" by (rule wf_nl_parts(2) [OF assms(2)])
  obtain a where a: "n = total gs + a" using assms(4) less_imp_add_positive by blast
  obtain r where r: "k = a + r" "0 < r"
    using assms(5) wk(2) a less_imp_add_positive [of a k] by auto
  have ar: "total ?fs - n = r" "n - total gs = a" "a \<le> k" using a r wk(2) by simp_all
  have t31: "total ?fs < 2 ^ 31" by (rule wf_nl_parts(2) [OF assms(2)])
  have s64: "a < 2 ^ 64" "r < 2 ^ 64" using t31 wk(2) r by auto
  have words: "(word_of_nat (total ?fs) :: size_t) - word_of_nat n = word_of_nat r"
    "w - word_of_nat r = word_of_nat a"
    by (simp_all add: wk a r(1))
  note un = s64 [THEN unat_word_of_nat_small] uint_small [OF s64(1)]
  have rd: "readable h (b, 0) k" using wf_nl_parts(1) [OF assms(2)] assms(3) k by simp
  have b: "b < brk h" using wf_mem_readable [OF assms(1) rd] by simp
  let ?c = "cells h (b, 0) k"
  have c: "length ?c = k" using rd by simp
  let ?h1 = "put (undef_cells r) (put (undef_cells a) h)"
  let ?h2 = "?h1\<lparr>blk := (blk ?h1)(brk h \<mapsto> take a ?c)\<rparr>"
  let ?h3 = "?h2\<lparr>blk := (blk ?h2)(Suc (brk h) \<mapsto> drop a ?c)\<rparr>"
  have m1: "memcpy ?h1 (brk h, 0) (b, 0) (word_of_nat a) = Inr ?h2"
  proof -
    have "readable ?h1 (b, 0) a = readable h (b, 0) a" "cells ?h1 (b, 0) a = cells h (b, 0) a"
      using b by (simp_all add: readable_def cells_def blk_put)
    then have "readable ?h1 (b, 0) a" "cells ?h1 (b, 0) a = take a ?c"
      using readable_le [OF rd ar(3)] cells_take_le [OF ar(3)] by simp_all
    then show ?thesis
      using memcpy_store [of ?h1 "(b, 0)" "word_of_nat a" "(brk h, 0)"] un(1) b c ar(3)
      by (simp add: store_def blk_put)
  qed
  have m2: "memcpy ?h2 (Suc (brk h), 0) (b, a) (word_of_nat r) = Inr ?h3"
  proof -
    have "k - a = r" using r by simp
    moreover have "readable ?h2 (b, a) r = readable h (b, a) r" "cells ?h2 (b, a) r = cells h (b, a) r"
      using b by (simp_all add: readable_def cells_def blk_put)
    ultimately have "readable ?h2 (b, a) r" "cells ?h2 (b, a) r = drop a ?c"
      using readable_off [OF rd ar(3)] cells_drop [of h b 0 a k] by simp_all
    then show ?thesis
      using memcpy_store [of ?h2 "(b, a)" "word_of_nat r" "(Suc (brk h), 0)"] un(2) b c r
      by (simp add: store_def blk_put)
  qed
  have off: "ptr_off (b, 0) (int a) = Inr (b, a)" by (simp add: ptr_off_def)
  have fr: "free (b, 0) ?h3 = Inr (?h3\<lparr>blk := (blk ?h3)(b := None)\<rparr>)"
    using rd b by (auto simp: free_def blk_put readable_def split: option.splits)
  have "msgSplit_nl h m Message_default_nl (word_of_nat n) = Inr (1, ?h3\<lparr>blk := (blk ?h3)(b := None)\<rparr>,
      \<lparr>msglen = word_of_nat n, fieldList = ((Suc (brk h), 0), word_of_nat r) # tl ?fs\<rparr>,
      \<lparr>msglen = msglen m - word_of_nat n, fieldList = [((brk h, 0), word_of_nat a)]\<rparr>)"
    using split_compare [OF assms(5) t31] assms(3) find words un m1 m2 off fr ar
    by (simp add: msgSplit_nl_def Let_def alloc_put Message_default_nl_def nth_append del: of_nat_diff)
  then show ?thesis using b k ar by auto
qed

text \<open>Splitting inside a field does not work in \<open>newLibs/message.cpp\<close>: if the field is not the last
  one, an iterator is moved out of its list. If it is the last one, the second message gets the
  head of this field, although it should get the tail, and the array of the field, which the
  library was only lent, is deleted; a message of one field keeps the tail, that is, the two
  messages are swapped, and a longer one still refers to the deleted array.\<close>

theorem nl_split_inside:
  assumes "wf_mem h" "wf_nl h m" "fieldList m = gs @ [((b, 0), w)]" "n < total (fieldList m)"
    and "\<forall>i. total (take i (fieldList m)) \<noteq> n"
  shows "if n < total gs then msgSplit_nl h m Message_default_nl (word_of_nat n) = Inl BadIterator
    else \<exists>h' m1 m2. msgSplit_nl h m Message_default_nl (word_of_nat n) = Inr (1, h', m1, m2)
      \<and> bytes_nl h' m2 = drop (total gs) (take n (bytes_nl h m)) \<and> blk h' b = None
      \<and> (if gs = [] then bytes_nl h' m1 = drop n (bytes_nl h m) else \<not> wf_nl h' m1)"
proof (cases "n < total gs")
  case True
  obtain it where it: "0 < it" "it \<le> length (fieldList m)"
    "find_loop (word_of_nat n) 0 (fieldList m) = (word_of_nat (total (take it (fieldList m))), it)"
    "n < total (take it (fieldList m))" "total (take (it - 1) (fieldList m)) < n"
    by (rule find_loop_inside [OF assms(2,4,5)])
  have "it < length (fieldList m)"
  proof (rule ccontr)
    assume "\<not> it < length (fieldList m)"
    then have "it - 1 = length gs" using it(2) assms(3) by simp
    then show False using it(5) True assms(3) by simp
  qed
  moreover have "total (take it (fieldList m)) < 2 ^ 31"
    using total_take_drop [of it "fieldList m"] wf_nl_parts(2) [OF assms(2)] by simp
  ultimately show ?thesis
    using it(3) split_compare [OF it(4)] True by (simp add: msgSplit_nl_def Let_def)
next
  case False
  have "total gs \<noteq> n" using assms(3) spec [OF assms(5), of "length gs"] by simp
  then have n: "total gs < n" using False by simp
  let ?c = "cells h (b, 0) (unat w)" and ?a = "n - total gs" and ?r = "total (fieldList m) - n"
  let ?m1 = "\<lparr>msglen = word_of_nat n, fieldList = ((Suc (brk h), 0), word_of_nat ?r) # tl (fieldList m)\<rparr>"
  let ?m2 = "\<lparr>msglen = msglen m - word_of_nat n, fieldList = [((brk h, 0), word_of_nat ?a)]\<rparr>"
  obtain h' where h': "msgSplit_nl h m Message_default_nl (word_of_nat n) = Inr (1, h', ?m1, ?m2)"
    "blk h' (brk h) = Some (take ?a ?c)" "blk h' (Suc (brk h)) = Some (drop ?a ?c)" "blk h' b = None"
    using split_last [OF assms(1-3) n assms(4,5)] by blast
  note w = wf_nl_parts [OF assms(2)]
  have rd: "readable h (b, 0) (unat w)" using w(1) assms(3) by simp
  have len: "length ?c = unat w" "?a \<le> unat w" "?a < 2 ^ 64" "?r < 2 ^ 64" "unat w - ?a = ?r"
    using rd n assms(3,4) w(2) by auto
  note un = len(3,4) [THEN unat_word_of_nat_small]
  have bytes: "bytes_nl h m = content h gs @ ?c" "length (content h gs) = total gs"
    using w(1,5) assms(3) by (simp_all add: frag_cells_def length_content)
  have "bytes_nl h' ?m2 = drop (total gs) (take n (bytes_nl h m))"
    using h'(2) un(1) len(1,2) bytes n
    by (simp add: bytes_nl_def msg_bytes_def as_msg_def frag_cells_def cells_def del: of_nat_diff)
  moreover have "if gs = [] then bytes_nl h' ?m1 = drop n (bytes_nl h m) else \<not> wf_nl h' ?m1"
  proof (cases gs)
    case Nil
    then show ?thesis
      using h'(3) un(2) len(1,5) bytes assms(3)
      by (simp add: bytes_nl_def msg_bytes_def as_msg_def frag_cells_def cells_def del: of_nat_diff)
  next
    case (Cons g gs')
    then have "((b, 0), w) \<in> set (tl (fieldList m))" using assms(3) by simp
    then have "\<not> wf_frags h' (tl (fieldList m))"
      using h'(4) by (force simp: wf_frags_def readable_def)
    then show ?thesis using Cons by (simp add: wf_nl_def wf_msg_def as_msg_def)
  qed
  ultimately show ?thesis using h'(1,4) False by auto
qed

theorem nl_split_inside_witness:
  "msgSplit_nl sample_mem sample_nl Message_default_nl 2 = Inl BadIterator
    \<and> (\<exists>h' m1 m2. msgSplit_nl sample_mem (Message_new_nl (1, 0) 4) Message_default_nl 1 = Inr (1, h', m1, m2)
      \<and> bytes_nl h' m2 = map Some [4] \<and> bytes_nl h' m1 = map Some [5, 6, 7] \<and> blk h' 1 = None)"
proof
  have s: "fieldList sample_nl = [((0, 0), 3)] @ [((1, 0), 4)]" by (simp add: sample_nl_def)
  have "\<forall>i. total (take i (fieldList sample_nl)) \<noteq> 2"
    by (auto simp: sample_nl_def take_Cons' )
  from nl_split_inside [OF sample_msg(1) sample_nl(1) s _ this]
  show "msgSplit_nl sample_mem sample_nl Message_default_nl 2 = Inl BadIterator"
    by (simp add: sample_nl_def)
  define m where "m = Message_new_nl (1, 0) 4"
  have m: "wf_nl sample_mem m" "bytes_nl sample_mem m = map Some [4, 5, 6, 7]" "fieldList m = [] @ [((1, 0), 4)]"
    by (simp_all add: m_def nl_defs as_msg_def Message_new_nl_def wf_msg_def msg_bytes_def frag_cells_def
        sample_mem_def readable_def cells_def blk_put empty_mem_def)
  have "\<forall>i. total (take i (fieldList m)) \<noteq> 1" by (auto simp: m(3) take_Cons')
  from nl_split_inside [OF sample_msg(1) m(1,3) _ this]
  show "\<exists>h' m1 m2. msgSplit_nl sample_mem (Message_new_nl (1, 0) 4) Message_default_nl 1 = Inr (1, h', m1, m2)
      \<and> bytes_nl h' m2 = map Some [4] \<and> bytes_nl h' m1 = map Some [5, 6, 7] \<and> blk h' 1 = None"
    unfolding m_def [symmetric] by (auto simp: m(2,3))
qed

section \<open>Where the two libraries agree\<close>

text \<open>Apart from stripping and splitting, \<open>newLibs/message.cpp\<close> and \<open>ourLibs/Message.h\<close> are the
  same library: construction, pushing a header, joining and the length have the same results, and
  flattening a well-formed message has the same effect on memory, faults included.\<close>

theorem nl_agrees:
  assumes "wf_nl h m"
  shows "as_msg (Message_new_nl p n) = Message_new p n \<and> as_msg (msgAddHdr_nl m p n) = msgAddHdr (as_msg m) p n
    \<and> map_prod as_msg as_msg (msgJoin_nl m m2) = msgJoin (as_msg m) (as_msg m2)
    \<and> msgLen_nl m = msgLen (as_msg m) \<and> msgFlat_nl h m buf = msgFlat h (as_msg m) buf"
  using msgFlat_nl_eq [OF assms]
  by (simp add: prod_eq_iff)

theorem nl_agrees_witness:
  "msgFlat_nl sample_mem sample_nl (0, 1) = msgFlat sample_mem (as_msg sample_nl) (0, 1)
     \<and> wf_nl sample_mem sample_nl"
  using nl_agrees [OF sample_nl(1)] sample_nl(1) by simp

end
