(* ===== verification/Printing.thy ===== *)
theory Printing
  imports Memory
begin

text \<open>
  Programs that print: what they have printed is a list of lines, which stays when a fault ends
  them. Filled arrays, and strings as \<open>cout\<close> reads them from memory.
\<close>

type_synonym ('l, 'a) prints = "'l list \<times> 'a res"

fun pbind :: "('l, 'a) prints \<Rightarrow> ('a \<Rightarrow> ('l, 'b) prints) \<Rightarrow> ('l, 'b) prints" where
  "pbind (out, Inl e) f = (out, Inl e)"
| "pbind (out, Inr a) f = (let (out', r) = f a in (out @ out', r))"

definition run :: "'a res \<Rightarrow> ('l, 'a) prints" where
  "run r = ([], r)"

definition say :: "'l \<Rightarrow> ('l, unit) prints" where
  "say l = ([l], Inr ())"

abbreviation letters :: "nat \<Rightarrow> u8 \<Rightarrow> cell list" where
  "letters n c \<equiv> replicate n (Some c)"

text \<open>\<open>new char[n]\<close> and the loop that fills it.\<close>

definition filled :: "u8 \<Rightarrow> nat \<Rightarrow> mem \<Rightarrow> (ptr \<times> mem) res" where
  "filled c n h = (let (b, h) = alloc n h in rbind (fill_chars c n h b 0) (\<lambda>h. Inr (b, h)))"

lemma filled_put: "filled c n h = Inr ((brk h, 0), put (letters n c) h)"
  using fill_chars_put [of 0 n "undef_cells n" c h] by (simp add: filled_def alloc_put)

text \<open>A string goes on to the first zero byte.\<close>

fun until_zero :: "cell list \<Rightarrow> u8 list res" where
  "until_zero [] = Inl OutOfBounds"
| "until_zero (None # cs) = Inl Uninit"
| "until_zero (Some b # cs) = (if b = 0 then Inr [] else rbind (until_zero cs) (\<lambda>bs. Inr (b # bs)))"

definition c_str :: "mem \<Rightarrow> ptr \<Rightarrow> u8 list res" where
  "c_str h p = (case blk h (fst p) of
       None \<Rightarrow> Inl Dangling
     | Some cs \<Rightarrow> if snd p \<le> length cs then until_zero (drop (snd p) cs) else Inl OutOfBounds)"

lemma until_zero_letters: "0 \<notin> set bs \<Longrightarrow> until_zero (map Some bs @ Some 0 # cs) = Inr bs"
  by (induction bs) simp_all

lemma until_zero_end: "0 \<notin> set bs \<Longrightarrow> until_zero (map Some bs @ cs) = rbind (until_zero cs) (\<lambda>cs. Inr (bs @ cs))"
  by (induction bs) (simp_all add: rbind_assoc)

end
