(* ===== verification/MessageDriver.thy ===== *)
theory MessageDriver
  imports NewMessage Printing
begin

text \<open>
  \<open>newLibs/driver3.cc\<close>: a scenario over the operations of a message library, here for any of them
  (record \<open>msg_ops\<close>), run on both libraries of the repository. What the driver prints is a list of
  lines; a fault ends it, and the lines printed before stay. The driver prints arrays it has not
  terminated, so what it prints depends on what a new array holds (\<open>fresh\<close>).
\<close>

section \<open>The driver\<close>

datatype line =
    Length size_t          \<comment> \<open>a message length\<close>
  | Text "u8 list"         \<comment> \<open>the array of a flattened message, as a string\<close>
  | Stripped "u8 list"     \<comment> \<open>a stripped header, as a string\<close>

record 'm msg_ops =
  op_new :: "ptr \<Rightarrow> size_t \<Rightarrow> 'm"
  op_default :: 'm
  op_add :: "'m \<Rightarrow> ptr \<Rightarrow> size_t \<Rightarrow> 'm"
  op_strip :: "mem \<Rightarrow> 'm \<Rightarrow> i32 \<Rightarrow> (ptr option \<times> mem \<times> 'm) res"
  op_split :: "mem \<Rightarrow> 'm \<Rightarrow> 'm \<Rightarrow> size_t \<Rightarrow> (int \<times> mem \<times> 'm \<times> 'm) res"
  op_join :: "'m \<Rightarrow> 'm \<Rightarrow> 'm \<times> 'm"
  op_len :: "'m \<Rightarrow> size_t"
  op_flat :: "mem \<Rightarrow> 'm \<Rightarrow> ptr \<Rightarrow> mem res"

definition ops_nl :: "Message_nl msg_ops" where
  "ops_nl = \<lparr>op_new = Message_new_nl, op_default = Message_default_nl, op_add = msgAddHdr_nl,
     op_strip = msgStripHdr_nl, op_split = msgSplit_nl, op_join = msgJoin_nl, op_len = msgLen_nl,
     op_flat = msgFlat_nl\<rparr>"

definition ops_ours :: "Message msg_ops" where
  "ops_ours = \<lparr>op_new = Message_new, op_default = Message_default, op_add = msgAddHdr,
     op_strip = msgStripHdr, op_split = msgSplit, op_join = msgJoin, op_len = msgLen,
     op_flat = msgFlat\<rparr>"

text \<open>What the array of a block and size holds before it is written: nothing that may be read, as the
  language says, or zeros, as memory fresh from the system does.\<close>

type_synonym fresh = "nat \<Rightarrow> nat \<Rightarrow> cell list"

definition undefined_memory :: fresh where
  "undefined_memory b n = undef_cells n"

definition zeroed_memory :: fresh where
  "zeroed_memory b n = replicate n (Some 0)"

definition new_array :: "fresh \<Rightarrow> nat \<Rightarrow> mem \<Rightarrow> ptr \<times> mem" where
  "new_array g n h = ((brk h, 0), put (g (brk h) n) h)"

text \<open>A new buffer of \<open>n\<close> bytes, the message flattened into it, a newline behind it, and its output.
  The buffer is not terminated: \<open>cout\<close> goes on behind the newline, to the next zero byte.\<close>

definition print_flat :: "fresh \<Rightarrow> 'm msg_ops \<Rightarrow> 'm \<Rightarrow> nat \<Rightarrow> mem \<Rightarrow> (line, ptr \<times> mem) prints" where
  "print_flat g L m n h = (let (buf, h) = new_array g n h in
     pbind (run (op_flat L h m buf)) (\<lambda>h.
     pbind (run (rbind (ptr_off buf (uint (op_len L m))) (\<lambda>p. store h p [Some 10]))) (\<lambda>h.
     pbind (run (c_str h buf)) (\<lambda>s.
     pbind (say (Text s)) (\<lambda>_. run (Inr (buf, h)))))))"

text \<open>A header is stripped, copied into a buffer of one byte more, terminated and printed.\<close>

definition print_strip :: "'m msg_ops \<Rightarrow> 'm \<Rightarrow> i32 \<Rightarrow> mem \<Rightarrow> (line, 'm \<times> mem) prints" where
  "print_strip L m n h =
     pbind (run (op_strip L h m n)) (\<lambda>(c, h, m). let (cb, h) = alloc (nat (sint n) + 1) h in
     pbind (run (case c of None \<Rightarrow> Inl NullDeref | Some c \<Rightarrow> memcpy h cb c (scast n))) (\<lambda>h.
     pbind (run (store h (fst cb, nat (sint n)) [Some 0])) (\<lambda>h.
     pbind (run (c_str h cb)) (\<lambda>s.
     pbind (say (Stripped s)) (\<lambda>_. run (Inr (m, h)))))))"

definition driver3 :: "fresh \<Rightarrow> 'm msg_ops \<Rightarrow> mem \<Rightarrow> (line, mem) prints" where
  "driver3 g L h =
     pbind (run (filled 97 100 h)) (\<lambda>(b1, h).
     pbind (run (filled 104 5 h)) (\<lambda>(h1, h).
     pbind (run (filled 107 4 h)) (\<lambda>(h2, h).
     pbind (run (filled 109 24 h)) (\<lambda>(h3, h).
     let m = op_add L (op_add L (op_add L (op_new L b1 100) h1 5) h2 4) h3 24 in
     pbind (say (Length (op_len L m))) (\<lambda>_.
     pbind (print_flat g L m 140 h) (\<lambda>(buf, h).
     pbind (run (op_split L h m (op_default L) 50)) (\<lambda>(r, h, m, m2).
     pbind (say (Length (op_len L m))) (\<lambda>_.
     pbind (print_flat g L m 140 h) (\<lambda>(bufx, h).
     pbind (say (Length (op_len L m2))) (\<lambda>_.
     pbind (print_flat g L m2 140 h) (\<lambda>(bufy, h).
     let m1 = op_new L buf 133 in
     pbind (print_strip L m1 24 h) (\<lambda>(m1, h).
     pbind (print_strip L m1 4 h) (\<lambda>(m1, h).
     pbind (print_strip L m1 5 h) (\<lambda>(m1, h).
     pbind (print_flat g L m1 140 h) (\<lambda>(buf1, h).
     let (m1, m2) = op_join L m1 m2 in
     pbind (print_flat g L m1 400 h) (\<lambda>(bufz, h).
     let (m, m1) = op_join L m m1 in
     pbind (say (Length (op_len L m))) (\<lambda>_.
     pbind (print_flat g L m 500 h) (\<lambda>(bufa, h).
     run (Inr h)))))))))))))))))))"

section \<open>Its parts\<close>

text \<open>Up to the output: the bytes of the message with a newline at its length, and the rest of the array.\<close>

lemma print_flat_eq:
  assumes "op_flat L (put (g (brk h) n) h) m (brk h, 0) = Inr (put (map Some bs @ drop (length bs) (g (brk h) n)) h)"
    and "op_len L m = word_of_nat k" "k \<le> length bs" "length bs + 1 < n" "n < 2 ^ 64" "length (g (brk h) n) = n"
  defines "cs \<equiv> map Some (take k bs) @ Some 10 # drop (k + 1) (map Some bs @ drop (length bs) (g (brk h) n))"
  shows "print_flat g L m n h = pbind (run (until_zero cs)) (\<lambda>s. pbind (say (Text s)) (\<lambda>_. run (Inr ((brk h, 0), put cs h))))"
proof -
  let ?cs = "map Some bs @ drop (length bs) (g (brk h) n)"
  have k: "unat (word_of_nat k :: size_t) = k" using assms by (intro unat_word_of_nat_small) simp
  then have u: "uint (word_of_nat k :: size_t) = int k" by (metis uint_nat)
  have "store (put ?cs h) (brk h, k) [Some 10] = Inr (put cs h)"
    using assms(3,4,6) store_put [of k "[Some 10]" ?cs h] by (simp add: cs_def take_map)
  moreover have "c_str (put cs h) (brk h, 0) = until_zero cs" by (simp add: c_str_def)
  ultimately show ?thesis
    using assms(1) by (simp add: print_flat_def new_array_def run_def assms(2) u ptr_off_def)
qed

lemma print_zeroed:
  assumes "op_flat L (put (replicate n (Some 0)) h) m (brk h, 0) = Inr (put (map Some bs @ replicate (n - length bs) (Some 0)) h)"
    and "op_len L m = word_of_nat k" "k \<le> length bs" "length bs + 1 < n" "n < 2 ^ 64" "0 \<notin> set bs"
  obtains cs where "print_flat zeroed_memory L m n h = ([Text (take k bs @ 10 # drop (k + 1) bs)], Inr ((brk h, 0),
      put (map Some (take k bs) @ Some 10 # cs) h))"
proof -
  let ?r = "drop (k + 1) (map Some bs @ replicate (n - length bs) (Some 0))"
  obtain j where j: "?r = map Some (drop (k + 1) bs) @ Some 0 # replicate j (Some 0)"
  proof (cases "k = length bs")
    case True
    have "n - length bs - 1 = Suc (n - length bs - 2)" using assms(4) by simp
    then show thesis using that [of "n - length bs - 2"] True by simp
  next
    case False
    have "n - length bs = Suc (n - length bs - 1)" using assms(4) by simp
    then have "?r = map Some (drop (k + 1) bs) @ Some 0 # replicate (n - length bs - 1) (Some 0)"
      using False assms(3) by (metis Suc_eq_plus1 Suc_leI diff_is_0_eq' drop_0 drop_append drop_map le_neq_implies_less length_map replicate_Suc)
    then show thesis by (rule that)
  qed
  have "0 \<notin> set (take k bs @ 10 # drop (k + 1) bs)"
    using assms(6) by (auto dest: in_set_takeD in_set_dropD)
  from until_zero_letters [OF this, of "replicate j (Some 0)"]
  have "until_zero (map Some (take k bs) @ Some 10 # ?r) = Inr (take k bs @ 10 # drop (k + 1) bs)"
    unfolding j by simp
  then show thesis
    using print_flat_eq [of L zeroed_memory h n m bs k] assms(1-5)
    by (intro that [of ?r]) (simp add: zeroed_memory_def run_def say_def)
qed

lemma print_undefined:
  assumes "op_flat L (put (undef_cells n) h) m (brk h, 0) = Inr (put (map Some bs @ undef_cells (n - length bs)) h)"
    and "op_len L m = word_of_nat (length bs)" "length bs + 1 < n" "n < 2 ^ 64" "0 \<notin> set bs"
  shows "print_flat undefined_memory L m n h = ([], Inl Uninit)"
proof -
  let ?r = "drop (length bs + 1) (map Some bs @ undef_cells (n - length bs))"
  have "n - length bs - 1 = Suc (n - length bs - 2)" using assms(3) by simp
  then have r: "?r = None # undef_cells (n - length bs - 2)" by simp
  have "0 \<notin> set (bs @ [10])" using assms(5) by simp
  from until_zero_end [OF this, of ?r]
  have "until_zero (map Some bs @ Some 10 # ?r) = Inl Uninit" unfolding r by simp
  then show ?thesis
    using print_flat_eq [of L undefined_memory h n m bs "length bs"] assms(1-4)
    by (simp add: undefined_memory_def run_def)
qed

definition driver_mem :: "mem \<Rightarrow> mem" where
  "driver_mem h = put (letters 24 109) (put (letters 4 107) (put (letters 5 104) (put (letters 100 97) h)))"

definition driver_bytes :: "u8 list" where
  "driver_bytes = replicate 24 109 @ replicate 4 107 @ replicate 5 104 @ replicate 100 97"

abbreviation driver_text :: "cell list" where
  "driver_text \<equiv> map Some driver_bytes"

lemma driver_bytes: "length driver_bytes = 133" "0 \<notin> set driver_bytes"
  by (simp_all add: driver_bytes_def)

text \<open>With a library that keeps the contract, a message is printed as its bytes.\<close>

context message_store
begin

lemma print_message:
  assumes L: "op_flat L = flat" "op_len L = len" and h: "wf_mem h" "wf h m" "bytes h m = map Some bs"
    and n: "length bs + 1 < n" "n < 2 ^ 64" "0 \<notin> set bs"
  shows "print_flat undefined_memory L m n h = ([], Inl Uninit)"
    and "\<exists>cs. print_flat zeroed_memory L m n h = ([Text (bs @ [10])], Inr ((brk h, 0), put (map Some bs @ Some 10 # cs) h))"
proof -
  have l: "op_len L m = word_of_nat (length bs)" using len [OF h(2)] by (simp add: L h(3))
  have "op_flat L (put (undef_cells n) h) m (brk h, 0) = Inr (put (map Some bs @ undef_cells (n - length bs)) h)"
    using flat_new [OF h(1,2), of n] n(1) by (simp add: L h(3))
  then show "print_flat undefined_memory L m n h = ([], Inl Uninit)" using l n by (rule print_undefined)
  have f: "op_flat L (put (replicate n (Some 0)) h) m (brk h, 0) = Inr (put (map Some bs @ replicate (n - length bs) (Some 0)) h)"
    using flat_block [OF h(1,2), of "replicate n (Some 0)"] n(1) by (simp add: L h(3))
  show "\<exists>cs. print_flat zeroed_memory L m n h = ([Text (bs @ [10])], Inr ((brk h, 0), put (map Some bs @ Some 10 # cs) h))"
    by (rule print_zeroed [OF f l order_refl n]) auto
qed

text \<open>The message the driver builds: three headers on a text.\<close>

lemma build_message:
  assumes "wf_mem h"
  defines "m \<equiv> add (add (add (create (brk h, 0) 100) (Suc (brk h), 0) 5) (Suc (Suc (brk h)), 0) 4)
      (Suc (Suc (Suc (brk h))), 0) 24"
  shows "wf (driver_mem h) m" "bytes (driver_mem h) m = driver_text"
proof -
  let ?h0 = "put (letters 100 97) h"
  let ?h1 = "put (letters 5 104) ?h0" let ?h2 = "put (letters 4 107) ?h1"
  have c: "wf ?h0 (create (brk h, 0) 100)" "bytes ?h0 (create (brk h, 0) 100) = letters 100 97"
    using create [of ?h0 "(brk h, 0)" 100] by (simp_all add: readable_def cells_def)
  have w: "wf_mem ?h0" "wf_mem ?h1" "wf_mem ?h2" using assms(1) by simp_all
  note p1 = push [OF w(1) c(1), of "letters 5 104", unfolded c(2), simplified]
  note p2 = push [OF w(2) p1(1), of "letters 4 107", unfolded p1(2), simplified]
  note p3 = push [OF w(3) p2(1), of "letters 24 109", unfolded p2(2), simplified]
  show "wf (driver_mem h) m" "bytes (driver_mem h) m = driver_text"
    using p3(1,2) by (simp_all add: m_def driver_mem_def driver_bytes_def)
qed

end

lemma driver_mem_simps [simp]: "wf_mem h \<Longrightarrow> wf_mem (driver_mem h)" "brk (driver_mem h) = brk h + 4"
  by (simp_all add: driver_mem_def)

lemma brk_empty [simp]: "brk empty_mem = 0"
  by (simp add: empty_mem_def)

lemma driver_heap: "wf_mem (driver_mem empty_mem)"
  by simp

text \<open>Up to the first output.\<close>

lemma driver3_start:
  defines "m \<equiv> \<lambda>L. op_add L (op_add L (op_add L (op_new L (0, 0) 100) (1, 0) 5) (2, 0) 4) (3, 0) 24"
  shows "pbind (run (filled 97 100 empty_mem)) (\<lambda>(b1, h). pbind (run (filled 104 5 h)) (\<lambda>(h1, h).
     pbind (run (filled 107 4 h)) (\<lambda>(h2, h). pbind (run (filled 109 24 h)) (\<lambda>(h3, h). f b1 h1 h2 h3 h))))
   = f (0, 0) (1, 0) (2, 0) (3, 0) (driver_mem empty_mem)"
  by (cases "f (0, 0) (1, 0) (2, 0) (3, 0) (driver_mem empty_mem)")
    (simp add: filled_put run_def driver_mem_def empty_mem_def eval_nat_numeral)

section \<open>With newLibs/message.cpp\<close>

lemma ops_nl [simp]:
  "op_flat ops_nl = msgFlat_nl" "op_len ops_nl = msgLen_nl" "op_new ops_nl = Message_new_nl"
  "op_add ops_nl = msgAddHdr_nl" "op_default ops_nl = Message_default_nl" "op_split ops_nl = msgSplit_nl"
  by (simp_all add: ops_nl_def)

definition driver_nl :: Message_nl where
  "driver_nl = \<lparr>msglen = 133, fieldList = [((3, 0), 24), ((2, 0), 4), ((1, 0), 5), ((0, 0), 100)]\<rparr>"

lemma driver_nl: "wf_nl (driver_mem empty_mem) driver_nl" "bytes_nl (driver_mem empty_mem) driver_nl = driver_text"
proof -
  have "driver_nl = msgAddHdr_nl (msgAddHdr_nl (msgAddHdr_nl (Message_new_nl (0, 0) 100) (1, 0) 5) (2, 0) 4) (3, 0) 24"
    by (simp add: driver_nl_def msgAddHdr_nl_def Message_new_nl_def)
  then show "wf_nl (driver_mem empty_mem) driver_nl" "bytes_nl (driver_mem empty_mem) driver_nl = driver_text"
    using nl.build_message [of empty_mem] by (simp_all add: empty_mem_def wf_mem_def eval_nat_numeral)
qed

text \<open>The split at 50 leaves the deleted field of the text in the first message.\<close>

lemma split_nl:
  assumes h: "blk h 0 = Some (letters 100 97)" "brk h = 5"
  obtains h' where "msgSplit_nl h driver_nl Message_default_nl 50 = Inr (1, h',
      \<lparr>msglen = 50, fieldList = [((6, 0), 83), ((2, 0), 4), ((1, 0), 5), ((0, 0), 100)]\<rparr>,
      \<lparr>msglen = 83, fieldList = [((5, 0), 17)]\<rparr>)"
    "blk h' 0 = None" "blk h' 6 = Some (letters 83 97)" "blk h' 1 = blk h 1" "blk h' 2 = blk h 2" "brk h' = 7"
proof -
  have "find_loop 50 0 (fieldList driver_nl) = (133, 4)" by (simp add: driver_nl_def)
  then show thesis using h that
    by (simp add: msgSplit_nl_def driver_nl_def Message_default_nl_def alloc_def memcpy_def load_def store_def
      overlaps_def ptr_off_def free_def)
qed

text \<open>Flattening it writes the 83 bytes of the copy and the two headers it should have lost, and
  then reads the deleted field.\<close>

lemma flat_nl_dangling:
  assumes "blk h 0 = None" "blk h 6 = Some (letters 83 97)" "blk h 1 = Some (letters 5 104)"
    "blk h 2 = Some (letters 4 107)" "brk h = 7" "length cs = 140"
  shows "msgFlat_nl (put cs h)
    \<lparr>msglen = 50, fieldList = [((6, 0), 83), ((2, 0), 4), ((1, 0), 5), ((0, 0), 100)]\<rparr> (7, 0) = Inl Dangling"
  using assms by (simp add: msgFlat_nl_def memcpy_def load_def store_def overlaps_def ptr_off_def put_def)

text \<open>\<open>driver3\<close> with the library it is compiled with: its first output reads behind what was written.
  Where that is zero, it prints the message it built, says that 50 bytes are left after the split, and
  then reads memory the library has deleted.\<close>

lemma build_driver_nl:
  "msgAddHdr_nl (msgAddHdr_nl (msgAddHdr_nl (Message_new_nl (0, 0) 100) (1, 0) 5) (2, 0) 4) (3, 0) 24 = driver_nl"
  by (simp add: driver_nl_def msgAddHdr_nl_def Message_new_nl_def)

lemma driver3_newLibs_undefined: "driver3 undefined_memory ops_nl empty_mem = ([Length 133], Inl Uninit)"
proof -
  have "print_flat undefined_memory ops_nl driver_nl 140 (driver_mem empty_mem) = ([], Inl Uninit)"
    using nl.print_message(1) [OF _ _ driver_heap driver_nl, of ops_nl 140] by (simp add: driver_bytes)
  then show ?thesis
    unfolding driver3_def driver3_start using build_driver_nl
    by (simp add: run_def say_def msgLen_nl_def) (simp add: driver_nl_def)
qed

theorem driver3_newLibs:
  "driver3 zeroed_memory ops_nl empty_mem
    = ([Length 133, Text (driver_bytes @ [10]), Length 50], Inl Dangling)"
proof -
  obtain cs where p1: "print_flat zeroed_memory ops_nl driver_nl 140 (driver_mem empty_mem) = ([Text (driver_bytes @ [10])],
      Inr ((4, 0), put (driver_text @ Some 10 # cs) (driver_mem empty_mem)))"
    using nl.print_message(2) [OF _ _ driver_heap driver_nl, of ops_nl 140] by (auto simp: driver_bytes)
  let ?h = "put (driver_text @ Some 10 # cs) (driver_mem empty_mem)"
  have h: "blk ?h 0 = Some (letters 100 97)" "blk ?h 1 = Some (letters 5 104)" "blk ?h 2 = Some (letters 4 107)" "brk ?h = 5"
    by (simp_all add: put_def driver_mem_def empty_mem_def)
  show ?thesis
  proof (rule split_nl [OF h(1,4)])
    fix h' assume s: "msgSplit_nl ?h driver_nl Message_default_nl 50 = Inr (1, h',
        \<lparr>msglen = 50, fieldList = [((6, 0), 83), ((2, 0), 4), ((1, 0), 5), ((0, 0), 100)]\<rparr>,
        \<lparr>msglen = 83, fieldList = [((5, 0), 17)]\<rparr>)"
      and h': "blk h' 0 = None" "blk h' 6 = Some (letters 83 97)" "blk h' 1 = blk ?h 1" "blk h' 2 = blk ?h 2" "brk h' = 7"
    have "print_flat zeroed_memory ops_nl \<lparr>msglen = 50, fieldList = [((6, 0), 83), ((2, 0), 4), ((1, 0), 5), ((0, 0), 100)]\<rparr> 140 h'
        = ([], Inl Dangling)"
      using flat_nl_dangling [of h' "letters 140 0"] h h'
      by (simp add: print_flat_def new_array_def zeroed_memory_def run_def)
    then show ?thesis
      unfolding driver3_def driver3_start using p1 s build_driver_nl
      by (simp add: run_def say_def msgLen_nl_def) (simp add: driver_nl_def)
  qed
qed

section \<open>With ourLibs/Message.h\<close>

lemma ops_ours [simp]:
  "op_flat ops_ours = msgFlat" "op_len ops_ours = msgLen" "op_new ops_ours = Message_new"
  "op_add ops_ours = msgAddHdr" "op_default ops_ours = Message_default" "op_split ops_ours = msgSplit"
  "op_strip ops_ours = msgStripHdr" "op_join ops_ours = msgJoin"
  by (simp_all add: ops_ours_def)

definition driver_ours :: Message where
  "driver_ours = msgAddHdr (msgAddHdr (msgAddHdr (Message_new (0, 0) 100) (1, 0) 5) (2, 0) 4) (3, 0) 24"

lemma driver_ours: "wf_msg (driver_mem empty_mem) driver_ours" "msg_bytes (driver_mem empty_mem) driver_ours = driver_text"
  using msg.build_message [of empty_mem] by (simp_all add: driver_ours_def empty_mem_def wf_mem_def eval_nat_numeral)

text \<open>A message whose length field is too small: the newline falls on one of its bytes, and those
  behind it are printed too.\<close>

lemma print_short:
  assumes "wf_mem h" "wf_frags h (m_MsgContent m)" "m_MsgContent m \<noteq> []" "msg_bytes h m = map Some bs"
    and "m_MsgLen m = word_of_nat k" "k \<le> length bs" "length bs + 1 < n" "n < 2 ^ 31" "0 \<notin> set bs"
  shows "\<exists>cs. print_flat zeroed_memory ops_ours m n h = ([Text (take k bs @ 10 # drop (k + 1) bs)], Inr ((brk h, 0),
      put (map Some (take k bs) @ Some 10 # cs) h))"
proof -
  let ?m = "\<lparr>m_MsgLen = word_of_nat (length bs), m_MsgContent = m_MsgContent m\<rparr>" and ?z = "replicate n (Some 0)"
  have wf: "wf_msg h ?m" "msg_bytes h ?m = map Some bs"
    using assms(2,3,4,7,8) length_content [OF assms(2)] by (simp_all add: wf_msg_def msg_bytes_def)
  have "msgFlat (put ?z h) m (brk h, 0) = msgFlat (put ?z h) ?m (brk h, 0)"
    by (simp add: msgFlat_def)
  then have f: "op_flat ops_ours (put ?z h) m (brk h, 0) = Inr (put (map Some bs @ replicate (n - length bs) (Some 0)) h)"
    using msg.flat_block [OF assms(1) wf(1), of ?z] assms(7) by (simp add: wf(2))
  have l: "op_len ops_ours m = word_of_nat k" using assms(5) by (simp add: msgLen_def)
  have n: "n < 2 ^ 64" using assms(8) by simp
  show ?thesis by (rule print_zeroed [OF f l assms(6,7) n assms(9)]) (rule exI)
qed

lemma print_strip_ours:
  assumes "wf_mem h" "wf_msg h m" "msg_bytes h m = map Some bs" "0 < k \<and> k \<le> length bs" "0 \<notin> set bs"
  obtains h' m' where "print_strip ops_ours m (word_of_nat k) h = ([Stripped (take k bs)], Inr (m', h'))"
    "wf_mem h'" "wf_msg h' m'" "msg_bytes h' m' = map Some (drop k bs)" "mem_ext {} h h'"
proof -
  let ?w = "word_of_nat k :: i32"
  have "k < 2 ^ 31" using assms(3,4) wf_msg_small [OF assms(2)] by simp
  then have k: "sint ?w = int k" "unat (scast ?w :: size_t) = k"
    using scast_int [of ?w k] by (simp_all add: sint_small_word)
  obtain p h1 m1 where s: "msgStripHdr h m ?w = Inr (Some p, h1, m1)" "readable h1 p k"
    "cells h1 p k = take k (map Some bs)" "wf_msg h1 m1" "msg_bytes h1 m1 = drop k (map Some bs)" "wf_mem h1" "mem_ext {} h h1"
    using msgStripHdr_spec [OF assms(1,2) _ _, of ?w, unfolded k(1) nat_int assms(3)] assms(4)
    by (metis length_map of_nat_0_less_iff of_nat_le_iff)
  let ?h2 = "put (undef_cells (k + 1)) h1" and ?bs = "map Some (take k bs)"
  have bs: "length ?bs = k" using assms(4) by simp
  have p: "fst p < brk h1" using wf_mem_readable [OF s(6,2)] .
  have rd: "readable ?h2 p k" "cells ?h2 p k = ?bs"
    using s(2,3) p by (simp_all add: readable_def cells_def blk_put take_map)
  let ?h3 = "put (?bs @ [None]) h1" and ?h4 = "put (?bs @ [Some 0]) h1"
  have "memcpy ?h2 (brk h1, 0) p (scast ?w) = store ?h2 (brk h1, 0) ?bs"
    using memcpy_store [of ?h2 p "scast ?w" "(brk h1, 0)", unfolded k(2), OF rd(1)] p rd(2) by simp
  also have "\<dots> = Inr (put (?bs @ drop k (undef_cells (k + 1))) h1)"
    using store_put [of 0 ?bs "undef_cells (k + 1)" h1] unfolding take_0 append_Nil add_0 bs
    by (simp del: replicate_Suc)
  also have "drop k (undef_cells (k + 1)) = [None]" by (simp del: replicate_Suc) simp
  finally have mc: "memcpy ?h2 (brk h1, 0) p (scast ?w) = Inr ?h3" .
  have st: "store ?h3 (brk h1, k) [Some 0] = Inr ?h4"
    using store_put [of k "[Some 0]" "?bs @ [None]" h1] bs by simp
  have "0 \<notin> set (take k bs)" using assms(5) by (auto dest: in_set_takeD)
  then have ld: "c_str ?h4 (brk h1, 0) = Inr (take k bs)" using until_zero_letters [of "take k bs" "[]"] by (simp add: c_str_def)
  have "print_strip ops_ours m ?w h = ([Stripped (take k bs)], Inr (m1, ?h4))"
    using s(1) mc st ld k by (simp add: print_strip_def run_def say_def alloc_put nat_add_distrib del: replicate_Suc)
  moreover have "wf_msg ?h4 m1" "msg_bytes ?h4 m1 = map Some (drop k bs)"
    using msg.keep [OF mem_ext_put [OF s(6)] s(4)] s(5) by (simp_all add: drop_map)
  moreover have "mem_ext {} h ?h4" by (rule mem_ext_trans [OF s(7) mem_ext_put [OF s(6)]])
  ultimately show thesis using that s(6) by simp
qed

text \<open>\<open>cs\<close>: what the array of the first output holds behind the newline.\<close>

definition driver_heap1 :: "cell list \<Rightarrow> mem" where
  "driver_heap1 cs = put (driver_text @ Some 10 # cs) (driver_mem empty_mem)"

lemma driver_heap1:
  "wf_mem (driver_heap1 cs)" "wf_msg (driver_heap1 cs) driver_ours" "msg_bytes (driver_heap1 cs) driver_ours = driver_text"
  "readable (driver_heap1 cs) (4, 0) 133" "cells (driver_heap1 cs) (4, 0) 133 = driver_text"
proof -
  show "wf_mem (driver_heap1 cs)" by (simp add: driver_heap1_def)
  have "mem_ext {} (driver_mem empty_mem) (driver_heap1 cs)" by (simp add: driver_heap1_def)
  then show "wf_msg (driver_heap1 cs) driver_ours" "msg_bytes (driver_heap1 cs) driver_ours = driver_text"
    using msg.keep [OF _ driver_ours(1)] driver_ours(2) by simp_all
  show "readable (driver_heap1 cs) (4, 0) 133" "cells (driver_heap1 cs) (4, 0) 133 = driver_text"
    by (simp_all add: driver_heap1_def readable_def cells_def put_def driver_bytes)
qed

lemma print_driver_ours:
  "print_flat undefined_memory ops_ours driver_ours 140 (driver_mem empty_mem) = ([], Inl Uninit)"
  "\<exists>cs. print_flat zeroed_memory ops_ours driver_ours 140 (driver_mem empty_mem) = ([Text (driver_bytes @ [10])], Inr ((4, 0), driver_heap1 cs))"
  using msg.print_message [OF _ _ driver_heap driver_ours, of ops_ours 140] by (simp_all add: driver_bytes driver_heap1_def)

text \<open>The split and the output of both parts.\<close>

lemma split_ours:
  obtains r h2 m m2 b h3 b' h4 where
    "msgSplit (driver_heap1 cs) driver_ours Message_default 50 = Inr (r, h2, m, m2)"
    "print_flat zeroed_memory ops_ours m 140 h2 = ([Text (take 50 driver_bytes @ [10])], Inr (b, h3))"
    "print_flat zeroed_memory ops_ours m2 140 h3 = ([Text (replicate 50 97 @ 10 # replicate 32 97)], Inr (b', h4))"
    "wf_mem h4" "mem_ext {} (driver_heap1 cs) h4" "wf_msg h4 m" "msg_bytes h4 m = map Some (take 50 driver_bytes)"
    "wf_frags h4 (m_MsgContent m2)" "msg_bytes h4 m2 = letters 83 97" "m_MsgLen m2 = 50"
proof -
  have c: "m_MsgContent driver_ours = [((3, 0), 24), ((2, 0), 4), ((1, 0), 5), ((0, 0), 100)]"
    by (simp add: driver_ours_def msgAddHdr_def Message_new_def)
  have mv: "moved 50 driver_ours = 33" by (simp add: moved_def c)
  have t: "drop 50 driver_text = letters 83 97" "take 50 driver_text = map Some (take 50 driver_bytes)"
    "length (take 50 driver_bytes) = 50" "0 \<notin> set (take 50 driver_bytes)"
    by (simp_all add: driver_bytes_def)
  obtain h2 m m2 where s: "msgSplit (driver_heap1 cs) driver_ours Message_default 50 = Inr (1, h2, m, m2)"
    "wf_mem h2" "mem_ext {} (driver_heap1 cs) h2" "wf_msg h2 m" "msg_bytes h2 m = map Some (take 50 driver_bytes)"
    "wf_frags h2 (m_MsgContent m2)" "msg_bytes h2 m2 = letters 83 97" "m_MsgLen m2 = word_of_nat 50"
    using msgSplit_parts [OF driver_heap1(1,2), of 50 cs Message_default] c driver_heap1(3) [of cs] mv t
    by (auto simp: driver_bytes)
  have ne: "m_MsgContent m2 \<noteq> []" using s(7) by (auto simp: msg_bytes_def)
  obtain ds where p2: "print_flat zeroed_memory ops_ours m 140 h2 = ([Text (take 50 driver_bytes @ [10])],
      Inr ((brk h2, 0), put (map Some (take 50 driver_bytes) @ Some 10 # ds) h2))"
    using msg.print_message(2) [OF _ _ s(2,4,5), of ops_ours 140] t(3,4) by auto
  let ?h3 = "put (map Some (take 50 driver_bytes) @ Some 10 # ds) h2"
  have h3: "wf_mem ?h3" "mem_ext {} h2 ?h3" using s(2) by simp_all
  have m2: "wf_frags ?h3 (m_MsgContent m2)" "msg_bytes ?h3 m2 = map Some (replicate 83 97)"
    using frags_ext [OF h3(2) s(6)] s(7) by (simp_all add: msg_bytes_def)
  obtain es where p3: "print_flat zeroed_memory ops_ours m2 140 ?h3 = ([Text (replicate 50 97 @ 10 # replicate 32 97)],
      Inr ((brk ?h3, 0), put es ?h3))"
    using print_short [OF h3(1) m2(1) ne m2(2) s(8), of 140] by auto
  let ?h4 = "put es ?h3"
  have h4: "wf_mem ?h4" "mem_ext {} ?h3 ?h4" using h3 by simp_all
  have e: "mem_ext {} h2 ?h4" by (rule mem_ext_trans [OF h3(2) h4(2)])
  show thesis
    using msg.keep [OF e s(4)] frags_ext [OF h4(2) m2(1)] s(5,8) m2(2)
    by (intro that [OF s(1) p2 p3 h4(1) mem_ext_trans [OF s(3) e]]) (simp_all add: msg_bytes_def)
qed

text \<open>The three headers come off the copy.\<close>

lemma strips_ours:
  assumes "wf_mem h4" "wf_msg h4 n" "msg_bytes h4 n = driver_text"
  obtains n1 h5 n2 h6 n3 h7 b h8 where
    "print_strip ops_ours n 24 h4 = ([Stripped (replicate 24 109)], Inr (n1, h5))"
    "print_strip ops_ours n1 4 h5 = ([Stripped (replicate 4 107)], Inr (n2, h6))"
    "print_strip ops_ours n2 5 h6 = ([Stripped (replicate 5 104)], Inr (n3, h7))"
    "print_flat zeroed_memory ops_ours n3 140 h7 = ([Text (replicate 100 97 @ [10])], Inr (b, h8))"
    "wf_mem h8" "mem_ext {} h4 h8" "wf_msg h8 n3" "msg_bytes h8 n3 = letters 100 97"
proof -
  let ?t2 = "replicate 5 104 @ replicate 100 (97::u8)" let ?t1 = "replicate 4 107 @ ?t2"
  have d: "drop 24 driver_bytes = ?t1" "drop 4 ?t1 = ?t2" "drop 5 ?t2 = replicate 100 97"
    "take 24 driver_bytes = replicate 24 109" "take 4 ?t1 = replicate 4 107" "take 5 ?t2 = replicate 5 104"
    by (simp_all add: driver_bytes_def)
  have k: "0 < (24::nat) \<and> 24 \<le> length driver_bytes" "0 < (4::nat) \<and> 4 \<le> length ?t1" "0 < (5::nat) \<and> 5 \<le> length ?t2"
    by (simp_all add: driver_bytes)
  have z: "0 \<notin> set ?t1" "0 \<notin> set ?t2" by simp_all
  obtain h5 n1 where s4: "print_strip ops_ours n (word_of_nat 24) h4 = ([Stripped (replicate 24 109)], Inr (n1, h5))"
    "wf_mem h5" "wf_msg h5 n1" "msg_bytes h5 n1 = map Some ?t1" "mem_ext {} h4 h5"
    by (rule print_strip_ours [OF assms k(1) driver_bytes(2), unfolded d(1,4)])
  obtain h6 n2 where s5: "print_strip ops_ours n1 (word_of_nat 4) h5 = ([Stripped (replicate 4 107)], Inr (n2, h6))"
    "wf_mem h6" "wf_msg h6 n2" "msg_bytes h6 n2 = map Some ?t2" "mem_ext {} h5 h6"
    by (rule print_strip_ours [OF s4(2-4) k(2) z(1), unfolded d(2,5)])
  obtain h7 n3 where s6: "print_strip ops_ours n2 (word_of_nat 5) h6 = ([Stripped (replicate 5 104)], Inr (n3, h7))"
    "wf_mem h7" "wf_msg h7 n3" "msg_bytes h7 n3 = map Some (replicate 100 97)" "mem_ext {} h6 h7"
    by (rule print_strip_ours [OF s5(2-4) k(3) z(2), unfolded d(3,6)])
  obtain ds where p: "print_flat zeroed_memory ops_ours n3 140 h7 = ([Text (replicate 100 97 @ [10])], Inr ((brk h7, 0), put ds h7))"
    using msg.print_message(2) [OF _ _ s6(2,3,4), of ops_ours 140] by auto
  let ?h8 = "put ds h7"
  have e: "mem_ext {} h7 ?h8" using s6(2) by simp
  have "mem_ext {} h4 ?h8"
    by (rule mem_ext_trans [OF mem_ext_trans [OF mem_ext_trans [OF s4(5) s5(5)] s6(5)] e])
  then show thesis
    using s4(1) s5(1) s6(1,2) msg.keep [OF e s6(3)] s6(4) by (intro that [OF _ _ _ p]) simp_all
qed

text \<open>The joins: the lengths add up to too little.\<close>

lemma joins_ours:
  assumes "wf_mem h8" "wf_msg h8 m" "msg_bytes h8 m = map Some (take 50 driver_bytes)" "wf_msg h8 n" "msg_bytes h8 n = letters 100 97"
    and m2: "wf_frags h8 (m_MsgContent m2)" "msg_bytes h8 m2 = letters 83 97" "m_MsgLen m2 = 50"
  obtains j j' k k' b h9 b' h10 where "msgJoin n m2 = (j, j')" "msgJoin m j = (k, k')" "msgLen k = 200"
    "print_flat zeroed_memory ops_ours j 400 h8 = ([Text (replicate 150 97 @ 10 # replicate 32 97)], Inr (b, h9))"
    "print_flat zeroed_memory ops_ours k 500 h9
      = ([Text (take 50 driver_bytes @ replicate 150 97 @ 10 # replicate 32 97)], Inr (b', h10))"
proof -
  let ?j = "fst (msgJoin n m2)" and ?k = "fst (msgJoin m (fst (msgJoin n m2)))"
  have t: "length (take 50 driver_bytes) = 50" "0 \<notin> set (take 50 driver_bytes)" by (simp_all add: driver_bytes_def)
  have j: "m_MsgLen ?j = word_of_nat 150" "m_MsgContent ?j = m_MsgContent n @ m_MsgContent m2"
    using wf_msg_MsgLen [OF assms(4)] assms(5) m2(3) by (simp_all add: msgJoin_def join_loop_eq)
  have k: "m_MsgLen ?k = word_of_nat 200" "m_MsgContent ?k = m_MsgContent m @ m_MsgContent ?j"
    using wf_msg_MsgLen [OF assms(2)] assms(3) j(1) t(1)
    by (simp_all add: msgJoin_def join_loop_eq)
  have "letters 100 97 @ letters 83 97 = letters 183 97" by (simp add: replicate_add [symmetric])
  then have jw: "wf_frags h8 (m_MsgContent ?j)" "msg_bytes h8 ?j = map Some (replicate 183 97)" "m_MsgContent ?j \<noteq> []"
    using assms(4,5) m2 by (auto simp: j(2) wf_msg_def msg_bytes_def)
  obtain ds where p8: "print_flat zeroed_memory ops_ours ?j 400 h8
      = ([Text (replicate 150 97 @ 10 # replicate 32 97)], Inr ((brk h8, 0), put ds h8))"
    using print_short [OF assms(1) jw(1,3,2) j(1), of 400] by auto
  let ?h9 = "put ds h8" and ?t = "take 50 driver_bytes @ replicate 183 97"
  have h9: "wf_mem ?h9" "mem_ext {} h8 ?h9" using assms(1) by simp_all
  have kw: "wf_frags ?h9 (m_MsgContent ?k)" "msg_bytes ?h9 ?k = map Some ?t" "m_MsgContent ?k \<noteq> []"
    using msg.keep [OF h9(2) assms(2)] assms(3) frags_ext [OF h9(2) jw(1)] jw(2,3)
    by (simp_all add: k(2) wf_msg_def msg_bytes_def)
  have "length ?t = 233" "0 \<notin> set ?t" "take 200 ?t = take 50 driver_bytes @ replicate 150 97" "drop 201 ?t = replicate 32 97"
    using t by (simp_all add: take_append drop_append)
  then obtain h10 where "print_flat zeroed_memory ops_ours ?k 500 ?h9
      = ([Text (take 50 driver_bytes @ replicate 150 97 @ 10 # replicate 32 97)], Inr ((brk ?h9, 0), h10))"
    using print_short [OF h9(1) kw(1,3,2) k(1), of 500] by auto
  with p8 k(1) show thesis
    by (intro that [of ?j "snd (msgJoin n m2)" ?k "snd (msgJoin m ?j)"]) (simp_all add: msgLen_def)
qed

lemma msgLen_driver: "wf_msg h m \<Longrightarrow> msg_bytes h m = map Some bs \<Longrightarrow> msgLen m = word_of_nat (length bs)"
  using wf_msg_MsgLen [of h m] by (simp add: msgLen_def)

lemma driver3_ourLibs_undefined: "driver3 undefined_memory ops_ours empty_mem = ([Length 133], Inl Uninit)"
  unfolding driver3_def driver3_start
  using driver_ours_def [symmetric] print_driver_ours(1) msgLen_driver [OF driver_ours]
  by (simp add: run_def say_def driver_bytes)

text \<open>The same driver on the library of the project, where a new array holds zeros, runs to its end.
  The length of the second message after the split, and with it every total behind it, is too small by
  the 33 bytes that were moved whole, and each newline overwrites a byte of the text.\<close>

theorem driver3_ourLibs:
  "\<exists>h. driver3 zeroed_memory ops_ours empty_mem = ([Length 133, Text (driver_bytes @ [10]),
      Length 50, Text (take 50 driver_bytes @ [10]),
      Length 50, Text (replicate 50 97 @ 10 # replicate 32 97),
      Stripped (replicate 24 109), Stripped (replicate 4 107), Stripped (replicate 5 104),
      Text (replicate 100 97 @ [10]), Text (replicate 150 97 @ 10 # replicate 32 97),
      Length 200, Text (take 50 driver_bytes @ replicate 150 97 @ 10 # replicate 32 97)], Inr h)"
proof -
  obtain cs where p1: "print_flat zeroed_memory ops_ours driver_ours 140 (driver_mem empty_mem)
      = ([Text (driver_bytes @ [10])], Inr ((4, 0), driver_heap1 cs))"
    using print_driver_ours(2) by auto
  show ?thesis
  proof (rule split_ours [of cs])
    fix r h2 m m2 b h3 b' h4
    assume s: "msgSplit (driver_heap1 cs) driver_ours Message_default 50 = Inr (r, h2, m, m2)"
      "print_flat zeroed_memory ops_ours m 140 h2 = ([Text (take 50 driver_bytes @ [10])], Inr (b, h3))"
      "print_flat zeroed_memory ops_ours m2 140 h3 = ([Text (replicate 50 97 @ 10 # replicate 32 97)], Inr (b', h4))"
      and h4: "wf_mem h4" "mem_ext {} (driver_heap1 cs) h4" "wf_msg h4 m" "msg_bytes h4 m = map Some (take 50 driver_bytes)"
      "wf_frags h4 (m_MsgContent m2)" "msg_bytes h4 m2 = letters 83 97" "m_MsgLen m2 = 50"
    have buf: "readable h4 (4, 0) 133" "cells h4 (4, 0) 133 = driver_text"
      using mem_ext_readable [OF h4(2)] mem_ext_cells [OF h4(2)] driver_heap1(4,5) by simp_all
    have n: "wf_msg h4 (Message_new (4, 0) 133)" "msg_bytes h4 (Message_new (4, 0) 133) = driver_text"
      using msg_new_spec [OF buf(1)] buf(2) by simp_all
    have l: "msgLen driver_ours = 133" "msgLen m = 50" "msgLen m2 = 50"
      using msgLen_driver [OF driver_ours] msgLen_driver [OF h4(3,4)] h4(7)
      by (simp_all add: driver_bytes msgLen_def [of m2])
    show ?thesis
    proof (rule strips_ours [OF h4(1) n])
      fix n1 h5 n2 h6 n3 h7 b h8
      assume st: "print_strip ops_ours (Message_new (4, 0) 133) 24 h4 = ([Stripped (replicate 24 109)], Inr (n1, h5))"
        "print_strip ops_ours n1 4 h5 = ([Stripped (replicate 4 107)], Inr (n2, h6))"
        "print_strip ops_ours n2 5 h6 = ([Stripped (replicate 5 104)], Inr (n3, h7))"
        "print_flat zeroed_memory ops_ours n3 140 h7 = ([Text (replicate 100 97 @ [10])], Inr (b, h8))"
        and h8: "wf_mem h8" "mem_ext {} h4 h8" "wf_msg h8 n3" "msg_bytes h8 n3 = letters 100 97"
      have m: "wf_msg h8 m" "msg_bytes h8 m = map Some (take 50 driver_bytes)"
        "wf_frags h8 (m_MsgContent m2)" "msg_bytes h8 m2 = letters 83 97"
        using msg.keep [OF h8(2) h4(3)] h4(4,6) frags_ext [OF h8(2) h4(5)] by (simp_all add: msg_bytes_def)
      show ?thesis unfolding driver3_def driver3_start
        by (rule joins_ours [OF h8(1) m(1,2) h8(3,4) m(3,4) h4(7)])
          (use driver_ours_def [symmetric] in \<open>simp add: run_def say_def p1 s l st\<close>)
    qed
  qed
qed

text \<open>C36: what \<open>driver3\<close> prints. Its arrays are not terminated: as the language has it, with either
  library its first \<open>cout\<close> of a message already reads a byte that was never written, after the line
  with the length 133. Where a new array holds zeros, as in the recorded run, that output stops behind
  the newline. With the library it is compiled with the driver then prints that 50 bytes are left after
  the split and goes on to read memory that library has deleted (the recorded run printed what was still
  there). With the library the project uses it runs to its end, but the second message's length after
  the split, and every total behind it, is too small by the 33 bytes that were moved whole, so each
  newline overwrites a byte of the text and the rest comes on a line of its own.\<close>

theorem driver3_output:
  "driver3 undefined_memory ops_nl empty_mem = ([Length 133], Inl Uninit)
   \<and> driver3 undefined_memory ops_ours empty_mem = ([Length 133], Inl Uninit)
   \<and> driver3 zeroed_memory ops_nl empty_mem = ([Length 133, Text (driver_bytes @ [10]), Length 50], Inl Dangling)
   \<and> (\<exists>h. driver3 zeroed_memory ops_ours empty_mem = ([Length 133, Text (driver_bytes @ [10]),
      Length 50, Text (take 50 driver_bytes @ [10]), Length 50, Text (replicate 50 97 @ 10 # replicate 32 97),
      Stripped (replicate 24 109), Stripped (replicate 4 107), Stripped (replicate 5 104),
      Text (replicate 100 97 @ [10]), Text (replicate 150 97 @ 10 # replicate 32 97),
      Length 200, Text (take 50 driver_bytes @ replicate 150 97 @ 10 # replicate 32 97)], Inr h))"
  using driver3_newLibs_undefined driver3_ourLibs_undefined driver3_newLibs driver3_ourLibs by (intro conjI)

end
