(* ===== verification/PerMessageTest.thy ===== *)
theory PerMessageTest
  imports PerMessage Printing
begin

text \<open>
  \<open>PerMessageTest.cc\<close>: its three modes, as the program runs them on the library, the headers and
  the process per message stack.
\<close>

section \<open>The modes\<close>

datatype test_line =
    Header i32 "u8 list" i32    \<comment> \<open>the fields \<open>hlp\<close>, \<open>otherInfo\<close>, \<open>length\<close>, as printed\<close>
  | Content "u8 list"
| InListen | Usage            \<comment> \<open>the other fixed titles are left out\<close>

text \<open>\<open>e->otherInfo\<close> is printed as a string, although it has no terminating zero of its own.\<close>

definition print_header :: "mem \<Rightarrow> ptr \<Rightarrow> (test_line, unit) prints" where
  "print_header h e = pbind (run (rbind (get_hlp h e) (\<lambda>hlp.
     rbind (c_str h (fst e, snd e + off_otherInfo)) (\<lambda>info.
     rbind (get_length ethHeader h e) (\<lambda>len. Inr (Header hlp info len)))))) say"

definition print_content :: "mem \<Rightarrow> ptr \<Rightarrow> (test_line, unit) prints" where
  "print_content h buf = pbind (run (rbind (c_str h buf) (\<lambda>s. Inr (Content s)))) say"

definition eth_test :: "mem \<Rightarrow> (test_line, mem) prints" where
  "eth_test h =
     pbind (run (filled 118 10 h)) (\<lambda>(t, h).
     let mm = Message_new t 10; (e, h) = alloc (sizeof_hdr ethHeader) h in
     pbind (run (set_hlp h e 5)) (\<lambda>h.
     pbind (run (fill_chars 113 8 h (fst e, snd e + off_otherInfo) 0)) (\<lambda>h.
     pbind (run (set_length ethHeader h e (msgLen_int mm))) (\<lambda>h.
     pbind (print_header h e) (\<lambda>_.
     let mm = msgAddHdr mm e (word_of_nat (sizeof_hdr ethHeader)); (buf, h) = alloc 30 h in
     pbind (run (msgFlat h mm buf)) (\<lambda>h.
     pbind (print_content h buf) (\<lambda>_.
     pbind (run (msgStripHdr h mm (word_of_nat (sizeof_hdr ethHeader)))) (\<lambda>(stripped, h, mm).
     pbind (run (memset h buf 0 30)) (\<lambda>h.
     pbind (run (msgFlat h mm buf)) (\<lambda>h.
     pbind (print_content h buf) (\<lambda>_.
     pbind (case stripped of None \<Rightarrow> run (Inl NullDeref) | Some s \<Rightarrow> print_header h s) (\<lambda>_.
     run (Inr h)))))))))))))"

fun send_loop :: "nat \<Rightarrow> os \<Rightarrow> permessage \<Rightarrow> ptr \<Rightarrow> world \<Rightarrow> world res" where
  "send_loop 0 e p2 h1 w = Inr w"
| "send_loop (Suc i) e p2 h1 w =
     rbind (telnetSend e p2 TELNET_ID (Message_new h1 5) w) (\<lambda>(m, w). send_loop i e p2 h1 w)"

definition send_test :: "os \<Rightarrow> world \<Rightarrow> world res" where
  "send_test e w = rbind (PerMessage_new e 45555 44444) (\<lambda>p2.
     rbind (filled 116 5 (hp w)) (\<lambda>(h1, h). send_loop 3 e p2 h1 (w\<lparr>hp := h\<rparr>)))"

text \<open>\<open>main\<close>, for the arguments behind the name of the program. In mode \<open>listen\<close> the instance it
  creates does the rest, while \<open>main\<close> waits in \<open>pause\<close>.\<close>

definition test_main :: "os \<Rightarrow> string list \<Rightarrow> world \<Rightarrow> (test_line, world) prints" where
  "test_main e args w = (case args of
       [] \<Rightarrow> pbind (say Usage) (\<lambda>_. run (Inl (ExitProcess 1)))
     | arg # _ \<Rightarrow>
         if arg = ''listen'' then pbind (say InListen) (\<lambda>_. run (rbind (PerMessage_new e 44444 45555) (\<lambda>p1. Inr w)))
         else if arg = ''send'' then run (send_test e w)
         else if arg = ''ethTest'' then pbind (eth_test (hp w)) (\<lambda>h. run (Inr (w\<lparr>hp := h\<rparr>)))
         else pbind (say Usage) (\<lambda>_. run (Inl (ExitProcess 1))))"

section \<open>What they do\<close>

definition telnet_dg :: "cell list" where
  "telnet_dg = wire fs Telnet (int_cells TELNET_ID) (letters 5 116)"

lemma net_send_upd: "net_send e pm bs (w\<lparr>hp := h\<rparr>) = (net_send e pm bs w)\<lparr>hp := h\<rparr>"
  by (simp add: net_send_def Let_def split: option.splits)

lemma net_sends_upd: "(net_send e pm bs ^^ n) (w\<lparr>hp := h\<rparr>) = ((net_send e pm bs ^^ n) w)\<lparr>hp := h\<rparr>"
  by (induction n) (simp_all add: net_send_upd)

lemma send_loop_spec:
  assumes "wf_mem (hp w)" "readable (hp w) h1 5" "cells (hp w) h1 5 = letters 5 116"
  shows "\<exists>h. send_loop n e pm h1 w = Inr (((net_send e pm telnet_dg ^^ n) w)\<lparr>hp := h\<rparr>)"
  using assms
proof (induction n arbitrary: w)
  case 0
  then show ?case by (intro exI [of _ "hp w"]) simp
next
  case (Suc n)
  have m: "wf_msg (hp w) (Message_new h1 5)" "msg_bytes (hp w) (Message_new h1 5) = letters 5 116"
    using msg_new_spec [OF Suc.prems(2)] Suc.prems(3) by simp_all
  have "length (msg_bytes (hp w) (Message_new h1 5)) + 68 < 2 ^ 31" by (simp add: m(2))
  from app_sendD(1) [OF Suc.prems(1) m(1) this, of Telnet TELNET_ID e pm] obtain m' h' where
    s: "telnetSend e pm TELNET_ID (Message_new h1 5) w = Inr (m', (net_send e pm telnet_dg w)\<lparr>hp := h'\<rparr>)"
    "wf_mem h'" "mem_ext {} (hp w) h'"
    by (auto simp: m(2) telnet_dg_def)
  have "readable h' h1 5" "cells h' h1 5 = letters 5 116"
    using mem_ext_readable [OF s(3)] mem_ext_cells [OF s(3)] Suc.prems(2,3) by simp_all
  then show ?case
    using Suc.IH [of "(net_send e pm telnet_dg w)\<lparr>hp := h'\<rparr>"] s(1,2)
    by (simp add: net_sends_upd funpow_swap1)
qed

text \<open>Without an argument, or with another one, the program ends with its usage line.\<close>

theorem test_usage:
  "test_main e [] w = ([Usage], Inl (ExitProcess 1))
    \<and> (arg \<notin> {''listen'', ''send'', ''ethTest''} \<longrightarrow> test_main e (arg # args) w = ([Usage], Inl (ExitProcess 1)))"
  by (simp add: test_main_def run_def say_def)

text \<open>Mode \<open>ethTest\<close>: the header that was pushed comes back unchanged, and the text with it.\<close>

theorem test_eth:
  "fst (eth_test empty_mem) = [Header 5 (replicate 8 113 @ [10]) 10, Content [5],
     Content (replicate 10 118), Header 5 (replicate 8 113 @ [10]) 10]
   \<and> \<not> isl (snd (eth_test empty_mem))"
  by code_simp

text \<open>mode \<open>send\<close> sends three datagrams, each of which a receiver delivers to Telnet with its text.\<close>

theorem test_send:
  assumes "wf_mem (hp w)" "PerMessage_new e 45555 44444 = Inr pm"
  shows "\<exists>h. test_main e (''send'' # args) w = ([], Inr (((net_send e pm telnet_dg ^^ 3) w)\<lparr>hp := h\<rparr>))
    \<and> recv_eth telnet_dg = Inr ([], Some (Telnet, letters 5 116))"
proof -
  let ?h = "put (letters 5 116) (hp w)"
  have "wf_mem (hp (w\<lparr>hp := ?h\<rparr>))" "readable (hp (w\<lparr>hp := ?h\<rparr>)) (brk (hp w), 0) 5"
    "cells (hp (w\<lparr>hp := ?h\<rparr>)) (brk (hp w), 0) 5 = letters 5 116"
    using assms(1) by (simp_all add: readable_def cells_def)
  from send_loop_spec [OF this, of 3 e pm] obtain h where
    "send_loop 3 e pm (brk (hp w), 0) (w\<lparr>hp := ?h\<rparr>) = Inr (((net_send e pm telnet_dg ^^ 3) w)\<lparr>hp := h\<rparr>)"
    by (auto simp: net_sends_upd)
  moreover have "recv_eth telnet_dg = Inr ([], Some (Telnet, letters 5 116))"
    unfolding telnet_dg_def by (rule recv_eth_wire) simp_all
  ultimately show ?thesis
    by (intro exI [of _ h]) (simp add: test_main_def send_test_def assms(2) filled_put run_def)
qed

theorem test_send_witness:
  "\<exists>w'. test_main sample_os [''send''] sample_world = ([], Inr w')
     \<and> sent w' = replicate 3 (\<lparr>sin_port = htons 44444, sin_addr = 16777343\<rparr>, telnet_dg)"
proof -
  have "wf_mem (hp sample_world)" using sample_msg(1) by simp
  moreover have "PerMessage_new sample_os 45555 44444
      = Inr \<lparr>threads = ThreadPool_new 25, inUdpPort = 45555, destUdpPort = 44444, mySock = 3\<rparr>"
    by (simp add: PerMessage_new_def udpSocket_def sample_os_def)
  ultimately obtain h where h: "test_main sample_os [''send''] sample_world
      = ([], Inr (((net_send sample_os \<lparr>threads = ThreadPool_new 25, inUdpPort = 45555, destUdpPort = 44444, mySock = 3\<rparr>
          telnet_dg ^^ 3) sample_world)\<lparr>hp := h\<rparr>))"
    using test_send [of sample_world sample_os _ "[]"] by blast
  show ?thesis
    unfolding h by (simp add: numeral_3_eq_3 net_send_def Let_def sample_os_def)
qed

end
