(* ===== verification/TwoHosts.thy ===== *)
theory TwoHosts
  imports Runs Printing
begin

text \<open>
  Two hosts of \<open>PerProtocol.h\<close> connected to each other, as \<open>PerProtocol_test.cpp\<close> sets them up: the
  datagrams one has sent may arrive at the other, in any order, at most once each, or get lost.
\<close>

section \<open>The pair\<close>

datatype side = A | B

fun peer :: "side \<Rightarrow> side" where
  "peer A = B" | "peer B = A"

record two =
  hosts :: "side \<Rightarrow> host"
  arrived :: "side \<Rightarrow> cell list multiset"   \<comment> \<open>the datagrams that have come to a host\<close>

definition datagrams_of :: "host \<Rightarrow> cell list multiset" where
  "datagrams_of h = image_mset snd (mset (sent h))"

definition in_flight :: "two \<Rightarrow> side \<Rightarrow> cell list multiset" where
  "in_flight s x = datagrams_of (hosts s (peer x)) - arrived s x"

text \<open>A step of either host; a datagram arrives only when the other host has sent it.\<close>

inductive two_step :: "(side \<Rightarrow> link) \<Rightarrow> two \<Rightarrow> side \<times> label \<Rightarrow> two res \<Rightarrow> bool" for c where
  own: "(\<And>dg. l \<noteq> Arrive dg) \<Longrightarrow> host_step (c x) (hosts s x) l r \<Longrightarrow>
    two_step c s (x, l) (map_sum id (\<lambda>t. s\<lparr>hosts := (hosts s)(x := t)\<rparr>) r)"
| arrive: "dg \<in># in_flight s x \<Longrightarrow> host_step (c x) (hosts s x) (Arrive (Some dg)) r \<Longrightarrow>
    two_step c s (x, Arrive (Some dg)) (map_sum id (\<lambda>t. s\<lparr>hosts := (hosts s)(x := t),
      arrived := (arrived s)(x := add_mset dg (arrived s x))\<rparr>) r)"

inductive two_run :: "(side \<Rightarrow> link) \<Rightarrow> two \<Rightarrow> (side \<times> label) list \<Rightarrow> two res \<Rightarrow> bool" for c where
  stop: "two_run c s [] (Inr s)"
| fault: "two_step c s l (Inl e) \<Longrightarrow> two_run c s [l] (Inl e)"
| step: "two_step c s l (Inr t) \<Longrightarrow> two_run c t ls r \<Longrightarrow> two_run c s (l # ls) r"

section \<open>What is submitted\<close>

definition app_of :: "i32 \<Rightarrow> app" where
  "app_of i = (if i = FTP_ID then FTP else if i = TELNET_ID then Telnet else if i = RDP_ID then RDP else DNS)"

fun submission :: "side \<Rightarrow> side \<times> label \<Rightarrow> (app \<times> cell list) multiset" where
  "submission x (y, Submit bs i) = (if x = y then {# (app_of i, bs) #} else {#})"
| "submission x (y, l) = {#}"

definition submitted :: "side \<Rightarrow> (side \<times> label) list \<Rightarrow> (app \<times> cell list) multiset" where
  "submitted x ls = (\<Sum>l\<leftarrow>ls. submission x l)"

text \<open>A submission for one of the applications that fits a datagram; no failed \<open>recvfrom\<close>.\<close>

fun fitting :: "label \<Rightarrow> bool" where
  "fitting (Work p) = True"
| "fitting (Arrive dg) = (dg \<noteq> None)"
| "fitting (Submit bs i) = (i \<in> {FTP_ID, TELNET_ID, RDP_ID, DNS_ID}
     \<and> length (wire (undef_cells 8) (app_of i) (undef_cells 4) bs) \<le> 1024)"

definition wired :: "app \<times> cell list \<Rightarrow> cell list" where
  "wired = (\<lambda>(a, bs). wire (undef_cells 8) a (undef_cells 4) bs)"

text \<open>\<open>sendto\<close> does not fail.\<close>

definition links_up :: "(side \<Rightarrow> link) \<Rightarrow> bool" where
  "links_up c \<longleftrightarrow> (\<forall>x dg. 0 \<le> os_sendto (os_env (c x)) (upd_sock (c x)) (servaddr (c x)) dg)"

lemma fitting_proper: "fitting l \<Longrightarrow> proper l"
  by (cases l) (auto simp: length_wire app_of_def split: if_splits)

lemma submit_fitting:
  assumes "links_up c" "fitting (Submit bs i)"
  shows "submit_fate (c x) i bs = Inr (Sent (servaddr (c x)) (wired (app_of i, bs)))"
proof -
  have i: "i = app_id (app_of i)" using assms(2) by (auto simp: app_of_def)
  have "\<not> os_sendto (os_env (c x)) (upd_sock (c x)) (servaddr (c x)) dg < 0" for dg
    using assms(1) by (simp add: links_up_def not_less)
  then have "fate (c x) (send_pipe (app_of i)) i bs = Inr (Sent (servaddr (c x)) (wired (app_of i, bs)))"
    using assms(2) unfolding fate_down by (simp add: sent_fate_def wired_def)
  then show ?thesis using assms(2) by (auto simp: app_of_def)
qed

lemma fate_wired:
  assumes "length (wired e) \<le> 1024"
  shows "fate c eth_recv_pipe 0 (take 1024 (wired e)) = Inr (Got (fst e) (snd e))"
proof -
  obtain a bs where e: "e = (a, bs)" by (cases e)
  then have "length bs < 1024" using assms by (simp add: wired_def length_wire)
  then show ?thesis using assms by (simp add: wired_def fate_up e)
qed

section \<open>The invariant\<close>

text \<open>The outcomes on which both sides of a host's account agree.\<close>

fun is_sent :: "outcome \<Rightarrow> bool" where
  "is_sent (Sent a dg) = True" | "is_sent (Got a bs) = False" | "is_sent (Printed d) = False"

definition promised :: "link \<Rightarrow> (app \<times> cell list) multiset \<Rightarrow> (app \<times> cell list) multiset \<Rightarrow> outcome multiset" where
  "promised c out inn = image_mset (\<lambda>e. Sent (servaddr c) (wired e)) out + image_mset (\<lambda>(a, bs). Got a bs) inn"

text \<open>Every datagram that came is one the other side had submitted, none came twice, and a host
  accounts for what was submitted and what came.\<close>

definition side_ok :: "(side \<Rightarrow> link) \<Rightarrow> (side \<Rightarrow> (app \<times> cell list) multiset) \<Rightarrow> two \<Rightarrow> side \<Rightarrow> bool" where
  "side_ok c sub s x \<longleftrightarrow> (\<forall>e. e \<in># sub x \<longrightarrow> length (wired e) \<le> 1024)
     \<and> arrived s x \<subseteq># datagrams_of (hosts s (peer x))
     \<and> (\<exists>D. arrived s x = image_mset wired D \<and> set_mset D \<subseteq> set_mset (sub (peer x))
         \<and> account (c x) (hosts s x) = image_mset Inr (promised (c x) (sub x) D))"

definition pair_inv :: "(side \<Rightarrow> link) \<Rightarrow> (side \<Rightarrow> (app \<times> cell list) multiset) \<Rightarrow> two \<Rightarrow> bool" where
  "pair_inv c sub s \<longleftrightarrow> (\<forall>x. side_ok c sub s x)"

fun sent_bytes :: "outcome \<Rightarrow> cell list" where
  "sent_bytes (Sent a dg) = dg" | "sent_bytes x = []"

fun got_pair :: "outcome \<Rightarrow> app \<times> cell list" where
  "got_pair (Got a bs) = (a, bs)" | "got_pair x = (FTP, [])"

lemma filter_all: "(\<And>x. P (f x)) \<Longrightarrow> filter_mset P (image_mset f M) = image_mset f M"
  by (induction M) simp_all

lemma filter_none: "(\<And>x. \<not> P (f x)) \<Longrightarrow> filter_mset P (image_mset f M) = {#}"
  by (induction M) simp_all

lemma outcomes_promised:
  assumes "account c h = image_mset Inr (promised c out inn)"
  shows "outcomes h \<subseteq># promised c out inn" "Inl e \<notin># account c h"
    "datagrams_of h \<subseteq># image_mset wired out" "mset (taken h) \<subseteq># inn" "diags h = []"
proof -
  let ?P = "promised c out inn"
  have "image_mset projr (account c h) = image_mset projr (image_mset Inr ?P :: outcome res multiset)" by (simp only: assms)
  then have "outcomes h + image_mset projr (image_mset (unit_fate c h) (units h)) = ?P"
    by (simp add: account_def image_mset.compositionality comp_def)
  then show sub: "outcomes h \<subseteq># ?P" by (metis mset_subset_eq_add_left)
  show "Inl e \<notin># account c h" unfolding assms by auto
  have sent: "filter_mset is_sent (outcomes h) = image_mset (\<lambda>(a, bs). Sent a bs) (mset (sent h))"
    "filter_mset is_sent ?P = image_mset (\<lambda>e. Sent (servaddr c) (wired e)) out"
    by (simp_all add: outcomes_def promised_def filter_all filter_none case_prod_beta)
  have "image_mset sent_bytes (filter_mset is_sent (outcomes h)) \<subseteq># image_mset sent_bytes (filter_mset is_sent ?P)"
    by (intro image_mset_subseteq_mono multiset_filter_mono sub)
  then show "datagrams_of h \<subseteq># image_mset wired out"
    unfolding sent by (simp add: datagrams_of_def image_mset.compositionality comp_def case_prod_beta)
  have got: "filter_mset is_got (outcomes h) = image_mset (\<lambda>(a, bs). Got a bs) (mset (taken h))"
    "filter_mset is_got ?P = image_mset (\<lambda>(a, bs). Got a bs) inn"
    by (simp_all add: outcomes_def promised_def filter_all filter_none case_prod_beta)
  have "image_mset got_pair (filter_mset is_got (outcomes h)) \<subseteq># image_mset got_pair (filter_mset is_got ?P)"
    by (intro image_mset_subseteq_mono multiset_filter_mono sub)
  then show "mset (taken h) \<subseteq># inn"
    unfolding got by (simp add: image_mset.compositionality comp_def case_prod_beta)
  have "Printed d \<notin># ?P" for d by (auto simp: promised_def)
  then have "Printed d \<notin># outcomes h" for d using mset_subset_eqD [OF sub] by blast
  then show "diags h = []" by (cases "diags h") (auto simp: outcomes_def)
qed

text \<open>With nothing left in the pipes they agree on all.\<close>

lemma outcomes_all:
  assumes "account c h = image_mset Inr (promised c out inn)" "quiet h"
  shows "datagrams_of h = image_mset wired out" "mset (taken h) = inn"
proof -
  have "image_mset projr (image_mset Inr (outcomes h) :: outcome res multiset)
    = image_mset projr (image_mset Inr (promised c out inn) :: outcome res multiset)"
    by (simp only: quiet_account [OF assms(2)] flip: assms(1))
  then have all: "outcomes h = promised c out inn" by (simp add: image_mset.compositionality comp_def)
  have "image_mset sent_bytes (filter_mset is_sent (outcomes h)) = image_mset sent_bytes (filter_mset is_sent (promised c out inn))"
    by (simp only: all)
  then show "datagrams_of h = image_mset wired out"
    by (simp add: datagrams_of_def outcomes_def promised_def filter_all filter_none image_mset.compositionality comp_def
      case_prod_beta)
  have "image_mset got_pair (filter_mset is_got (outcomes h)) = image_mset got_pair (filter_mset is_got (promised c out inn))"
    by (simp only: all)
  then show "mset (taken h) = inn"
    by (simp add: outcomes_def promised_def filter_all filter_none image_mset.compositionality comp_def case_prod_beta)
qed

lemma side_mono:
  assumes "side_ok c sub s y" "hosts t y = hosts s y" "arrived t y = arrived s y" "sub' y = sub y"
    and "datagrams_of (hosts s (peer y)) \<subseteq># datagrams_of (hosts t (peer y))"
    and "set_mset (sub (peer y)) \<subseteq> set_mset (sub' (peer y))"
  shows "side_ok c sub' t y"
  using assms subset_mset.order_trans unfolding side_ok_def by (metis (no_types, lifting) order_trans)

text \<open>Hosts only ever add to what they have sent.\<close>

lemma host_step_sent:
  assumes "host_step c s l (Inr t)"
  shows "datagrams_of s \<subseteq># datagrams_of t"
proof -
  have "\<exists>ds. sent t = sent s @ ds"
    using assms
  proof (cases rule: host_step.cases)
    case (work p u us)
    then have "thread c p u (s\<lparr>pipe := (pipe s)(p := us)\<rparr>) = Inr t" by simp
    then show ?thesis
      by (cases p) (auto simp: FTP_send_def tel_send_def RDP_send_def DNS_send_def TCP_send_def UDP_send_def
        IP_send_def eth_send_def eth_recv_def IP_recv_def TCP_recv_def UDP_recv_def FTP_recv_def tel_recv_def
        RDP_recv_def DNS_recv_def app_recv_def Let_def res_simps alloc_put write_pipe_def set_msg_def split: if_splits)
  next
    case (arrive dg)
    then have "msg_recv dg s = Inr t" by simp
    then show ?thesis by (auto simp: msg_recv_def Let_def res_simps alloc_put write_pipe_def new_Message_def)
  next
    case (submit p n m s' i)
    then show ?thesis by (auto simp: msg_send_def write_pipe_def new_Message_def)
  qed
  then show ?thesis by (auto simp: datagrams_of_def)
qed

lemma peer_neq [simp]: "peer x \<noteq> x" "x \<noteq> peer x" "peer (peer x) = x"
  by (cases x; simp)+

lemma side_cases: "(y :: side) = x \<or> y = peer x"
  by (cases x; cases y) simp_all

lemma pair_invI: "side_ok c sub s x \<Longrightarrow> side_ok c sub s (peer x) \<Longrightarrow> pair_inv c sub s"
proof -
  assume "side_ok c sub s x" "side_ok c sub s (peer x)"
  then have "side_ok c sub s y" for y using side_cases [of y x] by auto
  then show ?thesis by (simp add: pair_inv_def)
qed

lemma add_subset: "N \<subseteq># M \<Longrightarrow> d \<in># M - N \<Longrightarrow> add_mset d N \<subseteq># M"
  by (metis add_mset_add_single mset_subset_eq_single subset_mset.add_le_cancel_left subset_mset.add_diff_inverse)

lemma two_step_inv:
  assumes inv: "pair_inv c sub s" and up: "links_up c" and l: "fitting l"
    and room: "host_inv (if is_input l then Suc k else k) (hosts s x)" and step: "two_step c s (x, l) r"
  shows "\<exists>t. r = Inr t \<and> pair_inv c (\<lambda>y. sub y + submission y (x, l)) t \<and> host_inv k (hosts t x)
    \<and> hosts t (peer x) = hosts s (peer x)"
  using step
proof (cases rule: two_step.cases)
  case (own r')
  let ?sub = "\<lambda>y. sub y + submission y (x, l)"
  have x: "side_ok c sub s x" and y: "side_ok c sub s (peer x)" using inv by (simp_all add: pair_inv_def)
  obtain D where D: "arrived s x = image_mset wired D" "set_mset D \<subseteq> set_mset (sub (peer x))"
    "account (c x) (hosts s x) = image_mset Inr (promised (c x) (sub x) D)"
    using x by (auto simp: side_ok_def)
  note cases = host_step_cases [OF room own(3) fitting_proper [OF l]]
  obtain t where t: "r' = Inr t" "host_inv k t" "account (c x) t = account (c x) (hosts s x) + input_fate (c x) l"
    using cases outcomes_promised(2) [OF D(3)] by (cases r') auto
  let ?t = "s\<lparr>hosts := (hosts s)(x := t)\<rparr>"
  have mono: "datagrams_of (hosts s x) \<subseteq># datagrams_of t" using host_step_sent own(3) t(1) by simp
  have sub: "submission (peer x) (x, l) = {#}" by (cases l) simp_all
  have new: "input_fate (c x) l = image_mset Inr (image_mset (\<lambda>e. Sent (servaddr (c x)) (wired e)) (submission x (x, l)))"
    "\<forall>e. e \<in># submission x (x, l) \<longrightarrow> length (wired e) \<le> 1024"
    using own(2) submit_fitting [OF up, of _ _ x] l by (cases l; auto simp: wired_def)+
  have "side_ok c ?sub ?t x"
  proof -
    have "account (c x) t = image_mset Inr (promised (c x) (?sub x) D)"
      unfolding t(3) D(3) new(1) promised_def by (simp add: ac_simps)
    moreover have "\<forall>e. e \<in># ?sub x \<longrightarrow> length (wired e) \<le> 1024" "arrived s x \<subseteq># datagrams_of (hosts s (peer x))"
      using x new(2) by (auto simp: side_ok_def)
    ultimately show ?thesis
      using D(1,2) unfolding side_ok_def by (intro conjI exI [of _ D]) (simp_all add: sub)
  qed
  moreover have "side_ok c ?sub ?t (peer x)"
    by (rule side_mono [OF y]) (use mono in \<open>simp_all add: sub\<close>)
  ultimately have "pair_inv c ?sub ?t" by (rule pair_invI)
  then show ?thesis using own(1) t by auto
next
  case (arrive dg r')
  have x: "side_ok c sub s x" and y: "side_ok c sub s (peer x)" using inv by (simp_all add: pair_inv_def)
  obtain D where D: "arrived s x = image_mset wired D" "set_mset D \<subseteq> set_mset (sub (peer x))"
    "account (c x) (hosts s x) = image_mset Inr (promised (c x) (sub x) D)"
    using x by (auto simp: side_ok_def)
  obtain E where "account (c (peer x)) (hosts s (peer x)) = image_mset Inr (promised (c (peer x)) (sub (peer x)) E)"
    using y by (auto simp: side_ok_def)
  then have "datagrams_of (hosts s (peer x)) \<subseteq># image_mset wired (sub (peer x))" by (rule outcomes_promised(3))
  moreover have "dg \<in># datagrams_of (hosts s (peer x))" using arrive(3) by (auto simp: in_flight_def dest: in_diffD)
  ultimately have "dg \<in># image_mset wired (sub (peer x))" by (rule mset_subset_eqD)
  then obtain e where e: "dg = wired e" "e \<in># sub (peer x)" "length (wired e) \<le> 1024"
    using y by (auto simp: side_ok_def)
  note cases = host_step_cases [OF room [unfolded arrive(1)] arrive(4)]
  obtain t where t: "r' = Inr t" "host_inv k t"
    "account (c x) t = add_mset (Inr (Got (fst e) (snd e))) (account (c x) (hosts s x))"
    using cases outcomes_promised(2) [OF D(3)] fate_wired [OF e(3)] by (cases r') (auto simp: e(1))
  let ?t = "s\<lparr>hosts := (hosts s)(x := t), arrived := (arrived s)(x := add_mset dg (arrived s x))\<rparr>"
  have mono: "datagrams_of (hosts s x) \<subseteq># datagrams_of t" using host_step_sent arrive(4) t(1) by simp
  have "side_ok c sub ?t x"
  proof -
    have "account (c x) t = image_mset Inr (promised (c x) (sub x) (add_mset e D))"
      unfolding t(3) D(3) promised_def by (simp add: case_prod_beta)
    moreover have "add_mset dg (arrived s x) \<subseteq># datagrams_of (hosts s (peer x))"
      using arrive(3) x by (intro add_subset) (simp_all add: in_flight_def side_ok_def)
    moreover have "\<forall>e. e \<in># sub x \<longrightarrow> length (wired e) \<le> 1024" using x by (simp add: side_ok_def)
    ultimately show ?thesis
      using D(1,2) e(1,2) unfolding side_ok_def by (intro conjI exI [of _ "add_mset e D"]) simp_all
  qed
  moreover have "side_ok c sub ?t (peer x)"
    by (rule side_mono [OF y]) (use mono in simp_all)
  ultimately have "pair_inv c sub ?t" by (rule pair_invI)
  then show ?thesis using arrive(1,2) t by auto
qed

section \<open>Runs\<close>

definition labels_of :: "side \<Rightarrow> (side \<times> label) list \<Rightarrow> label list" where
  "labels_of x ls = map snd (filter (\<lambda>l. fst l = x) ls)"

lemma labels_of_simps [simp]:
  "labels_of x [] = []" "labels_of x ((y, l) # ls) = (if y = x then l # labels_of x ls else labels_of x ls)"
  by (simp_all add: labels_of_def)

lemma submitted_simps [simp]:
  "submitted x [] = {#}" "submitted x (l # ls) = submission x l + submitted x ls"
  by (simp_all add: submitted_def)

lemma two_run_inv:
  assumes "two_run c s ls r" "pair_inv c sub s" "links_up c" "\<forall>(x, l) \<in> set ls. fitting l"
    and "\<And>x. host_inv (k + inputs (labels_of x ls)) (hosts s x)"
  shows "\<exists>t. r = Inr t \<and> pair_inv c (\<lambda>x. sub x + submitted x ls) t \<and> (\<forall>x. host_inv k (hosts t x))"
  using assms
proof (induction arbitrary: sub rule: two_run.induct)
  case (stop s)
  then show ?case by simp
next
  case (fault s l e)
  obtain x b where l: "l = (x, b)" by (cases l)
  have "host_inv (if is_input b then Suc k else k) (hosts s x)" using fault.prems(4) [of x] by (simp add: l split: if_splits)
  then show ?case using two_step_inv [OF fault.prems(1,2) _ _ fault(1) [unfolded l], of k] fault.prems(3) by (auto simp: l)
next
  case (step s l t ls r)
  obtain x b where l: "l = (x, b)" by (cases l)
  have "host_inv (if is_input b then Suc (k + inputs (labels_of x ls)) else k + inputs (labels_of x ls)) (hosts s x)"
    using step.prems(4) [of x] by (simp add: l split: if_splits)
  with two_step_inv [OF step.prems(1,2) _ _ step(1) [unfolded l], of "k + inputs (labels_of x ls)"] step.prems(3)
  have t: "pair_inv c (\<lambda>y. sub y + submission y l) t" "host_inv (k + inputs (labels_of x ls)) (hosts t x)"
    "hosts t (peer x) = hosts s (peer x)" by (auto simp: l)
  have "host_inv (k + inputs (labels_of y ls)) (hosts t y)" for y
    using side_cases [of y x] t(2,3) step.prems(4) [of y] by (auto simp: l)
  with step.IH [OF t(1) step.prems(2) _ this] step.prems(3) show ?case by (simp add: add.assoc)
qed

text \<open>Two hosts at rest that have not sent or delivered anything yet.\<close>

definition fresh_pair :: "nat \<Rightarrow> two \<Rightarrow> bool" where
  "fresh_pair k s \<longleftrightarrow> (\<forall>x. host_inv k (hosts s x) \<and> quiet (hosts s x) \<and> outcomes (hosts s x) = {#} \<and> arrived s x = {#})"

lemma fresh_inv: "fresh_pair k s \<Longrightarrow> pair_inv c (\<lambda>x. {#}) s"
  by (auto simp: pair_inv_def side_ok_def fresh_pair_def quiet_account promised_def)

text \<open>What the invariant says of the applications.\<close>

definition unwired :: "cell list \<Rightarrow> app \<times> cell list" where
  "unwired d = (case fate undefined eth_recv_pipe 0 (take 1024 d) of Inr (Got a bs) \<Rightarrow> (a, bs) | _ \<Rightarrow> (FTP, []))"

lemma unwired: "\<forall>e. e \<in># M \<longrightarrow> length (wired e) \<le> 1024 \<Longrightarrow> image_mset unwired (image_mset wired M) = M"
proof -
  assume "\<forall>e. e \<in># M \<longrightarrow> length (wired e) \<le> 1024"
  then have "length (wired e) \<le> 1024" if "e \<in># M" for e using that by blast
  then have "unwired (wired e) = e" if "e \<in># M" for e unfolding unwired_def using fate_wired [of e] that by simp
  then have "image_mset (unwired \<circ> wired) M = image_mset id M" by (intro image_mset_cong) simp
  then show ?thesis by (simp add: image_mset.compositionality)
qed

lemma pair_outcome:
  assumes "pair_inv c sub t"
  shows "mset (taken (hosts t x)) \<subseteq># sub (peer x)" "diags (hosts t x) = []"
    "\<forall>y. quiet (hosts t y) \<and> in_flight t y = {#} \<Longrightarrow> mset (taken (hosts t x)) = sub (peer x)"
proof -
  have x: "side_ok c sub t x" and y: "side_ok c sub t (peer x)" using assms by (simp_all add: pair_inv_def)
  obtain D where D: "arrived t x = image_mset wired D" "set_mset D \<subseteq> set_mset (sub (peer x))"
    "account (c x) (hosts t x) = image_mset Inr (promised (c x) (sub x) D)" "arrived t x \<subseteq># datagrams_of (hosts t (peer x))"
    using x by (auto simp: side_ok_def)
  obtain E where E: "account (c (peer x)) (hosts t (peer x)) = image_mset Inr (promised (c (peer x)) (sub (peer x)) E)"
    and short: "\<forall>e. e \<in># sub (peer x) \<longrightarrow> length (wired e) \<le> 1024"
    using y by (auto simp: side_ok_def)
  have shortD: "\<forall>e. e \<in># D \<longrightarrow> length (wired e) \<le> 1024" using short D(2) by blast
  have "image_mset wired D \<subseteq># image_mset wired (sub (peer x))"
    using D(4) outcomes_promised(3) [OF E] unfolding D(1) by (rule subset_mset.order_trans)
  then have "image_mset unwired (image_mset wired D) \<subseteq># image_mset unwired (image_mset wired (sub (peer x)))"
    by (rule image_mset_subseteq_mono)
  then have "D \<subseteq># sub (peer x)" unfolding unwired [OF short] unwired [OF shortD] .
  with outcomes_promised(4) [OF D(3)] show "mset (taken (hosts t x)) \<subseteq># sub (peer x)" by (rule subset_mset.order_trans)
  show "diags (hosts t x) = []" by (rule outcomes_promised(5) [OF D(3)])
  assume rest: "\<forall>y. quiet (hosts t y) \<and> in_flight t y = {#}"
  then have "quiet (hosts t x)" "quiet (hosts t (peer x))" "in_flight t x = {#}" by blast+
  then have "datagrams_of (hosts t (peer x)) \<subseteq># image_mset wired D"
    by (simp add: in_flight_def D(1) Diff_eq_empty_iff_mset)
  with D(4) have "image_mset wired D = datagrams_of (hosts t (peer x))" unfolding D(1) by (rule subset_mset.antisym)
  also have "\<dots> = image_mset wired (sub (peer x))" by (rule outcomes_all(1) [OF E \<open>quiet (hosts t (peer x))\<close>])
  finally have "image_mset unwired (image_mset wired D) = image_mset unwired (image_mset wired (sub (peer x)))" by simp
  then have "D = sub (peer x)" unfolding unwired [OF short] unwired [OF shortD] .
  then show "mset (taken (hosts t x)) = sub (peer x)" using outcomes_all(2) [OF D(3) \<open>quiet (hosts t x)\<close>] by simp
qed

section \<open>Delivery\<close>

lemma pair_account: "pair_inv c sub s \<Longrightarrow> \<exists>D. account (c x) (hosts s x) = image_mset Inr (promised (c x) (sub x) D)"
  unfolding pair_inv_def side_ok_def by blast

text \<open>The threads of a host can run on while the other host waits.\<close>

lemma host_lift:
  assumes "host_run (c x) h ls r" "r = Inr t" "hosts s x = h" "inputs ls = 0"
  shows "two_run c s (map (Pair x) ls) (Inr (s\<lparr>hosts := (hosts s)(x := t)\<rparr>))"
  using assms
proof (induction arbitrary: s rule: host_run.induct)
  case (stop h)
  then show ?case using two_run.stop [of c s] by (simp add: fun_upd_idem)
next
  case (fault h l e)
  then show ?case by simp
next
  case (step h l h' ls r)
  have l: "\<And>dg. l \<noteq> Arrive dg" "inputs ls = 0" using step.prems(3) by (auto split: if_splits)
  have "two_step c s (x, l) (Inr (s\<lparr>hosts := (hosts s)(x := h')\<rparr>))"
    using two_step.own [OF l(1), of c x s "Inr h'"] step(1) step.prems(2) by simp
  moreover have "two_run c (s\<lparr>hosts := (hosts s)(x := h')\<rparr>) (map (Pair x) ls) (Inr (s\<lparr>hosts := (hosts s)(x := t)\<rparr>))"
    using step.IH [OF step.prems(1), of "s\<lparr>hosts := (hosts s)(x := h')\<rparr>"] l(2) by (simp del: fun_upd_apply add: fun_upd_same)
  ultimately show ?case unfolding list.map by (rule two_run.step)
qed

lemma two_run_append:
  assumes "two_run c s ls r" "r = Inr t" "two_run c t ls' r'"
  shows "two_run c s (ls @ ls') r'"
  using assms by (induction rule: two_run.induct) (auto intro: two_run.step)

definition idle :: "(side \<times> label) list \<Rightarrow> bool" where
  "idle ls \<longleftrightarrow> (\<forall>x. submitted x ls = {#}) \<and> (\<forall>(x, l) \<in> set ls. fitting l)"

lemma idle_append [intro]: "idle ls \<Longrightarrow> idle ls' \<Longrightarrow> idle (ls @ ls')"
  by (auto simp: idle_def submitted_def)

lemma works:
  assumes "inputs ls = 0"
  shows "idle (map (Pair x) ls)" "inputs (labels_of y (map (Pair x) ls)) = 0"
proof -
  have "submitted z (map (Pair x) ls) = {#} \<and> (\<forall>l \<in> set ls. fitting l) \<and> inputs (labels_of y (map (Pair x) ls)) = 0" for z
    using assms
  proof (induction ls)
    case (Cons l ls)
    then show ?case by (cases l) auto
  qed simp
  then show "idle (map (Pair x) ls)" "inputs (labels_of y (map (Pair x) ls)) = 0" by (auto simp: idle_def)
qed

lemma pair_drain:
  assumes "pair_inv c sub s" "links_up c" "\<forall>x. host_inv k (hosts s x)"
  shows "\<exists>ls t. two_run c s ls (Inr (s\<lparr>hosts := (hosts s)(x := t)\<rparr>)) \<and> idle ls \<and> quiet t
    \<and> pair_inv c sub (s\<lparr>hosts := (hosts s)(x := t)\<rparr>) \<and> (\<forall>y. host_inv k (((hosts s)(x := t)) y))"
proof -
  have "Inl e \<notin># account (c x) (hosts s x)" for e using pair_account [OF assms(1)] outcomes_promised(2) by blast
  then obtain ls t where run: "host_run (c x) (hosts s x) ls (Inr t)" "inputs ls = 0" "quiet t"
    using host_drains [of k "hosts s x" "c x"] assms(3) by blast
  note lift = host_lift [of c x "hosts s x" ls "Inr t" t s, OF run(1) refl refl run(2)]
  have "host_inv (k + inputs (labels_of y (map (Pair x) ls))) (hosts s y)" for y
    using assms(3) by (simp add: works(2) [OF run(2)])
  with two_run_inv [OF lift assms(1,2) _ this] works(1) [OF run(2), of x]
  have "pair_inv c sub (s\<lparr>hosts := (hosts s)(x := t)\<rparr>)" "\<forall>y. host_inv k (((hosts s)(x := t)) y)"
    by (auto simp: idle_def)
  then show ?thesis using lift works(1) [OF run(2)] run(3) by blast
qed

lemma pair_drains:
  assumes "pair_inv c sub s" "links_up c" "\<forall>x. host_inv k (hosts s x)"
  shows "\<exists>ls t. two_run c s ls (Inr t) \<and> idle ls \<and> pair_inv c sub t \<and> arrived t = arrived s
    \<and> (\<forall>x. host_inv k (hosts t x) \<and> quiet (hosts t x))"
proof -
  obtain ls1 t1 where 1: "two_run c s ls1 (Inr (s\<lparr>hosts := (hosts s)(A := t1)\<rparr>))" "idle ls1" "quiet t1"
    "pair_inv c sub (s\<lparr>hosts := (hosts s)(A := t1)\<rparr>)" "\<forall>y. host_inv k (((hosts s)(A := t1)) y)"
    using pair_drain [OF assms, of A] by blast
  obtain ls2 t2 where 2: "two_run c (s\<lparr>hosts := (hosts s)(A := t1)\<rparr>) ls2 (Inr (s\<lparr>hosts := (hosts s)(A := t1, B := t2)\<rparr>))"
    "idle ls2" "quiet t2" "pair_inv c sub (s\<lparr>hosts := (hosts s)(A := t1, B := t2)\<rparr>)"
    "\<forall>y. host_inv k (((hosts s)(A := t1, B := t2)) y)"
    using pair_drain [OF 1(4) assms(2), of k B] 1(5) by auto
  have "quiet (((hosts s)(A := t1, B := t2)) x)" for x using 1(3) 2(3) by (cases x) simp_all
  with two_run_append [OF 1(1) refl 2(1)] 1(2) 2(2,4,5) show ?thesis
    by (intro exI [of _ "ls1 @ ls2"] exI [of _ "s\<lparr>hosts := (hosts s)(A := t1, B := t2)\<rparr>"]) auto
qed

definition remaining :: "(side \<Rightarrow> (app \<times> cell list) multiset) \<Rightarrow> (side \<Rightarrow> cell list multiset) \<Rightarrow> nat" where
  "remaining sub ar = size (sub A) + size (sub B) - (size (ar A) + size (ar B))"

lemma arrived_bound:
  assumes "pair_inv c sub s"
  shows "datagrams_of (hosts s x) \<subseteq># image_mset wired (sub x)" "size (arrived s x) \<le> size (sub (peer x))"
proof -
  show dg: "datagrams_of (hosts s x) \<subseteq># image_mset wired (sub x)" for x
  proof -
    obtain D where "account (c x) (hosts s x) = image_mset Inr (promised (c x) (sub x) D)"
      using pair_account [OF assms] by blast
    then show ?thesis by (rule outcomes_promised(3))
  qed
  have "arrived s x \<subseteq># image_mset wired (sub (peer x))"
    using assms dg [of "peer x"] by (auto simp: pair_inv_def side_ok_def intro: subset_mset.order_trans)
  from size_mset_mono [OF this] show "size (arrived s x) \<le> size (sub (peer x))" by simp
qed

lemma remaining_arrive:
  assumes "pair_inv c sub s" "dg \<in># in_flight s x"
  shows "remaining sub (arrived s) = Suc (remaining sub ((arrived s)(x := add_mset dg (arrived s x))))"
proof -
  have "arrived s x \<subseteq># datagrams_of (hosts s (peer x))" using assms(1) by (simp add: pair_inv_def side_ok_def)
  from add_subset [OF this] assms(2) arrived_bound(1) [OF assms(1), of "peer x"]
  have "add_mset dg (arrived s x) \<subseteq># image_mset wired (sub (peer x))"
    by (auto simp: in_flight_def intro: subset_mset.order_trans)
  from size_mset_mono [OF this] have "size (arrived s x) < size (sub (peer x))" by simp
  then show ?thesis using arrived_bound(2) [OF assms(1), of "peer x"] by (cases x) (simp_all add: remaining_def)
qed

lemma pair_delivers:
  assumes "pair_inv c sub s" "links_up c" "\<forall>x. host_inv n (hosts s x)" "remaining sub (arrived s) \<le> n"
  shows "\<exists>ls t. two_run c s ls (Inr t) \<and> idle ls \<and> pair_inv c sub t \<and> (\<forall>x. quiet (hosts t x) \<and> in_flight t x = {#})"
  using assms(1,3,4)
proof (induction n arbitrary: s)
  case 0
  then obtain ls t where t: "two_run c s ls (Inr t)" "idle ls" "pair_inv c sub t" "arrived t = arrived s"
    "\<forall>x. quiet (hosts t x)" using pair_drains [OF 0(1) assms(2)] by blast
  have "in_flight t x = {#}" for x
  proof (rule ccontr)
    assume "in_flight t x \<noteq> {#}"
    then obtain dg where "dg \<in># in_flight t x" by (auto dest: multiset_nonemptyE)
    from remaining_arrive [OF t(3) this] 0(3) show False by (simp add: t(4))
  qed
  then show ?case using t by blast
next
  case (Suc n)
  then obtain ls t where t: "two_run c s ls (Inr t)" "idle ls" "pair_inv c sub t" "arrived t = arrived s"
    "\<forall>x. quiet (hosts t x)" "\<forall>x. host_inv (Suc n) (hosts t x)" using pair_drains [OF Suc.prems(1) assms(2)] by blast
  show ?case
  proof (cases "\<forall>x. in_flight t x = {#}")
    case True
    then show ?thesis using t by blast
  next
    case False
    then obtain x dg where dg: "dg \<in># in_flight t x" by (auto dest: multiset_nonemptyE)
    note step = two_step.arrive [OF dg host_step.arrive, of c]
    obtain u where u: "msg_recv (Some dg) (hosts t x) = Inr u"
      using two_step_inv [OF t(3) assms(2) _ _ step, of n] t(6) by (cases "msg_recv (Some dg) (hosts t x)") auto
    let ?t = "t\<lparr>hosts := (hosts t)(x := u), arrived := (arrived t)(x := add_mset dg (arrived t x))\<rparr>"
    have step': "two_step c t (x, Arrive (Some dg)) (Inr ?t)" using step by (simp add: u)
    have "pair_inv c (\<lambda>y. sub y + submission y (x, Arrive (Some dg))) ?t \<and> host_inv n (hosts ?t x)"
      using two_step_inv [OF t(3) assms(2) _ _ step', of n] t(6) by simp
    then have inv: "pair_inv c sub ?t" "host_inv n (hosts ?t x)" by simp_all
    have "host_inv n (hosts ?t y)" for y
      using inv(2) host_inv_mono [of "Suc n" "hosts t y" n] t(6) by (cases "y = x") simp_all
    moreover have "remaining sub (arrived ?t) \<le> n"
      using remaining_arrive [OF t(3) dg] Suc.prems(3) by (simp add: t(4))
    ultimately obtain ls' t' where t': "two_run c ?t ls' (Inr t')" "idle ls'" "pair_inv c sub t'"
      "\<forall>x. quiet (hosts t' x) \<and> in_flight t' x = {#}" using Suc.IH [OF inv(1)] by blast
    have "two_run c s (ls @ (x, Arrive (Some dg)) # ls') (Inr t')"
      by (rule two_run_append [OF t(1) refl two_run.step [OF step' t'(1)]])
    moreover have "idle ((x, Arrive (Some dg)) # ls')" using t'(2) by (simp add: idle_def)
    ultimately show ?thesis using t(2) t'(3,4) by blast
  qed
qed

lemma submitted_size: "size (submitted A ls) + size (submitted B ls) \<le> length ls"
proof (induction ls)
  case (Cons l ls)
  obtain x b where "l = (x, b)" by (cases l)
  then show ?case using Cons by (cases x; cases b) simp_all
qed simp

lemma fresh_room:
  assumes "fresh_pair k s" "j + length ls \<le> k"
  shows "host_inv (j + inputs (labels_of x ls)) (hosts s x)"
proof (rule host_inv_mono)
  show "host_inv k (hosts s x)" using assms(1) by (simp add: fresh_pair_def)
  have "inputs (labels_of x ls) \<le> length (labels_of x ls)" by (simp add: inputs_def)
  also have "\<dots> \<le> length ls" by (simp add: labels_of_def)
  finally show "j + inputs (labels_of x ls) \<le> k" using assms(2) by simp
qed

section \<open>PerProtocol\_test.cpp\<close>

definition test_text :: "cell list" where
  "test_text = map (\<lambda>c. Some (of_char c)) ''This is a test''"

text \<open>The two hosts and their sending threads at start-up; \<open>s x\<close> is the memory the host starts with.\<close>

fun test_ports :: "side \<Rightarrow> string \<times> string" where
  "test_ports A = (''32002'', ''32001'')"
| "test_ports B = (''32001'', ''32002'')"

definition test_host :: "os \<Rightarrow> (nat \<Rightarrow> int) \<Rightarrow> side \<Rightarrow> host \<Rightarrow> (link \<times> host) res" where
  "test_host e create x s = rbind (PerProtocol_new e create (fst (test_ports x)) (snd (test_ports x)) s) (\<lambda>(c, s).
     rbind (eth_send_start e c) (\<lambda>l. Inr (l, s)))"

definition test_start :: "os \<Rightarrow> (nat \<Rightarrow> int) \<Rightarrow> (side \<Rightarrow> host) \<Rightarrow> ((side \<Rightarrow> link) \<times> two) res" where
  "test_start e create s =
     rbind (test_host e create A (s A)) (\<lambda>(la, a).
     rbind (test_host e create B (s B)) (\<lambda>(lb, b).
     Inr (case_side la lb, \<lparr>hosts = case_side a b, arrived = (\<lambda>_. {#})\<rparr>)))"

text \<open>The messages are sent in this order; nothing waits for the threads before \<open>usleep\<close>.\<close>

definition test_sends :: "(side \<times> label) list" where
  "test_sends = [(A, Submit test_text 8), (B, Submit test_text 7), (A, Submit test_text 6), (B, Submit test_text 5)]"

text \<open>\<open>msgFlat\<close> into \<open>char test[1024]\<close>, and the string printed from it.\<close>

definition test_created :: "mem \<Rightarrow> ptr \<Rightarrow> u8 list res" where
  "test_created h literal =
     (let (test, h) = alloc 1024 h in
      rbind (msgFlat h (Message_new literal 14) test) (\<lambda>h. c_str h test))"

definition test_memory :: mem where
  "test_memory = put (test_text @ [Some 0]) empty_mem"

definition blank_host :: host where
  "blank_host = sample_host\<lparr>heap := test_memory\<rparr>"

definition test_link :: "side \<Rightarrow> link" where
  "test_link x = sample_link\<lparr>servaddr := \<lparr>sin_port = htons (case_side 32001 32002 x), sin_addr = 16777343\<rparr>\<rparr>"

definition test_two :: two where
  "test_two = \<lparr>hosts = (\<lambda>_. blank_host), arrived = (\<lambda>_. {#})\<rparr>"

lemma test_starts: "test_start sample_os (\<lambda>_. 0) (\<lambda>_. blank_host) = Inr (test_link, test_two)"
proof -
  have "atoi ''32001'' = Inr 32001" "atoi ''32002'' = Inr 32002" by code_simp+
  moreover have "htons 32001 \<noteq> 0" "htons 32002 \<noteq> 0" by code_simp+
  ultimately have "test_host sample_os (\<lambda>_. 0) x blank_host = Inr (test_link x, blank_host)" for x
    by (cases x) (simp_all add: test_host_def list_all_iff PerProtocol_new_def start_comm_def udpSocket_def eth_send_start_def
      sample_os_def test_link_def sample_link_def blank_host_def sample_host_def)
  moreover have "case_side (f A) (f B) = f" for f :: "side \<Rightarrow> 'a" by (rule ext) (simp split: side.split)
  ultimately show ?thesis by (simp add: test_start_def test_two_def) (simp add: fun_eq_iff split: side.split)
qed

lemma test_fresh: "fresh_pair (2 ^ 20) test_two"
proof -
  have "quiet blank_host" by (simp add: quiet_def blank_host_def sample_host_def)
  then show ?thesis using quiet_units [of blank_host]
    by (simp add: fresh_pair_def test_two_def host_inv_def outcomes_def)
      (simp add: blank_host_def sample_host_def test_memory_def)
qed

lemma test_links: "links_up test_link"
  by (simp add: links_up_def test_link_def sample_link_def sample_os_def)

lemma test_fitting: "\<forall>(x, l) \<in> set test_sends. fitting l"
  by (simp add: test_sends_def length_wire test_text_def app_of_def)

lemma test_submitted: "submitted A test_sends = {# (DNS, test_text), (Telnet, test_text) #}"
  "submitted B test_sends = {# (RDP, test_text), (FTP, test_text) #}"
  by (simp_all add: test_sends_def app_of_def)

lemma submit_text:
  assumes "blk (heap h) 0 = Some (test_text @ [Some 0])"
  shows "\<exists>h'. host_step c h (Submit test_text i) (Inr h') \<and> heap h' = heap h"
proof -
  have rd: "readable (heap h) (0, 0) 14" "cells (heap h) (0, 0) 14 = test_text"
    using assms by (simp_all add: readable_def cells_def test_text_def)
  obtain m h1 where new: "new_Message (0, 0) (word_of_nat 14) h = (m, h1)" by (cases "new_Message (0, 0) (word_of_nat 14) h")
  have "host_step c h (Submit test_text i) (Inr (msg_send m i h1))"
    using host_step.submit [OF rd(1) _ new, of c i] rd(2) by simp
  moreover have "heap (msg_send m i h1) = heap h"
    using new by (auto simp: new_Message_def msg_send_def)
  ultimately show ?thesis by blast
qed

text \<open>The program's four submissions, with no thread scheduled in between.\<close>

lemma test_run:
  assumes "\<forall>x. blk (heap (hosts s x)) 0 = Some (test_text @ [Some 0])" "\<forall>(x, l) \<in> set ls. \<exists>i. l = Submit test_text i"
  shows "\<exists>t. two_run c s ls (Inr t)"
  using assms
proof (induction ls arbitrary: s)
  case Nil
  then show ?case by (auto intro: two_run.stop)
next
  case (Cons l ls)
  then obtain x i where l: "l = (x, Submit test_text i)" by (cases l) auto
  obtain h' where h': "host_step (c x) (hosts s x) (Submit test_text i) (Inr h')" "heap h' = heap (hosts s x)"
    using submit_text Cons.prems(1) by blast
  let ?t = "s\<lparr>hosts := (hosts s)(x := h')\<rparr>"
  have step: "two_step c s l (Inr ?t)" using two_step.own [of "Submit test_text i" c x s "Inr h'"] h'(1) by (simp add: l)
  have "\<forall>y. blk (heap (hosts ?t y)) 0 = Some (test_text @ [Some 0])" using Cons.prems(1) h'(2) by simp
  from Cons.IH [OF this] Cons.prems(2) obtain t where "two_run c ?t ls (Inr t)" by auto
  from two_run.step [OF step this] show ?case by blast
qed

lemma test_runs: "\<exists>t. two_run test_link test_two test_sends (Inr t)"
  by (rule test_run)
    (simp_all add: test_two_def blank_host_def test_memory_def test_sends_def put_def empty_mem_def)

text \<open>The string the test prints first goes on into bytes of the array that were never written.\<close>

theorem test_prints_undefined: "test_created test_memory (0, 0) = Inl Uninit"
  by code_simp

section \<open>Properties\<close>

text \<open>C3: between two hosts nothing is delivered that was not submitted on the other side for the same
  application, and nothing twice, whatever the threads and the network do; no step faults and no
  error is printed; and when both hosts are at rest and nothing is in flight, exactly what was
  submitted has been delivered.\<close>

theorem pp_end_to_end:
  assumes "two_run c s ls r" "links_up c" "fresh_pair k s" "\<forall>(x, l) \<in> set ls. fitting l" "length ls \<le> k"
  shows "\<exists>t. r = Inr t \<and> (\<forall>x. mset (taken (hosts t x)) \<subseteq># submitted (peer x) ls \<and> diags (hosts t x) = []
    \<and> ((\<forall>y. quiet (hosts t y) \<and> in_flight t y = {#}) \<longrightarrow> mset (taken (hosts t x)) = submitted (peer x) ls))"
proof -
  obtain t where t: "r = Inr t" "pair_inv c (\<lambda>x. submitted x ls) t"
    using two_run_inv [OF assms(1) fresh_inv [OF assms(3)] assms(2,4) fresh_room [OF assms(3)], of 0] assms(5) by auto
  have "mset (taken (hosts t x)) \<subseteq># submitted (peer x) ls \<and> diags (hosts t x) = []
    \<and> ((\<forall>y. quiet (hosts t y) \<and> in_flight t y = {#}) \<longrightarrow> mset (taken (hosts t x)) = submitted (peer x) ls)" for x
    using pair_outcome [OF t(2)] by blast
  then show ?thesis using t(1) by blast
qed

theorem pp_end_to_end_witness:
  "\<exists>t. two_run test_link test_two test_sends (Inr t)
     \<and> mset (taken (hosts t B)) \<subseteq># {# (DNS, test_text), (Telnet, test_text) #}
     \<and> mset (taken (hosts t A)) \<subseteq># {# (RDP, test_text), (FTP, test_text) #}"
proof -
  obtain t where run: "two_run test_link test_two test_sends (Inr t)" using test_runs by blast
  have "length test_sends \<le> 2 ^ 20" by (simp add: test_sends_def)
  from pp_end_to_end [OF run test_links test_fresh test_fitting this] have
    "mset (taken (hosts t x)) \<subseteq># submitted (peer x) test_sends" for x by auto
  from this [of A] this [of B] run show ?thesis by (auto simp: test_submitted)
qed

text \<open>C4: everything submitted can be delivered: however a run of two fresh hosts stands, letting
  the threads and the network go on without new submissions can bring both hosts to rest with
  exactly what was submitted on each side delivered on the other, to the same application.\<close>

theorem pp_delivery:
  assumes "two_run c s ls (Inr t)" "links_up c" "fresh_pair k s" "\<forall>(x, l) \<in> set ls. fitting l" "2 * length ls \<le> k"
  shows "\<exists>ls' t'. two_run c t ls' (Inr t') \<and> (\<forall>x. submitted x ls' = {#} \<and> quiet (hosts t' x)
    \<and> mset (taken (hosts t' x)) = submitted (peer x) ls)"
proof -
  let ?sub = "\<lambda>x. submitted x ls"
  have "length ls + length ls \<le> k" using assms(5) by simp
  from two_run_inv [OF assms(1) fresh_inv [OF assms(3)] assms(2,4) fresh_room [OF assms(3) this]]
  have t: "pair_inv c ?sub t" "\<forall>x. host_inv (length ls) (hosts t x)" by auto
  have "remaining ?sub (arrived t) \<le> length ls" using submitted_size [of ls] by (simp add: remaining_def)
  from pair_delivers [OF t(1) assms(2) t(2) this] obtain ls' t' where run: "two_run c t ls' (Inr t')" "idle ls'"
    "pair_inv c ?sub t'" "\<forall>x. quiet (hosts t' x) \<and> in_flight t' x = {#}" by blast
  then show ?thesis using pair_outcome(3) [OF run(3,4)] by (intro exI [of _ ls'] exI [of _ t'] conjI allI) (simp_all add: idle_def)
qed

theorem pp_delivery_witness:
  "\<exists>t ls' t'. two_run test_link test_two test_sends (Inr t) \<and> two_run test_link t ls' (Inr t')
     \<and> mset (taken (hosts t' B)) = {# (DNS, test_text), (Telnet, test_text) #}
     \<and> mset (taken (hosts t' A)) = {# (RDP, test_text), (FTP, test_text) #}"
proof -
  obtain t where run: "two_run test_link test_two test_sends (Inr t)" using test_runs by blast
  have "2 * length test_sends \<le> 2 ^ 20" by (simp add: test_sends_def)
  from pp_delivery [OF run test_links test_fresh test_fitting this] obtain ls' t' where
    t': "two_run test_link t ls' (Inr t')" "\<forall>x. mset (taken (hosts t' x)) = submitted (peer x) test_sends" by blast
  from t'(2) have "mset (taken (hosts t' A)) = submitted B test_sends" "mset (taken (hosts t' B)) = submitted A test_sends"
    by simp_all
  with run t'(1) show ?thesis by (auto simp: test_submitted)
qed

end
