(* ===== verification/PoolDriver.thy ===== *)
theory PoolDriver
  imports ThreadPool
begin

text \<open>
  \<open>newLibs/driver1.cc\<close>: its main thread as a client of the thread pool. Each of 20 numbers is dispatched
  when a thread is available at that moment, and reported otherwise. \<open>sleep\<close> adds nothing to what
  any schedule may do.
\<close>

section \<open>The program\<close>

record d1_state =
  th :: "nat pool"
  next_i :: nat                \<comment> \<open>\<open>i * 4 + j\<close>\<close>
  asked :: bool                \<comment> \<open>\<open>thread_avail\<close> has returned true\<close>
  unavailable :: "nat list"    \<comment> \<open>the numbers reported\<close>
  calls :: "nat list"          \<comment> \<open>the calls of \<open>test_fn\<close>, which prints its argument twice\<close>

definition d1_init :: d1_state where
  "d1_init = \<lparr>th = ThreadPool_new 3, next_i = 0, asked = False, unavailable = [], calls = []\<rparr>"

definition max_elem :: "nat \<Rightarrow> nat" where
  "max_elem k = 100 * k"

text \<open>A worker at the call of its job's function calls \<open>test_fn\<close>.\<close>

fun test_fn :: "nat wpc \<Rightarrow> nat list" where
  "test_fn (Running j) = [j]" | "test_fn l = []"

inductive d1_step :: "d1_state \<Rightarrow> d1_state \<Rightarrow> bool" where
  available: "next_i s < 20 \<Longrightarrow> \<not> asked s \<Longrightarrow> thread_avail (th s) = Some True \<Longrightarrow> d1_step s (s\<lparr>asked := True\<rparr>)"
| report: "next_i s < 20 \<Longrightarrow> \<not> asked s \<Longrightarrow> thread_avail (th s) = Some False \<Longrightarrow>
    d1_step s (s\<lparr>unavailable := unavailable s @ [max_elem (next_i s)], next_i := next_i s + 1\<rparr>)"
| dispatch: "asked s \<Longrightarrow> dispatch_thread (max_elem (next_i s)) w (th s) = Some p \<Longrightarrow>
    d1_step s (s\<lparr>th := p, asked := False, next_i := next_i s + 1\<rparr>)"
| work: "t < threadCount (th s) \<Longrightarrow> worker_step t (th s) = Some p \<Longrightarrow>
    d1_step s (s\<lparr>th := p, calls := calls s @ test_fn (pc (th s) t)\<rparr>)"
| wake: "t \<in> set (waiters (th s)) \<Longrightarrow> d1_step s (s\<lparr>th := goto t Woken (th s)\<rparr>)"
| destruct: "next_i s = 20 \<Longrightarrow> ThreadPool_destroy (th s) = Some p \<Longrightarrow> d1_step s (s\<lparr>th := p\<rparr>)"

definition d1_reach :: "d1_state \<Rightarrow> bool" where
  "d1_reach s \<longleftrightarrow> d1_step\<^sup>*\<^sup>* d1_init s"

section \<open>The invariant\<close>

text \<open>Workers become busy only by taking a job.\<close>

definition d1_inv :: "d1_state \<Rightarrow> bool" where
  "d1_inv s \<longleftrightarrow> pool_reach 3 (th s) \<and> next_i s \<le> 20 \<and> (asked s \<longrightarrow> next_i s < 20)
     \<and> busy_count (th s) \<le> length (started (th s))
     \<and> mset (calls s) + pending (th s) + mset (unavailable s) = mset (map max_elem [0..<next_i s])
     \<and> sorted (posted (th s)) \<and> (\<forall>n \<in> set (posted (th s)). n < max_elem (next_i s))
     \<and> mset (posted (th s)) + mset (unavailable s) = mset (map max_elem [0..<next_i s])
     \<and> (\<forall>n \<in> set (unavailable s). 300 \<le> n)"

lemma busy_started:
  assumes "worker_step t p = Some p'" "t < threadCount p" "busy_count p \<le> length (started p)"
  shows "busy_count p' \<le> length (started p')"
proof -
  have "busy_count p' + of_bool (busy (pc p t)) = busy_count p + of_bool (busy (pc p' t))"
  proof -
    obtain l where l: "pc p' = (pc p)(t := l)" using worker_avail(1) [OF assms(1)] by blast
    have "busy_count p' = busy_count (goto t l p)"
      by (rule busy_count_cong) (simp_all add: goto_def l worker_avail(2) [OF assms(1)])
    then show ?thesis using busy_count_goto [OF assms(2), of l] by (simp add: l split: if_splits)
  qed
  moreover have "busy (pc p' t) \<longrightarrow> busy (pc p t) \<or> length (started p') = Suc (length (started p))"
    "length (started p) \<le> length (started p')"
    using assms(1) by (cases "pc p t"; auto simp: worker_defs split: list.splits if_splits)+
  ultimately show ?thesis using assms(3) by (cases "busy (pc p t)"; cases "busy (pc p' t)") auto
qed

lemma avail_busy:
  assumes "pool_reach 3 p" "\<not> 0 < availableThreads p"
  shows "busy_count p = 3"
proof -
  have c: "count_inv p" "threadCount p = 3" using pool_reach_inv [OF assms(1)] by (simp_all add: pool_inv_def)
  have "busy_count p \<le> 3" using busy_count_le [of p] c(2) by simp
  then have "busy_count p \<in> {0, 1, 2, 3}" by auto
  moreover have "availableThreads p = 0" using assms(2) word_neq_0_conv by blast
  then have "(word_of_nat (busy_count p) :: size_t) = 3" using c by (simp add: count_inv_def)
  ultimately show ?thesis by auto
qed

lemma d1_init_inv: "d1_inv d1_init"
  by (simp add: d1_inv_def d1_init_def pool_reach_def busy_count_def pending_def ThreadPool_new_def)

lemma d1_step_inv: "d1_step s s' \<Longrightarrow> d1_inv s \<Longrightarrow> d1_inv s'"
proof (induction rule: d1_step.induct)
  case (available s)
  then show ?case by (simp add: d1_inv_def)
next
  case (report s)
  then have p: "pool_reach 3 (th s)" by (simp add: d1_inv_def)
  have "\<not> 0 < availableThreads (th s)" using report(3) by (simp add: thread_avail_def split: if_splits)
  from avail_busy [OF p this] have "3 \<le> length (started (th s))" using report(4) by (simp add: d1_inv_def)
  moreover have "started (th s) @ jobs (th s) = posted (th s)" using newpool.fifo p unfolding pool_reach_def by metis
  then have "length (started (th s)) \<le> length (posted (th s))" by (metis length_append le_add1)
  moreover have "size (mset (posted (th s)) + mset (unavailable s)) = next_i s"
    using report(4) by (simp add: d1_inv_def)
  ultimately have "3 \<le> next_i s" by simp
  then have "300 \<le> max_elem (next_i s)" by (simp add: max_elem_def)
  then show ?case using report(1,2,4) by (auto simp: d1_inv_def max_elem_def)
next
  case (dispatch s w p)
  have q: "posted p = posted (th s) @ [max_elem (next_i s)]" "started p = started (th s)" "busy_count p = busy_count (th s)"
    using dispatch(2) by (auto simp: dispatch_thread_def notify_one_def valid_wake_def goto_def split: if_splits option.splits
        intro!: busy_count_cong)
  have "pool_reach 3 p" using dispatch(2,3) unfolding d1_inv_def pool_reach_def
    by (meson pool_step.dispatch rtranclp.rtrancl_into_rtrancl)
  then show ?case using dispatch(1,3) dispatch_pending [OF dispatch(2)]
    by (auto simp: d1_inv_def q sorted_append max_elem_def)
next
  case (work t s p)
  have q: "posted p = posted (th s)" using worker_step_queue [OF work(2)] by auto
  have "mset (test_fn (pc (th s) t)) = finishes (pc (th s) t)" by (cases "pc (th s) t") simp_all
  then have calls: "mset (calls s @ test_fn (pc (th s) t)) + pending p = mset (calls s) + pending (th s)"
    using worker_pending [OF work(2,1)] by simp
  have reach: "pool_reach 3 p" using work unfolding d1_inv_def pool_reach_def
    by (meson pool_step.worker rtranclp.rtrancl_into_rtrancl)
  have "mset (calls s) + pending (th s) + mset (unavailable s) = mset (map max_elem [0..<next_i s])"
    using work(3) by (simp add: d1_inv_def)
  then have "mset (calls s @ test_fn (pc (th s) t)) + pending p + mset (unavailable s) = mset (map max_elem [0..<next_i s])"
    by (simp only: calls)
  then show ?case using work(3) busy_started [OF work(2,1)] reach by (simp add: d1_inv_def q)
next
  case (wake t s)
  have "pool_reach 3 (goto t Woken (th s))" using wake unfolding d1_inv_def pool_reach_def
    by (meson pool_step.spurious rtranclp.rtrancl_into_rtrancl)
  moreover have "busy_count (goto t Woken (th s)) = busy_count (th s)"
    using busy_count_goto [of t "th s" Woken] wake(1) by simp
  moreover have "pending (goto t Woken (th s)) = pending (th s)" using wake_pending [of t "th s"] wake(1) by simp
  ultimately show ?case using wake(2) by (simp add: d1_inv_def) (simp add: goto_def)
next
  case (destruct s p)
  have q: "p = th s\<lparr>terminate := True, pc := (\<lambda>t. case pc (th s) t of Waiting \<Rightarrow> Woken | l \<Rightarrow> l)\<rparr>"
    using destruct(2) by (simp add: ThreadPool_destroy_def split: if_splits)
  have "job_of (case l of Waiting \<Rightarrow> Woken | l \<Rightarrow> l) = job_of l" "busy (case l of Waiting \<Rightarrow> Woken | l \<Rightarrow> l) = busy l"
    for l :: "nat wpc" by (cases l; simp)+
  then have "pending p = pending (th s)" "busy_count p = busy_count (th s)"
    by (simp_all add: pending_def busy_count_def q)
  moreover have "pool_reach 3 p" using destruct unfolding d1_inv_def pool_reach_def
    by (meson pool_step.destroy rtranclp.rtrancl_into_rtrancl)
  ultimately show ?case using destruct(3) by (simp add: d1_inv_def) (simp add: q)
qed

lemma d1_reach_inv: "d1_reach s \<Longrightarrow> d1_inv s"
proof -
  assume "d1_reach s"
  then have "d1_step\<^sup>*\<^sup>* d1_init s" by (simp add: d1_reach_def)
  then show ?thesis by (induction rule: rtranclp_induct) (blast intro: d1_init_inv d1_step_inv)+
qed

text \<open>C34: \<open>driver1\<close>: at every moment the numbers so far are, each once, those \<open>test_fn\<close> was called with, those
  reported, and those still with the pool; the workers take them in ascending order; none of the
  first three is reported; and when after the last number (and before the destructor) no worker can
  move, every number has been printed or reported.\<close>

theorem d1_numbers:
  assumes "d1_reach s"
  shows "mset (calls s) + pending (th s) + mset (unavailable s) = mset (map max_elem [0..<next_i s])
    \<and> sorted (started (th s)) \<and> (\<forall>n \<in> set (unavailable s). 300 \<le> n)
    \<and> (next_i s = 20 \<longrightarrow> \<not> terminate (th s) \<longrightarrow> (\<forall>t < 3. worker_step t (th s) = None) \<longrightarrow>
        mset (calls s) + mset (unavailable s) = mset (map max_elem [0..<20]))"
proof -
  have inv: "d1_inv s" by (rule d1_reach_inv [OF assms])
  then have p: "pool_inv (th s)" "threadCount (th s) = 3" "started (th s) @ jobs (th s) = posted (th s)"
    using pool_reach_inv newpool.fifo unfolding d1_inv_def pool_reach_def by metis+
  have "sorted (started (th s) @ jobs (th s))" using inv p(3) by (simp add: d1_inv_def)
  then have "sorted (started (th s))" by (simp add: sorted_append)
  moreover have "pending (th s) = {#}" if "\<not> terminate (th s)" "\<forall>t < 3. worker_step t (th s) = None"
    using stuck_pending [OF p(1) _ that(1)] that(2) p(2) by simp
  ultimately show ?thesis using inv by (auto simp: d1_inv_def)
qed

text \<open>The first number is dispatched and a worker has printed it.\<close>

definition d1_sample :: d1_state where
  "d1_sample = \<lparr>th = (ThreadPool_new 3)\<lparr>pc := (\<lambda>_. Check)(0 := DoneWant), availableThreads := 2, posted := [0], started := [0]\<rparr>,
     next_i = 1, asked = False, unavailable = [], calls = [0]\<rparr>"

fun d1_moves :: "nat list \<Rightarrow> d1_state \<Rightarrow> d1_state option" where
  "d1_moves [] s = Some s"
| "d1_moves (t # ts) s = (if t < threadCount (th s) then Option.bind (worker_step t (th s))
     (\<lambda>p. d1_moves ts (s\<lparr>th := p, calls := calls s @ test_fn (pc (th s) t)\<rparr>)) else None)"

lemma d1_moves_reach: "d1_moves ts s = Some s' \<Longrightarrow> d1_reach s \<Longrightarrow> d1_reach s'"
proof (induction ts arbitrary: s)
  case (Cons t ts)
  then obtain p where p: "t < threadCount (th s)" "worker_step t (th s) = Some p"
    "d1_moves ts (s\<lparr>th := p, calls := calls s @ test_fn (pc (th s) t)\<rparr>) = Some s'"
    by (auto split: if_splits bind_splits)
  have "d1_reach (s\<lparr>th := p, calls := calls s @ test_fn (pc (th s) t)\<rparr>)"
    using Cons.prems(2) d1_step.work [OF p(1,2)] unfolding d1_reach_def by (rule rtranclp.rtrancl_into_rtrancl)
  with Cons.IH [OF p(3)] show ?case .
qed simp

lemma d1_sample_reach: "d1_reach d1_sample"
proof -
  let ?q = "(ThreadPool_new 3 :: nat pool)\<lparr>jobs := [0], posted := [0]\<rparr>"
  have s0: "d1_step d1_init (d1_init\<lparr>asked := True\<rparr>)"
    by (rule d1_step.available) (simp_all add: d1_init_def thread_avail_def ThreadPool_new_def)
  have s1: "d1_step (d1_init\<lparr>asked := True\<rparr>) (d1_init\<lparr>th := ?q, next_i := 1\<rparr>)"
    using d1_step.dispatch [of "d1_init\<lparr>asked := True\<rparr>" None ?q]
    by (simp add: d1_init_def pool_exec_simps max_elem_def upt_rec)
  have "d1_reach (d1_init\<lparr>th := ?q, next_i := 1\<rparr>)"
    unfolding d1_reach_def
    by (rule converse_rtranclp_into_rtranclp [OF s0 r_into_rtranclp [of d1_step, OF s1]])
  moreover have "d1_moves [0, 0, 0, 0, 0] (d1_init\<lparr>th := ?q, next_i := 1\<rparr>) = Some d1_sample"
    by (simp add: d1_init_def d1_sample_def pool_exec_simps)
  ultimately show ?thesis using d1_moves_reach by blast
qed

theorem d1_numbers_witness: "d1_reach d1_sample \<and> mset (calls d1_sample) = {# 0 #} \<and> pending (th d1_sample) = {#}"
  using d1_numbers [OF d1_sample_reach] d1_sample_reach by (simp add: d1_sample_def max_elem_def upt_rec)

end
