(* ===== verification/SchedulerDriver.thy ===== *)
theory SchedulerDriver
  imports Scheduling
begin

text \<open>
  \<open>newLibs/driver2.cc\<close>: its main thread as the only caller of the event scheduler, with the dispatcher
  running beside it: six events, one of them cancelled, and the destructor when \<open>main\<close> returns.
\<close>

section \<open>The program\<close>

text \<open>A job is the number of the function and the number its argument points to.\<close>

datatype d2_call = Schedule "nat \<times> int" i32 | CancelId nat | Destruct

definition d2_program :: "d2_call list" where
  "d2_program = [Schedule (1, 1100) 1100, Schedule (2, 100) 100, Schedule (3, 5000) 5000, Schedule (1, 300) 300,
     CancelId 2, Schedule (2, 200) 200, Schedule (3, 1120) 1120, Destruct]"

record d2_state =
  es :: "(nat \<times> int) sched"
  at_call :: nat           \<comment> \<open>the calls that have returned\<close>
  ids :: "int list"        \<comment> \<open>\<open>i1\<close>, \<open>i2\<close>, ...\<close>

definition d2_init :: d2_state where
  "d2_init = \<lparr>es = EventScheduler_new 10, at_call = 0, ids = []\<rparr>"

definition next_call :: "d2_state \<Rightarrow> d2_call option" where
  "next_call s = (if at_call s < length d2_program then Some (d2_program ! at_call s) else None)"

lemma next_call_es [simp]: "next_call (s\<lparr>es := e\<rparr>) = next_call s"
  by (simp add: next_call_def)

inductive d2_step :: "d2_state \<Rightarrow> d2_state \<Rightarrow> bool" where
  dispatcher: "valid_clock now \<Longrightarrow> dispatcher_step now (es s) = Some (Inr e) \<Longrightarrow> d2_step s (s\<lparr>es := e\<rparr>)"
| call: "next_call s = Some (Schedule job ms) \<Longrightarrow> begin_schedule 0 job ms (es s) = Some e \<Longrightarrow> d2_step s (s\<lparr>es := e\<rparr>)"
| inside: "valid_clock now \<Longrightarrow> caller_step (Some now) 0 (es s) = Some (Inr e) \<Longrightarrow> (\<And>r. cpc (es s) 0 \<noteq> CDone r) \<Longrightarrow>
    d2_step s (s\<lparr>es := e\<rparr>)"
| return: "cpc (es s) 0 = CDone r \<Longrightarrow> d2_step s (s\<lparr>es := cgoto 0 CIdle (es s), at_call := Suc (at_call s), ids := ids s @ [r]\<rparr>)"
| cancel: "next_call s = Some (CancelId i) \<Longrightarrow> cpc (es s) 0 = CIdle \<Longrightarrow>
    d2_step s (s\<lparr>es := eventCancel (ids s ! i) (es s), at_call := Suc (at_call s)\<rparr>)"
| destruct: "next_call s = Some Destruct \<Longrightarrow> cpc (es s) 0 = CIdle \<Longrightarrow>
    d2_step s (s\<lparr>es := EventScheduler_destroy (es s), at_call := Suc (at_call s)\<rparr>)"

definition d2_reach :: "d2_state \<Rightarrow> bool" where
  "d2_reach s \<longleftrightarrow> d2_step\<^sup>*\<^sup>* d2_init s"

section \<open>The invariant\<close>

fun sched_jobs :: "d2_call list \<Rightarrow> (nat \<times> int) list" where
  "sched_jobs [] = []"
| "sched_jobs (Schedule job ms # cs) = job # sched_jobs cs"
| "sched_jobs (c # cs) = sched_jobs cs"

definition jobs_before :: "nat \<Rightarrow> (nat \<times> int) list" where
  "jobs_before k = sched_jobs (take k d2_program)"

lemma sched_jobs_append: "sched_jobs (cs @ ds) = sched_jobs cs @ sched_jobs ds"
  by (induction cs rule: sched_jobs.induct) simp_all

lemma jobs_before_Suc:
  "next_call s = Some c \<Longrightarrow> jobs_before (Suc (at_call s)) = jobs_before (at_call s) @ sched_jobs [c]"
  by (auto simp: next_call_def jobs_before_def take_Suc_conv_app_nth sched_jobs_append split: if_splits)

lemma jobs_before_le: "length (jobs_before k) \<le> 6"
proof -
  have "sched_jobs d2_program = jobs_before k @ sched_jobs (drop k d2_program)"
    by (simp add: jobs_before_def flip: sched_jobs_append)
  then have "length (jobs_before k) \<le> length (sched_jobs d2_program)" by simp
  then show ?thesis by (simp add: d2_program_def)
qed

text \<open>Where \<open>main\<close> is inside its call, with \<open>n\<close> calls of \<open>eventSchedule\<close> behind it.\<close>

fun within :: "d2_call option \<Rightarrow> int \<Rightarrow> int \<Rightarrow> (nat \<times> int) cpc \<Rightarrow> bool" where
  "within c n i CIdle = (i = n)"
| "within c n i (CTested job ms) = (i = n \<and> c = Some (Schedule job ms))"
| "within c n i (CHasId job ms d) = (i = n + 1 \<and> d = n \<and> c = Some (Schedule job ms))"
| "within c n i (CHasEvent e) = (i = n + 1 \<and> eventId e = n \<and> (\<exists>ms. c = Some (Schedule (ev_job e) ms)))"
| "within c n i (CDone r) = (i = n + 1 \<and> r = n \<and> (\<exists>job ms. c = Some (Schedule job ms)))"

fun returned :: "(nat \<times> int) cpc \<Rightarrow> bool" where
  "returned (CDone r) = True" | "returned l = False"

definition d2_inv :: "d2_state \<Rightarrow> bool" where
  "d2_inv s \<longleftrightarrow> es_reach 1 10 (es s)
     \<and> within (next_call s) (int (length (jobs_before (at_call s)))) (nextId (es s)) (cpc (es s) 0)
     \<and> map ev_job (accepted (es s)) = jobs_before (at_call s + of_bool (returned (cpc (es s) 0)))
     \<and> map eventId (accepted (es s)) = map int [0..<length (accepted (es s))]
     \<and> ids s = map int [0..<length (jobs_before (at_call s))]
     \<and> (\<forall>e \<in> set (cancelled (es s)). eventId e = 2)
     \<and> (terminating (es s) \<longrightarrow> next_call s = None) \<and> (dpc (es s) = DExit \<longrightarrow> terminating (es s) \<and> evq (es s) = [])"

lemma evq_short:
  assumes "es_reach n limit s"
  shows "length (evq s) \<le> length (accepted s)" "numEvents s = word_of_nat (length (evq s))"
proof -
  have "account_inv s" "queue_inv s" using es_reach_inv [OF assms] by (simp_all add: es_inv_def)
  then have "mset (evq s) + mset (cancelled s) + mset (map fst (fired s)) = mset (accepted s)"
    and q: "numEvents s = word_of_nat (length (evq s))"
    by (simp_all add: account_inv_def queue_inv_def)
  from arg_cong [OF this(1), of size] show "length (evq s) \<le> length (accepted s)" by simp
  show "numEvents s = word_of_nat (length (evq s))" by (rule q)
qed

lemma d2_reach_step: "es_reach 1 10 s \<Longrightarrow> es_step 1 s e \<Longrightarrow> es_reach 1 10 e"
  unfolding es_reach_def by (rule rtranclp.rtrancl_into_rtrancl)

lemma d2_accepted:
  assumes "d2_inv s"
  shows "length (accepted (es s)) \<le> 6"
proof -
  have "map ev_job (accepted (es s)) = jobs_before (at_call s + of_bool (returned (cpc (es s) 0)))"
    using assms by (simp add: d2_inv_def)
  from arg_cong [OF this, of length] show ?thesis using jobs_before_le by simp
qed

lemma small_word: "n \<le> 6 \<Longrightarrow> (word_of_nat n :: 32 word) = 0 \<longleftrightarrow> n = 0"
  "n \<le> 6 \<Longrightarrow> (ucast (word_of_nat n :: 32 word) :: size_t) < 10"
proof -
  assume "n \<le> 6"
  then have "n \<in> {0, 1, 2, 3, 4, 5, 6}" by auto
  then show "(word_of_nat n :: 32 word) = 0 \<longleftrightarrow> n = 0" "(ucast (word_of_nat n :: 32 word) :: size_t) < 10" by auto
qed

lemma d2_limit:
  assumes "d2_inv s"
  shows "below_limit (es s)" "\<not> 0 < numEvents (es s) \<Longrightarrow> evq (es s) = []"
proof -
  have r: "es_reach 1 10 (es s)" using assms by (simp add: d2_inv_def)
  have n: "length (evq (es s)) \<le> 6" using evq_short(1) [OF r] d2_accepted [OF assms] by simp
  have "maxEvents (es s) = 10" using limit_reach [OF r] by simp
  then show "below_limit (es s)" using small_word(2) [OF n] by (simp add: below_limit_def evq_short(2) [OF r])
  show "evq (es s) = []" if "\<not> 0 < numEvents (es s)"
    using small_word(1) [OF n] that by (simp add: evq_short(2) [OF r] word_gt_0)
qed

lemma d2_step_inv: "d2_step s s' \<Longrightarrow> d2_inv s \<Longrightarrow> d2_inv s'"
proof (induction rule: d2_step.induct)
  case (dispatcher now s e)
  have r: "es_reach 1 10 e" using dispatcher d2_reach_step es_step.dispatcher by (fastforce simp: d2_inv_def)
  note same = dispatcher_same [OF dispatcher(2)]
  have "evq e = []" "terminating e" if "dpc e = DExit"
    using dispatcher(2) that dispatcher(3) d2_limit(2) [OF dispatcher(3)]
    by (cases rule: dispatcher_step_cases; auto elim!: turn_cases split: if_splits)+
  then show ?case using dispatcher(3) r same by (simp add: d2_inv_def)
next
  case (call s job ms e)
  have e: "cpc (es s) 0 = CIdle" "e = cgoto 0 (CTested job ms) (es s)"
    using begin_schedule_eq [OF call(2)] d2_limit(1) [OF call(3)] by simp_all
  have "es_reach 1 10 e" using call d2_reach_step es_step.call [of 0 1 job ms "es s" e] by (auto simp: d2_inv_def)
  then show ?case using call(1,3) e by (auto simp: d2_inv_def cgoto_def)
next
  case (inside now s e)
  have r: "es_reach 1 10 e" using inside d2_reach_step es_step.caller [of 0 1 now "es s" e] by (auto simp: d2_inv_def)
  from inside(2) show ?case
  proof (cases rule: caller_step_cases)
    case (take job ms)
    then show ?thesis using inside(4) r by (auto simp: d2_inv_def cgoto_def)
  next
    case (build job ms eid v)
    have "eventId v = eid" "ev_job v = job" using build(2) event_new_time(3) [OF inside(1) build(2)]
      unfolding event_new_eq [OF inside(1)] by auto
    then show ?thesis using inside(4) r build by (auto simp: d2_inv_def cgoto_def)
  next
    case (insert v)
    obtain ms where c: "next_call s = Some (Schedule (ev_job v) ms)" "eventId v = int (length (jobs_before (at_call s)))"
      using inside(4) insert(1) by (auto simp: d2_inv_def)
    have "length (accepted (es s)) = length (jobs_before (at_call s))"
      using inside(4) insert(1) by (auto simp: d2_inv_def dest: arg_cong [where f = length])
    then show ?thesis using inside(4) r insert c jobs_before_Suc [OF c(1)]
      by (auto simp: d2_inv_def cgoto_def insert_event_def)
  next
    case (return r)
    then show ?thesis using inside(3) by blast
  qed
next
  case (return s r)
  have "caller_step (Some (at 0 0)) 0 (es s) = Some (Inr (cgoto 0 CIdle (es s)))"
    using return(1) by (simp add: caller_step_def)
  then have "es_reach 1 10 (cgoto 0 CIdle (es s))"
    using return(2) d2_reach_step es_step.caller [of 0 1 "at 0 0" "es s"] by (auto simp: d2_inv_def valid_clock_def)
  moreover obtain job ms where c: "next_call s = Some (Schedule job ms)"
    using return by (auto simp: d2_inv_def)
  ultimately show ?case using return jobs_before_Suc [OF c]
    by (auto simp: d2_inv_def cgoto_def)
next
  case (cancel s i)
  have r: "es_reach 1 10 (eventCancel (ids s ! i) (es s))"
  proof (rule d2_reach_step)
    show "es_reach 1 10 (es s)" using cancel(3) by (simp add: d2_inv_def)
  qed (rule es_step.cancel)
  have k: "at_call s = 4" "i = 2" using cancel(1)
    by (auto simp: next_call_def d2_program_def nth_Cons' split: if_splits)
  have "ids s = map int [0..<length (jobs_before 4)]" using cancel(3) k by (simp add: d2_inv_def)
  then have "ids s ! i = 2" by (simp add: k jobs_before_def d2_program_def)
  then have c: "\<forall>e \<in> set (cancelled (eventCancel (ids s ! i) (es s))). eventId e = 2"
    using cancel(3) by (cases rule: eventCancel_cases [of "ids s ! i" "es s"]) (auto simp: d2_inv_def)
  have "terminating (eventCancel (ids s ! i) (es s)) = terminating (es s)"
    by (cases rule: eventCancel_cases [of "ids s ! i" "es s"]) auto
  moreover have "\<not> terminating (es s)" using cancel(1,3) by (auto simp: d2_inv_def)
  ultimately show ?case using cancel r c jobs_before_Suc [OF cancel(1)]
    by (auto simp: d2_inv_def cancel_same)
next
  case (destruct s)
  have r: "es_reach 1 10 (EventScheduler_destroy (es s))"
  proof (rule d2_reach_step)
    show "es_reach 1 10 (es s)" using destruct(3) by (simp add: d2_inv_def)
  qed (rule es_step.destroy)
  have "at_call s = 7" using destruct(1)
    by (auto simp: next_call_def d2_program_def nth_Cons' split: if_splits)
  then have "next_call (s\<lparr>es := EventScheduler_destroy (es s), at_call := Suc (at_call s)\<rparr>) = None"
    by (simp add: next_call_def d2_program_def)
  then show ?case using destruct r jobs_before_Suc [OF destruct(1)]
    by (auto simp: d2_inv_def EventScheduler_destroy_def)
qed

lemma d2_reach_inv: "d2_reach s \<Longrightarrow> d2_inv s"
proof -
  assume "d2_reach s"
  then have "d2_step\<^sup>*\<^sup>* d2_init s" by (simp add: d2_reach_def)
  moreover have "d2_inv d2_init"
    by (simp add: d2_inv_def d2_init_def jobs_before_def es_reach_def EventScheduler_new_def)
  ultimately show ?thesis by (induction rule: rtranclp_induct) (blast intro: d2_step_inv)+
qed

lemma d2_cancelled:
  assumes "d2_inv s" "e \<in> set (accepted (es s))" "eventId e = 2"
  shows "ev_job e = (3, 5000)"
proof -
  let ?a = "accepted (es s)" let ?k = "at_call s + of_bool (returned (cpc (es s) 0))"
  obtain i where i: "i < length ?a" "e = ?a ! i" using assms(2) by (metis in_set_conv_nth)
  have ev: "map eventId ?a = map int [0..<length ?a]" "map ev_job ?a = jobs_before ?k" using assms(1) by (simp_all add: d2_inv_def)
  from arg_cong [OF ev(1), of "\<lambda>xs. xs ! i"] have "i = 2" using i assms(3) by simp
  then have l: "2 < length (jobs_before ?k)" using i(1) ev(2) by (metis length_map)
  have "sched_jobs d2_program = jobs_before ?k @ sched_jobs (drop ?k d2_program)"
    by (simp add: jobs_before_def flip: sched_jobs_append)
  then have "jobs_before ?k ! 2 = sched_jobs d2_program ! 2" using l by (simp add: nth_append)
  also have "\<dots> = (3, 5000)" by (simp add: d2_program_def)
  finally show ?thesis using arg_cong [OF ev(2), of "\<lambda>xs. xs ! i"] i \<open>i = 2\<close> by simp
qed

text \<open>C35: \<open>driver2\<close>, whatever the clock shows and however \<open>main\<close> and the dispatcher interleave: the calls return
  the ids 0 to 5, so that the cancelled one is the event of 5000; no event is handed over before it
  is due, and not at all if it was cancelled first; and when the dispatcher has ended, the others
  have all been handed to the pool, each once.\<close>

theorem d2_events:
  assumes "d2_reach s"
  shows "(at_call s = 8 \<longrightarrow> ids s = [0, 1, 2, 3, 4, 5])
    \<and> (\<forall>(e, t) \<in> set (fired (es s)). nsecs (timeout e) \<le> nsecs t)
    \<and> (\<forall>e \<in> set (cancelled (es s)). ev_job e = (3, 5000) \<and> e \<notin> fst ` set (fired (es s)))
    \<and> (dpc (es s) = DExit \<longrightarrow> mset (map (\<lambda>(e, t). ev_job e) (fired (es s))) + mset (map ev_job (cancelled (es s)))
        = {# (1, 1100), (2, 100), (3, 5000), (1, 300), (2, 200), (3, 1120) #})"
proof -
  have inv: "d2_inv s" by (rule d2_reach_inv [OF assms])
  then have "es_reach 1 10 (es s)" by (simp add: d2_inv_def)
  from es_reach_inv [OF this] have e: "id_inv 1 (es s)" "account_inv (es s)" "time_inv 1 (es s)" by (simp_all add: es_inv_def)
  have acc: "mset (evq (es s)) + mset (cancelled (es s)) + mset (map fst (fired (es s))) = mset (accepted (es s))"
    using e(2) by (simp add: account_inv_def)
  have "ids s = [0, 1, 2, 3, 4, 5]" if "at_call s = 8"
    using inv that by (simp add: d2_inv_def jobs_before_def d2_program_def upt_rec)
  moreover have "\<forall>(e, t) \<in> set (fired (es s)). nsecs (timeout e) \<le> nsecs t" using e(3) by (simp add: time_inv_def)
  moreover have "ev_job x = (3, 5000) \<and> x \<notin> fst ` set (fired (es s))" if x: "x \<in> set (cancelled (es s))" for x
  proof
    have "x \<in># mset (accepted (es s))" using x unfolding acc [symmetric] by simp
    then show "ev_job x = (3, 5000)" using d2_cancelled [OF inv] inv x by (simp add: d2_inv_def)
    have "distinct (evq (es s) @ cancelled (es s) @ map fst (fired (es s)))"
    proof (rule mset_eq_imp_distinct_iff [THEN iffD2])
      show "mset (evq (es s) @ cancelled (es s) @ map fst (fired (es s))) = mset (accepted (es s))" using acc by (simp add: add.assoc)
      show "distinct (accepted (es s))" using e(1) by (auto simp: id_inv_def distinct_map)
    qed
    then show "x \<notin> fst ` set (fired (es s))" using x by auto
  qed
  moreover have "mset (map (\<lambda>(e, t). ev_job e) (fired (es s))) + mset (map ev_job (cancelled (es s)))
      = {# (1, 1100), (2, 100), (3, 5000), (1, 300), (2, 200), (3, 1120) #}" if "dpc (es s) = DExit"
  proof -
    have d: "evq (es s) = []" "next_call s = None" "map ev_job (accepted (es s)) = jobs_before (at_call s + of_bool (returned (cpc (es s) 0)))"
      using inv that by (auto simp: d2_inv_def)
    have w: "within (next_call s) (int (length (jobs_before (at_call s)))) (nextId (es s)) (cpc (es s) 0)"
      using inv by (simp add: d2_inv_def)
    have "\<not> returned (cpc (es s) 0)" using d(2) w by (cases "cpc (es s) 0") auto
    moreover have "8 \<le> at_call s" using d(2) by (simp add: next_call_def d2_program_def split: if_splits)
    ultimately have j: "map ev_job (accepted (es s)) = sched_jobs d2_program"
      using d(3) by (simp add: jobs_before_def d2_program_def)
    have "mset (map ev_job (map fst (fired (es s)))) + mset (map ev_job (cancelled (es s))) = mset (map ev_job (accepted (es s)))"
      using arg_cong [OF acc, of "image_mset ev_job"] d(1) by (simp add: add.commute multiset.map_comp)
    also have "\<dots> = mset (sched_jobs d2_program)" by (simp only: j)
    finally show ?thesis by (simp add: d2_program_def comp_def case_prod_beta')
  qed
  ultimately show ?thesis by blast
qed

section \<open>The run the repository records\<close>

fun d2_main :: "timespec \<Rightarrow> d2_state \<Rightarrow> d2_state option" where
  "d2_main now s = (case cpc (es s) 0 of
       CIdle \<Rightarrow> (case next_call s of
           Some (Schedule job ms) \<Rightarrow> map_option (\<lambda>e. s\<lparr>es := e\<rparr>) (begin_schedule 0 job ms (es s))
         | Some (CancelId i) \<Rightarrow> Some (s\<lparr>es := eventCancel (ids s ! i) (es s), at_call := Suc (at_call s)\<rparr>)
         | Some Destruct \<Rightarrow> Some (s\<lparr>es := EventScheduler_destroy (es s), at_call := Suc (at_call s)\<rparr>)
         | None \<Rightarrow> None)
     | CDone r \<Rightarrow> Some (s\<lparr>es := cgoto 0 CIdle (es s), at_call := Suc (at_call s), ids := ids s @ [r]\<rparr>)
     | _ \<Rightarrow> map_option (\<lambda>e. s\<lparr>es := e\<rparr>) (ok (caller_step (Some now) 0 (es s))))"

fun d2_disp :: "timespec \<Rightarrow> d2_state \<Rightarrow> d2_state option" where
  "d2_disp now s = map_option (\<lambda>e. s\<lparr>es := e\<rparr>) (ok (dispatcher_step now (es s)))"

fun iter :: "nat \<Rightarrow> ('a \<Rightarrow> 'a option) \<Rightarrow> 'a \<Rightarrow> 'a option" where
  "iter 0 f s = Some s" | "iter (Suc n) f s = Option.bind (f s) (iter n f)"

lemma d2_main_step:
  assumes "valid_clock now" "d2_main now s = Some s'"
  shows "d2_step s s'"
proof (cases "cpc (es s) 0")
  case CIdle
  then obtain c where c: "next_call s = Some c" using assms(2) by (cases "next_call s") auto
  then show ?thesis using assms(2) CIdle by (cases c) (auto intro: d2_step.call d2_step.cancel d2_step.destruct)
next
  case (CDone r)
  then show ?thesis using assms(2) by (auto intro: d2_step.return)
qed (use assms in \<open>auto intro!: d2_step.inside\<close>)

lemma iter_steps: "iter n f s = Some s' \<Longrightarrow> (\<And>a b. f a = Some b \<Longrightarrow> d2_step a b) \<Longrightarrow> d2_step\<^sup>*\<^sup>* s s'"
proof (induction n arbitrary: s)
  case (Suc n)
  then obtain t where "f s = Some t" "iter n f t = Some s'" by (auto split: bind_splits)
  then show ?case using Suc by (meson converse_rtranclp_into_rtranclp)
qed simp

lemma d2_disp_step: "valid_clock now \<Longrightarrow> d2_disp now s = Some s' \<Longrightarrow> d2_step s s'"
  by (auto intro: d2_step.dispatcher)

definition d2_run :: "d2_state option" where
  "d2_run = Option.bind (iter 32 (d2_main (at 10 0)) d2_init) (iter 16 (d2_disp (at 20 0)))"

text \<open>All calls are made at once; the events are handed over in the order of the recorded output.\<close>

lemma d2_run_output: "map_option (\<lambda>s. (map (\<lambda>(e, t). ev_job e) (fired (es s)), dpc (es s))) d2_run
    = Some ([(2, 100), (2, 200), (1, 300), (1, 1100), (3, 1120)], DExit)"
  by code_simp

lemma d2_run_reach: "d2_run = Some s \<Longrightarrow> d2_reach s"
proof -
  assume "d2_run = Some s"
  then obtain t where t: "iter 32 (d2_main (at 10 0)) d2_init = Some t" "iter 16 (d2_disp (at 20 0)) t = Some s"
    by (auto simp: d2_run_def split: bind_splits)
  have v: "valid_clock (at 10 0)" "valid_clock (at 20 0)" by (simp_all add: valid_clock_def)
  show ?thesis unfolding d2_reach_def
    using iter_steps [OF t(1) d2_main_step [OF v(1)]] iter_steps [OF t(2) d2_disp_step [OF v(2)]]
    by (rule rtranclp_trans)
qed

theorem d2_events_witness:
  "\<exists>s. d2_reach s \<and> dpc (es s) = DExit \<and> map (\<lambda>(e, t). ev_job e) (fired (es s)) = [(2, 100), (2, 200), (1, 300), (1, 1100), (3, 1120)]
     \<and> mset (map ev_job (cancelled (es s))) = {# (3, 5000) #}"
proof -
  let ?out = "[(2, 100), (2, 200), (1, 300), (1, 1100), (3, 1120)] :: (nat \<times> int) list"
  obtain s where s: "d2_run = Some s" "(map (\<lambda>(e, t). ev_job e) (fired (es s)), dpc (es s)) = (?out, DExit)"
    using d2_run_output unfolding map_option_eq_Some by (elim exE conjE)
  note s = s(1) s(2) [unfolded prod.inject, THEN conjunct1] s(2) [unfolded prod.inject, THEN conjunct2]
  have "mset (map (\<lambda>(e, t). ev_job e) (fired (es s))) + mset (map ev_job (cancelled (es s)))
      = {# (1, 1100), (2, 100), (3, 5000), (1, 300), (2, 200), (3, 1120) #}"
    using d2_events [OF d2_run_reach [OF s(1)]] s(3) by blast
  also have "\<dots> = mset [(2, 100), (2, 200), (1, 300), (1, 1100), (3, 1120)] + {# (3, 5000) #}" by simp
  finally have "mset (map ev_job (cancelled (es s))) = {# (3, 5000) #}"
    unfolding s(2) by (rule add_left_imp_eq)
  then show ?thesis by (intro exI [of _ s] conjI d2_run_reach [OF s(1)] s(2,3))
qed

end
