(* ===== verification/Spec2Isabelle.thy ===== *)
theory Spec2Isabelle
  imports Jobs SpeedMain PipeProgress EventPool OurPools OurScheduler CjPool MessageDriver PerMessageTest TwoHosts
    PoolDriver SchedulerDriver
begin

text \<open>
  A verification library for two implementations of a small protocol stack, FTP and Telnet over
  TCP, RDP and DNS over UDP, both over IP over Ethernet, where "the network" is UDP on localhost:
  the process per message model (\<open>PerMessage.h\<close>: a thread of a pool carries a received message
  through all layers by procedure calls) and the process per protocol model (\<open>PerProtocol.h\<close>: a
  thread and a pipe per protocol and direction). Both use the message library
  \<open>ourLibs/Message.h\<close>, the structs of \<open>Headers.h\<close> and the socket helpers of \<open>udpUtils.h\<close>;
  \<open>PerMessage.h\<close> uses the thread pool of \<open>newLibs/threadpool.cpp\<close>. \<open>SpeedTest.cc\<close> sends through both
  and waits for what arrives. The repository also holds the libraries the program was built from
  and their alternatives: a second message library and an event scheduler (\<open>newLibs\<close>), a second
  event scheduler and two thread pools (\<open>ourLibs\<close>), and one more pool (\<open>newLibs/cj\<close>).

  \<^bold>\<open>How the program is modelled.\<close> C++ memory is a record of numbered blocks of byte cells
  (theory \<open>Memory\<close>): \<open>new char[n]\<close>, \<open>malloc\<close> and local structs are fresh blocks, \<open>delete\<close> and the
  end of a scope remove one, a cell is \<open>None\<close> until written. Every operation returns
  \<open>fault + 'a\<close> (theory \<open>Prelude\<close>), so that a null pointer, a dangling or out of bounds access, an
  indeterminate value that is read, signed overflow, \<open>front()\<close> of an empty list and \<open>exit\<close> are
  distinct results. \<open>size_t\<close> is a 64 bit word, \<open>int\<close> a 32 bit word with \<open>sint\<close>, and the casts
  between them are written out. A short-hand for the memory after a new block with given bytes is
  \<open>put\<close>. System calls are parameters (record \<open>os\<close> of \<open>UdpUtils\<close>); what is sent and printed is in
  the record \<open>net\<close>.

  \<^bold>\<open>Theories.\<close>
  \<^item> \<open>Prelude\<close>, \<open>Memory\<close>: results, integer types, memory, frame conditions (\<open>mem_ext\<close>).
  \<^item> \<open>Headers\<close> (\<open>Headers.h\<close>): ids, struct layout, field access.
  \<^item> \<open>Message_Spec\<close>, \<open>Message\<close> (\<open>ourLibs/Message.h\<close>): the locale \<open>message_lib\<close> states what protocol
    code relies on, in terms of the byte string of a message; \<open>Message\<close> has every method as the code
    has it, relates each loop to the bytes (\<open>strip_loop_spec\<close>, \<open>split_loop_spec\<close>,
    \<open>flat_loop_spec\<close>) and interprets the locale. Its properties: stripping on every branch,
    sequences of pushes and pops, flattening, splitting (and its wrong length), joining, header
    round trip.
  \<^item> \<open>UdpUtils\<close> (\<open>udpUtils.h\<close>): opening, receiving, sending.
  \<^item> \<open>NewMessage\<close> (\<open>newLibs/message.cpp\<close>, suffix \<open>_nl\<close>): it keeps the part \<open>message_store\<close> of the
    contract (construct, push, flatten), not stripping; what its \<open>msgStripHdr\<close> and \<open>msgSplit\<close> do in
    each case, and that all else agrees with \<open>ourLibs/Message.h\<close>.
  \<^item> \<open>Pool_Spec\<close>: the locales \<open>job_account\<close> (every job started at most once, none lost), \<open>job_pool\<close> (a
    queue in order; it gives \<open>job_account\<close>) and \<open>lock_owner\<close> (a mutex and who holds it).
  \<^item> \<open>ThreadPool\<close> (\<open>newLibs/threadpool.cpp\<close>): the pool itself, each worker a program
    point of \<open>execute\<close>; \<open>worker_step\<close> is one atomic step, \<open>pool_step\<close> any step of the pool including
    spurious wake-ups. Mutual exclusion, exact counter, FIFO, progress, bounded work, and the shutdown
    that can hang.
  \<^item> \<open>OurPools\<close> (\<open>ourLibs/ThreadPool.h\<close>, \<open>ourLibs/ThreadPool_new.h\<close>): both worker loops as program points;
    order, no job dropped, no parallelism in the first, shutdown, and the accesses without a lock.
  \<^item> \<open>CjPool\<close> (\<open>newLibs/cj/ThreadPool.cpp\<close>): every access of the constructor, the dispatchers and the threads
    to flags, slots and semaphores is a step; right with one dispatching thread (\<open>job_account\<close>), wrong
    with two; and the constructor that copies a semaphore on which a thread already waits.
  \<^item> \<open>Std_Heap\<close>: the heap algorithms of the standard library for any \<open>weak_order\<close>; the locale \<open>heap_ops\<close>
    says what their users rely on.
  \<^item> \<open>EventScheduler\<close>, \<open>Scheduling\<close> (\<open>newLibs/eventscheduler.cpp\<close>): callers, dispatcher and destructor as
    a step relation with its invariants; the properties (every event in one place, cancelled never
    run, punctual within two seconds, shutdown and its order). \<open>EventPool\<close>: the scheduler on top of the pool.
  \<^item> \<open>OurScheduler\<close> (\<open>ourLibs/EventScheduler.h\<close>): map, priority queue and the steps of
    \<open>executeEvents\<close>; orderly use, the delays that add up, and what disorder does.
  \<^item> \<open>Wire\<close>: the wire format (\<open>wire\<close>, \<open>encap\<close>) and its inverse steps (\<open>pop_hdr\<close>, \<open>pop_app\<close>).
  \<^item> \<open>PerMessage\<close>: all send functions (predicate \<open>sends\<close>, one lemma per layer by \<open>layer_sends\<close>) and
    receive functions, refined to the reference receiver \<open>recv_eth\<close> on bytes (\<open>receives_layer\<close>).
  \<^item> \<open>Jobs\<close>: listening thread, pool and receive functions together, as a step relation; every
    datagram is received exactly once under every schedule, and the workers finish.
  \<^item> \<open>PerProtocol\<close>: pipes as lists of units, message objects in a store, one turn per thread
    function (\<open>FTP_send\<close> ... \<open>DNS_recv\<close>), \<open>msg_recv\<close>, \<open>msg_send\<close>, constructor, \<open>atoi\<close>, start-up, the
    step relation \<open>host_step\<close> and its runs.
  \<^item> \<open>Hops\<close>: \<open>hop\<close>, what one turn does to the bytes of a unit; every thread implements its hop
    (\<open>thread_handles\<close>); \<open>fate\<close>, the hops to the end.
  \<^item> \<open>Runs\<close>: the invariant \<open>host_inv\<close>, the account of all units (\<open>account\<close>: what has come out plus the
    fates of what is in the pipes), which no step changes except by the fate of an input; the
    measure \<open>turns\<close>; the properties of runs under any interleaving.
  \<^item> \<open>PipeLocks\<close>, \<open>PipeProgress\<close>: the same threads call by call, with the mutexes around the pipes and
    pipes that hold \<open>cap\<close> units: \<open>thread_step\<close> is one call (unlock, read, lock, work, lock, write, unlock)
    of one thread, \<open>pl_step\<close> any of them or the begin of a writer's call. Each is a turn of \<open>host_step\<close>, an
    input or nothing (\<open>pl_refines\<close>), so that the account holds here too; no deadlock while the pipes
    have room, bounded work; exclusion at a pipe from any moment at which nobody is between lock and unlock
    there; and the blocked pipe, whose writer and reader wait for each other in every run (\<open>wedged\<close>).
  \<^item> \<open>Counter\<close>: the unlocked increments of \<open>mCounter\<close> and \<open>rCounter\<close> as loads and stores, how far the
    counter can be from the increments done.
  \<^item> \<open>SpeedTest\<close> (\<open>SpeedTest.cc\<close>): its eight threads on top of \<open>PerMessage\<close> and \<open>PerProtocol\<close>, under any
    interleaving, to the datagrams sent. \<open>Polling\<close>: the receiving host together with the loads and stores
    of its counter (\<open>counting\<close>), and when the polling loop ends or need not.
    \<open>SpeedMain\<close>: its \<open>main\<close>, the three measurements one after the other with the counters, in which every
    load and store is a step, and the clock; that the third can end with none of its own texts, that \<open>main\<close>
    can poll for ever, and what the printed times are.
  \<^item> \<open>TwoHosts\<close>: two \<open>PerProtocol\<close> hosts that send to each other, from what is submitted on one side to
    what is delivered on the other (\<open>pair_inv\<close>), and that everything can be delivered; and the program
    \<open>PerProtocol_test.cpp\<close>, which is their concrete instance.
  \<^item> \<open>Printing\<close>, \<open>MessageDriver\<close> (\<open>newLibs/driver3.cc\<close>), \<open>PerMessageTest\<close> (\<open>PerMessageTest.cc\<close>): these
    programs with what they print, \<open>driver3\<close> on both message libraries and, because it prints arrays
    without an end, for both things a new array may hold: nothing that may be read, or zeros.
  \<^item> \<open>PoolDriver\<close> (\<open>newLibs/driver1.cc\<close>), \<open>SchedulerDriver\<close> (\<open>newLibs/driver2.cc\<close>): their main threads as
    clients of \<open>ThreadPool\<close> and of \<open>EventScheduler\<close>, under any interleaving.
  \<^item> this theory: the two implementations interwork in both directions, and where they differ.

  \<^bold>\<open>Abstractions.\<close> A turn of a protocol thread, and the call of a job's function by a worker, is one
  step: the thread alone has the message it works on, and \<open>new\<close> and \<open>printf\<close> are thread safe. The
  shared counters are the exception: the fields \<open>mCounter\<close> and \<open>rCounter\<close> of these theories count the
  increments executed, and the globals themselves, with each load and store a step, are in \<open>Counter\<close>, \<open>Polling\<close>
  and \<open>SpeedMain\<close> (where the polling loop is taken to load the counter each time, which the language
  does not promise of a variable that is neither atomic nor volatile). In \<open>host_step\<close> a pipe is an unbounded queue of
  units and a thread takes a unit and passes it on in one step, which \<open>pl_refines\<close> justifies for any
  interleaving of the single calls with the mutexes; a write of 16 bytes to a pipe is atomic, and a
  mutex of the default kind is released by whoever unlocks it, as glibc does. The unit buffers the threads leak are not allocated in the model.
  \<open>taken\<close>, \<open>got\<close>, \<open>posted\<close> and \<open>started\<close> are history variables. A critical section of a scheduler is
  one step, an access outside a lock a step of its own; the clock of \<open>clock_gettime\<close> is any value
  with its nanoseconds in range before the year 2106, not even monotonic. A data race is shown to be
  reachable; what it does to a container is not modelled. Overwriting a semaphore on which a thread waits is the
  fault \<open>SemInUse\<close>. \<open>ourLibs/EventScheduler.h\<close> has one calling
  thread and one running \<open>executeEvents\<close>, which \<open>op_parallelism\<close> justifies for its pool. A round of a
  thread of \<open>SpeedTest.cc\<close> is one step.

  \<^bold>\<open>Bounds.\<close> Messages are shorter than 2^31 bytes less room for the headers (at most 20 bytes for
  each of four layers); the counters are below 2^31, the ids of events below 2^31, the events of a
  scheduler fewer than 2^32. No definition uses fuel: loops recur on the fragment list, \<open>fate\<close> on the
  level of the pipe, the heap algorithms on the index; \<open>run_dispatcher\<close> and \<open>dispatch_run\<close> count the
  steps of a thread, and the properties say how many are enough.

  \<^bold>\<open>Not modelled.\<close> Fixed titles in the output of the drivers, the destructors that only free memory,
  and \<open>sleep\<close>, which adds nothing to what any schedule may do. \<open>SpeedMain\<close> takes the sending threads,
  the network and the receivers as what \<open>SpeedTest\<close> and \<open>Polling\<close> show of them: a round sends one text,
  which is lost or taken by one thread that then loads and stores the counter once. In \<open>PerProtocol_test.cpp\<close> both hosts live in one process; in
  \<open>TwoHosts\<close> each has memory and a counter of its own, which makes no difference to messages that only
  their host uses. The network of \<open>TwoHosts\<close> loses and reorders datagrams and does not duplicate them,
  as on the loopback interface.
\<close>

section \<open>The two implementations together\<close>

lemma sample_send:
  obtains m' h' where "app_send FTP sample_os sample_pm FTP_ID sample_msg sample_world
    = Inr (m', (net_send sample_os sample_pm sample_wire sample_world)\<lparr>hp := h'\<rparr>)"
proof -
  have small: "length (msg_bytes (hp sample_world) sample_msg) + 68 < 2 ^ 31"
    and fit: "length (wire fs FTP (int_cells FTP_ID) (msg_bytes (hp sample_world) sample_msg)) \<le> 1024"
    by (simp_all add: sample_msg(3))
  show thesis
    using app_sendD(1) [OF _ _ small fit, of sample_os sample_pm] sample_msg that
    by (auto simp: sample_wire_def)
qed

lemma sample_sent:
  "sent ((net_send sample_os sample_pm dg sample_world)\<lparr>hp := h\<rparr>)
     = sent sample_world @ [(\<lparr>sin_port = htons 45555, sin_addr = 16777343\<rparr>, dg)]"
  by (simp add: net_send_def sample_os_def sample_pm_def Let_def)

lemma sample_arrive:
  assumes "fate sample_link eth_recv_pipe 0 (take 1024 dg) = Inr x"
  obtains s1 ls t where "msg_recv (Some dg) sample_host = Inr s1" "host_run sample_link s1 ls (Inr t)"
    "inputs ls = 0" "quiet t"
proof -
  obtain s1 where s1: "msg_recv (Some dg) sample_host = Inr s1" "host_inv 8 s1"
    "account sample_link s1 = account sample_link sample_host + input_fate sample_link (Arrive (Some dg))"
    using arrive_step [of 8 sample_host dg sample_link] sample_inv by auto
  have "\<And>e. Inl e \<notin># account sample_link s1"
    using assms by (simp add: s1(3) quiet_account [OF sample_quiet])
  then show thesis
    using host_drains [OF s1(2), of sample_link] s1(1) that by blast
qed

text \<open>C8: Interworking, process per message to process per protocol: a datagram a \<open>PerMessage\<close>
  instance sends for an application, when it reaches a \<open>PerProtocol\<close> host at rest, is delivered
  there once, to the same application, with exactly the bytes that were sent.\<close>

theorem interwork_message_to_protocol:
  assumes "wf_mem (hp w)" "wf_msg (hp w) m" "app_send a e pm p m w = Inr (m', w')"
    and "length (msg_bytes (hp w) m) + 68 < 2 ^ 31" "sent w' = sent w @ [(dest, dg)]"
    and "host_inv 1 s" "quiet s" "msg_recv (Some dg) s = Inr s1"
    and "host_run c s1 ls (Inr t)" "inputs ls = 0" "quiet t"
  shows "outcomes t = add_mset (Got a (msg_bytes (hp w) m)) (outcomes s)"
proof (rule arrive_outcome [OF assms(6-11)])
  note dg = app_send_datagram [OF assms(1-5)]
  then have "length (msg_bytes (hp w) m) < 1024" "take 1024 dg = dg" by simp_all
  then show "fate c eth_recv_pipe 0 (take 1024 dg) = Inr (Got a (msg_bytes (hp w) m))"
    by (simp add: dg(1) fate_up)
qed

theorem interwork_message_to_protocol_witness:
  "\<exists>m' w' s1 ls t. ftpSend sample_os sample_pm FTP_ID sample_msg sample_world = Inr (m', w')
     \<and> msg_recv (Some (snd (last (sent w')))) sample_host = Inr s1
     \<and> host_run sample_link s1 ls (Inr t) \<and> outcomes t = {# Got FTP (map Some [1, 2, 3, 4, 5, 6, 7]) #}"
proof -
  obtain m' h' where s: "app_send FTP sample_os sample_pm FTP_ID sample_msg sample_world
    = Inr (m', (net_send sample_os sample_pm sample_wire sample_world)\<lparr>hp := h'\<rparr>)"
    by (rule sample_send)
  let ?w' = "(net_send sample_os sample_pm sample_wire sample_world)\<lparr>hp := h'\<rparr>"
  have fate: "fate sample_link eth_recv_pipe 0 (take 1024 sample_wire)
      = Inr (Got FTP (map Some [1, 2, 3, 4, 5, 6, 7]))"
    using fate_up [of fs "int_cells FTP_ID" sample_link 0 FTP "map Some [1, 2, 3, 4, 5, 6, 7]"]
    by (simp add: sample_wire_def)
  obtain s1 ls t where run: "msg_recv (Some sample_wire) sample_host = Inr s1"
    "host_run sample_link s1 ls (Inr t)" "inputs ls = 0" "quiet t"
    by (rule sample_arrive [OF fate])
  have "outcomes t = {# Got FTP (map Some [1, 2, 3, 4, 5, 6, 7]) #}"
    using interwork_message_to_protocol [OF _ _ s _ sample_sent _ sample_quiet run]
      host_inv_mono [OF sample_inv, of 1] sample_msg by simp
  then show ?thesis
    using s run(1,2) sample_sent [where dg = sample_wire and h = h'] by (intro exI conjI) auto
qed

text \<open>C9: Interworking the other way: every datagram a \<open>PerProtocol\<close> host at rest sends for a
  submitted message is delivered by \<open>PerMessage\<close> to the same application, once, with exactly the
  bytes that were submitted, and nothing is reported.\<close>

theorem interwork_protocol_to_message:
  assumes "host_inv 1 s" "quiet s" "readable (heap s) p n"
    and "new_Message p (word_of_nat n) s = (m, s1)" "sizeof_hdr (app_header a) + n \<le> 976"
    and "host_run c (msg_send m (app_id a) s1) ls (Inr t)" "inputs ls = 0" "quiet t"
    and "sent s = []" "(addr, dg) \<in> set (sent t)" "wf_mem (hp v)" "counter_ok v"
  shows "\<exists>m2 v2. receive_datagram (Some dg) v = Inr (m2, v2)
    \<and> got v2 = got v @ [(a, cells (heap s) p n)] \<and> rCounter v2 = rCounter v + 1 \<and> diags v2 = diags v"
proof -
  let ?bs = "cells (heap s) p n"
  let ?dg = "wire (undef_cells 8) a (undef_cells 4) ?bs"
  have n: "length ?bs = n" using assms(3) by simp
  then have fit: "length ?dg \<le> 1024" using assms(5) by (simp add: length_wire)
  have "Sent addr dg \<in># outcomes t" using assms(10) by (force simp: outcomes_def)
  moreover have "Sent addr dg \<notin># outcomes s" by (auto simp: outcomes_def assms(9))
  ultimately have "dg = ?dg"
    using submit_outcome [OF assms(1-4) refl fit assms(6-8)] by (auto split: if_splits)
  moreover have "recv_eth ?dg = Inr ([], Some (a, ?bs))"
    by (rule recv_eth_wire) (use n assms(5) in auto)
  moreover have "take BUFSIZE ?dg = ?dg" using fit by (simp add: BUFSIZE_def)
  ultimately show ?thesis
    using receive_datagram_spec [OF assms(11,12), of dg] by (auto simp: receipt_world_def)
qed

theorem interwork_protocol_to_message_witness:
  "\<exists>ls t addr dg m2 v2. host_run sample_link (msg_send 0 FTP_ID (snd (new_Message (0, 0) 3 sample_host))) ls (Inr t)
     \<and> (addr, dg) \<in> set (sent t) \<and> receive_datagram (Some dg) sample_world = Inr (m2, v2)
     \<and> got v2 = [(FTP, [Some 97, Some 98, Some 99])]"
proof -
  obtain ls t where run: "host_run sample_link sample_busy ls (Inr t)" "inputs ls = 0" "quiet t"
    and out: "image_mset Inr (outcomes t) = account sample_link sample_busy"
    using host_drains [OF sample_busy(1), of sample_link] unfolding sample_busy(2) by auto
  let ?dg = "wire (undef_cells 8) FTP (undef_cells 4) [Some 97, Some 98, Some 99]"
  have "Sent (servaddr sample_link) ?dg \<in># outcomes t"
  proof -
    have "(Inr (Sent (servaddr sample_link) ?dg) :: outcome res) \<in># image_mset Inr (outcomes t)"
      unfolding out sample_busy(2) by simp
    then show ?thesis by auto
  qed
  then have dg: "(servaddr sample_link, ?dg) \<in> set (sent t)" by (auto simp: outcomes_def)
  have new: "new_Message (0, 0) (word_of_nat 3) sample_host = (0, snd (new_Message (0, 0) 3 sample_host))"
    using sample_submit(1) by simp
  have inv: "host_inv 1 sample_host" by (rule host_inv_mono [OF sample_inv]) simp
  have run1: "host_run sample_link (msg_send 0 (app_id FTP) (snd (new_Message (0, 0) 3 sample_host))) ls (Inr t)"
    using run(1) by (simp add: sample_busy_def)
  have "sent sample_host = []" by (simp add: sample_host_def)
  from interwork_protocol_to_message [OF inv sample_quiet sample_submit(2) new _ run1 run(2,3) this dg,
      of sample_world] sample_msg(1)
  obtain m2 v2 where "receive_datagram (Some ?dg) sample_world = Inr (m2, v2)"
    "got v2 = [(FTP, [Some 97, Some 98, Some 99])]"
    by (auto simp: sample_submit(3))
  with run1 dg show ?thesis by (intro exI conjI) auto
qed

text \<open>C39: The two implementations do not agree on a datagram whose Ethernet header names another
  protocol than IP but which is otherwise in order: \<open>PerMessage\<close> reports it and still delivers
  the payload, \<open>PerProtocol\<close> reports it and drops the message.\<close>

theorem ethernet_protocol_disagreement:
  assumes "v \<noteq> IP_ID" "length other = 8" "recv_ip bs = Inr ([], Some (a, payload))"
    and "length bs + 16 \<le> 1024" "wf_mem (hp w)" "counter_ok w"
    and "host_inv 1 s" "quiet s" "msg_recv (Some (encap (int_cells v) other bs)) s = Inr s1"
    and "host_run c s1 ls (Inr t)" "inputs ls = 0" "quiet t"
  shows "(\<exists>m2 w2. receive_datagram (Some (encap (int_cells v) other bs)) w = Inr (m2, w2)
      \<and> diags w2 = diags w @ [EthInvalid v] \<and> got w2 = got w @ [(a, payload)])
    \<and> outcomes t = add_mset (Printed (UpInvalid ethHeader)) (outcomes s)"
proof
  let ?dg = "encap (int_cells v) other bs"
  have "recv_eth ?dg = Inr ([EthInvalid v], Some (a, payload))"
    using assms(1-3) by (simp add: recv_eth_def pop_hdr_encap)
  moreover have "take BUFSIZE ?dg = ?dg" using assms(2,4) by (simp add: BUFSIZE_def)
  ultimately show "\<exists>m2 w2. receive_datagram (Some ?dg) w = Inr (m2, w2)
      \<and> diags w2 = diags w @ [EthInvalid v] \<and> got w2 = got w @ [(a, payload)]"
    using receive_datagram_spec [OF assms(5,6), of ?dg] by (auto simp: receipt_world_def)
  show "outcomes t = add_mset (Printed (UpInvalid ethHeader)) (outcomes s)"
  proof (rule arrive_outcome [OF assms(7-12)])
    have "take 1024 ?dg = ?dg" using assms(2,4) by simp
    then show "fate c eth_recv_pipe 0 (take 1024 ?dg) = Inr (Printed (UpInvalid ethHeader))"
      using assms(1,2) by (simp add: fate.simps pop_hop_def pop_hdr_encap)
  qed
qed

theorem ethernet_protocol_disagreement_witness:
  "\<exists>s1 ls t m2 w2. msg_recv (Some (encap (int_cells 9) fs (drop 16 sample_wire))) sample_host = Inr s1
     \<and> host_run sample_link s1 ls (Inr t) \<and> outcomes t = {# Printed (UpInvalid ethHeader) #}
     \<and> receive_datagram (Some (encap (int_cells 9) fs (drop 16 sample_wire))) sample_world = Inr (m2, w2)
     \<and> got w2 = [(FTP, map Some [1, 2, 3, 4, 5, 6, 7])]"
proof -
  let ?dg = "encap (int_cells 9) fs (drop 16 sample_wire)"
  have ip: "recv_ip (drop 16 sample_wire) = Inr ([], Some (FTP, map Some [1, 2, 3, 4, 5, 6, 7]))"
    by code_simp
  have len: "length (drop 16 sample_wire) + 16 \<le> 1024" by (simp add: sample_wire_def)
  then have "fate sample_link eth_recv_pipe 0 (take 1024 ?dg) = Inr (Printed (UpInvalid ethHeader))"
    by (simp add: fate.simps pop_hop_def pop_hdr_encap)
  then obtain s1 ls t where run: "msg_recv (Some ?dg) sample_host = Inr s1"
    "host_run sample_link s1 ls (Inr t)" "inputs ls = 0" "quiet t"
    by (rule sample_arrive)
  have inv: "host_inv 1 sample_host" by (rule host_inv_mono [OF sample_inv]) simp
  from ethernet_protocol_disagreement [OF _ _ ip len _ _ inv sample_quiet run, of sample_world]
    run sample_msg(1)
  show ?thesis by auto
qed

end
